(* ===== verification/Prelude.thy ===== *)
theory Prelude
  imports Main "HOL-Library.Word"
begin

text \<open>
  What the component theories share: the machine types of the C sources, the value a call
  yields when the firmware stops in it (\<open>BUG\<close>, an endless loop), the error numbers of
  \<open>include/std/errno.h\<close>, the wrap-around of a signed 32-bit integer, and generic lemmas
  on words, bits and lists.
\<close>

unbundle bit_operations_syntax

section \<open>Types\<close>

type_synonym u8 = "8 word"
type_synonym u16 = "16 word"
type_synonym u32 = "32 word"
type_synonym u64 = "64 word"

text \<open>
  A call of the firmware either returns or stops the CPU. \<open>Bug\<close> is the panic of \<open>BUG()\<close>
  and \<open>BUG_ON(c)\<close>, \<open>Oob\<close> an access outside an array or through a null pointer,
  \<open>Stuck\<close> a loop that has used up the fuel its model was given.
\<close>

datatype fault = Bug | Oob | Stuck

type_synonym 'a res = "fault + 'a"

definition bindR :: "'a res \<Rightarrow> ('a \<Rightarrow> 'b res) \<Rightarrow> 'b res" where
  "bindR r f = (case r of Inl e \<Rightarrow> Inl e | Inr x \<Rightarrow> f x)"

text \<open>Conversion to a signed 32-bit integer.\<close>

definition s32 :: "int \<Rightarrow> int" where
  "s32 x = (x + 2 ^ 31) mod 2 ^ 32 - 2 ^ 31"

section \<open>Proof collections\<close>

named_theorems res_simps \<open>rewriting of results\<close>
named_theorems bit_lanes \<open>bits of the masks and shifts of the word routines\<close>

lemma bindR_Inl [simp, res_simps]: "bindR (Inl e) f = Inl e"
  by (simp add: bindR_def)

lemma bindR_Inr [simp, res_simps]: "bindR (Inr x) f = f x"
  by (simp add: bindR_def)

lemma bindR_eq_Inr_iff [res_simps]: "bindR r f = Inr y \<longleftrightarrow> (\<exists>x. r = Inr x \<and> f x = Inr y)"
  by (cases r) auto

section \<open>Words\<close>

lemma unat_ucast_up:
  fixes x :: "'a::len word"
  assumes "LENGTH('a) \<le> LENGTH('b)"
  shows "unat (ucast x :: 'b::len word) = unat x"
proof -
  have "unat x < 2 ^ LENGTH('a)" by (rule unsigned_less)
  also have "(2::nat) ^ LENGTH('a) \<le> 2 ^ LENGTH('b)" using assms by simp
  finally show ?thesis by (simp add: unsigned_ucast_eq take_bit_nat_eq_self)
qed

lemma and_mask_small: "unat x < 2 ^ n \<Longrightarrow> x AND mask n = x" for x :: "'a::len word"
  by (simp only: word_unat_eq_iff unsigned_take_bit_eq take_bit_nat_eq_self flip: take_bit_eq_mask)

section \<open>Error numbers\<close>

definition ENOENT :: int where "ENOENT = 2"
definition ENOMEM :: int where "ENOMEM = 12"
definition EBUSY :: int where "EBUSY = 16"
definition ENODEV :: int where "ENODEV = 19"
definition EINVAL :: int where "EINVAL = 22"
definition ENOSPC :: int where "ENOSPC = 28"
definition ERANGE :: int where "ERANGE = 34"
definition ETIME :: int where "ETIME = 62"

lemmas errno_defs = ENOENT_def ENOMEM_def EBUSY_def ENODEV_def EINVAL_def ENOSPC_def
  ERANGE_def ETIME_def

end
