(* ===== verification/Muldiv.thy ===== *)
theory Muldiv
  imports Prelude
begin

text \<open>
  The multiplication, division and remainder routines of \<open>lib/muldiv.c\<close>, which the small
  targets use in place of hardware instructions and \<open>lib/string.c\<close> and
  \<open>lib/vsnprintf.c\<close> call for number conversion. Each function is shown to compute the
  mathematical operation, for every operand, division by zero included.
\<close>

section \<open>Model\<close>

subsection \<open>Greatest common divisor\<close>

function gcd32u :: "u32 \<Rightarrow> u32 \<Rightarrow> u32" where
  "gcd32u n m = (if m \<noteq> 0 then gcd32u m (n mod m) else n)"
  by pat_completeness auto
termination
  by (relation "measure (\<lambda>(n, m). unat m)") (auto simp: unat_mod unat_gt_0)

declare gcd32u.simps [simp del]

subsection \<open>Division: one quotient bit per iteration\<close>

text \<open>
  The body of the \<open>do ... while (--count)\<close> loop, the same in \<open>div16u\<close>, \<open>div32u\<close>
  and \<open>div64u\<close>: the top bit of \<open>x\<close> moves into \<open>reste\<close>, and the quotient bit into
  the freed bottom bit of \<open>x\<close>.
\<close>

definition divu_step :: "'a::len word \<Rightarrow> 'a word \<times> 'a word \<Rightarrow> 'a word \<times> 'a word" where
  "divu_step y = (\<lambda>(x, reste).
     let c = bit x (LENGTH('a) - 1);
         x = push_bit 1 x;
         reste = push_bit 1 reste;
         reste = (if c then reste OR 1 else reste)
     in if reste \<ge> y then (x OR 1, reste - y) else (x, reste))"

definition div16u :: "u16 \<Rightarrow> u16 \<Rightarrow> u16" where
  "div16u x y = fst ((divu_step y ^^ 16) (x, 0))"

definition div32u :: "u32 \<Rightarrow> u32 \<Rightarrow> u32" where
  "div32u x y = fst ((divu_step y ^^ 32) (x, 0))"

definition div64u :: "u64 \<Rightarrow> u64 \<Rightarrow> u64" where
  "div64u x y = fst ((divu_step y ^^ 64) (x, 0))"

subsection \<open>Multiplication from narrower products\<close>

definition mul16u :: "u16 \<Rightarrow> u16 \<Rightarrow> u32" where
  "mul16u x y =
     (let mul1 = ucast x :: u8; mul2 = ucast y :: u8;
          a = (ucast mul1 * ucast mul2 :: u32) AND 0x0000FFFF;
          mul2 = ucast (drop_bit 8 y) :: u8;
          b = (ucast mul1 * ucast mul2 :: u32) AND 0x0000FFFF;
          a = a + push_bit 8 b;
          mul1 = ucast (drop_bit 8 x) :: u8;
          b = (ucast mul1 * ucast mul2 :: u32) AND 0x0000FFFF;
          a = a + push_bit 16 b;
          mul2 = ucast y :: u8;
          b = (ucast mul1 * ucast mul2 :: u32) AND 0x0000FFFF
      in a + push_bit 8 b)"

definition mul32u :: "u32 \<Rightarrow> u32 \<Rightarrow> u64" where
  "mul32u x y =
     (let a = ucast (mul16u (ucast x) (ucast y)) AND 0x00000000FFFFFFFF;
          b = ucast (mul16u (ucast x) (ucast (drop_bit 16 y))) AND 0x00000000FFFFFFFF;
          a = a + push_bit 16 b;
          b = ucast (mul16u (ucast (drop_bit 16 x)) (ucast (drop_bit 16 y))) AND 0x00000000FFFFFFFF;
          a = a + push_bit 32 b;
          b = ucast (mul16u (ucast (drop_bit 16 x)) (ucast y)) AND 0x00000000FFFFFFFF
      in a + push_bit 16 b)"

subsection \<open>Remainder: normalise the divisor, then subtract and halve\<close>

text \<open>
  The first loop shifts the divisor until its top bit is set. It does not return for a zero
  divisor, which the functions exclude before they enter it.
\<close>

partial_function (option) modu_norm :: "'a::len word \<Rightarrow> u8 \<Rightarrow> ('a word \<times> u8) option" where
  "modu_norm y count =
     (if \<not> bit y (LENGTH('a) - 1) then modu_norm (push_bit 1 y) (count + 1) else Some (y, count))"

fun modu_loop :: "nat \<Rightarrow> 'a::len word \<Rightarrow> 'a word \<Rightarrow> 'a word" where
  "modu_loop 0 x y = x"
| "modu_loop (Suc count) x y =
     modu_loop count (if x \<ge> y then x - y else x) (drop_bit 1 y)"

definition mod16u :: "u16 \<Rightarrow> u16 \<Rightarrow> u16 option" where
  "mod16u x y = (if y = 0 then Some (- 1)
     else map_option (\<lambda>(y, count). modu_loop (unat count) x y) (modu_norm y 1))"

definition mod32u :: "u32 \<Rightarrow> u32 \<Rightarrow> u32 option" where
  "mod32u x y = (if y = 0 then Some (- 1)
     else map_option (\<lambda>(y, count). modu_loop (unat count) x y) (modu_norm y 1))"

text \<open>\<open>mod64u\<close> widens the \<^emph>\<open>32-bit\<close> constant \<open>(uint32_t)-1\<close>.\<close>

definition mod64u :: "u64 \<Rightarrow> u64 \<Rightarrow> u64 option" where
  "mod64u x y = (if y = 0 then Some (ucast (- 1 :: u32))
     else map_option (\<lambda>(y, count). modu_loop (unat count) x y) (modu_norm y 1))"

section \<open>Lemmas\<close>

lemma divu_step_arith:
  fixes x r y :: "'a::len word"
  shows "divu_step y (x, r) =
    (let r' = 2 * r + (if bit x (LENGTH('a) - 1) then 1 else 0)
     in if y \<le> r' then (2 * x + 1, r' - y) else (2 * x, r'))"
  unfolding divu_step_def by (simp add: or_one_eq Let_def mult.commute)

lemma unat_double:
  fixes x :: "'a::len word"
  shows "unat (2 * x) = 2 * unat x mod 2 ^ LENGTH('a)"
proof -
  have "unat (x + x) = (unat x + unat x) mod 2 ^ LENGTH('a)" by (rule unat_word_ariths)
  then show ?thesis by (simp only: mult_2)
qed

lemma even_less_Suc: "even a \<Longrightarrow> even b \<Longrightarrow> a < b \<Longrightarrow> a + 1 < b" for a b :: nat
  by (auto elim!: evenE)

lemma unat_double_Suc:
  fixes x :: "'a::len word"
  shows "unat (2 * x + 1) = 2 * unat x mod 2 ^ LENGTH('a) + 1"
proof -
  let ?d = "2 * unat x mod 2 ^ LENGTH('a)"
  have "even ?d" by (simp add: dvd_mod_iff)
  moreover have "?d < 2 ^ LENGTH('a)" by simp
  moreover have "even ((2::nat) ^ LENGTH('a))" by simp
  ultimately have "?d + 1 < 2 ^ LENGTH('a)"
    by (intro even_less_Suc)
  moreover have "unat (2 * x + 1) = (?d + 1) mod 2 ^ LENGTH('a)"
    by (simp add: unat_word_ariths(1) unat_double mod_simps)
  ultimately show ?thesis by simp
qed

lemma odd_div_iff: "x < 2 * p \<Longrightarrow> odd (x div p) \<longleftrightarrow> p \<le> x" for x p :: nat
  by (cases "p \<le> x") (auto simp: le_div_geq)

lemma bit_top_iff:
  fixes x :: "'a::len word"
  shows "bit x (LENGTH('a) - 1) \<longleftrightarrow> 2 ^ (LENGTH('a) - 1) \<le> unat x"
proof -
  have "unat x < 2 ^ Suc (LENGTH('a) - 1)" by simp
  then have "odd (unat x div 2 ^ (LENGTH('a) - 1)) \<longleftrightarrow> 2 ^ (LENGTH('a) - 1) \<le> unat x"
    by (intro odd_div_iff) (simp only: power_Suc)
  then show ?thesis by (simp add: bit_unsigned_iff flip: bit_iff_odd)
qed

lemma digit_less: "a < A \<Longrightarrow> b < B \<Longrightarrow> a * B + b < A * (B::nat)"
proof -
  assume "a < A" "b < B"
  then have "a * B + b < Suc a * B" by simp
  also have "\<dots> \<le> A * B" using \<open>a < A\<close> by (intro mult_le_mono1) simp
  finally show ?thesis .
qed

lemma mod_Suc_power: "X mod 2 ^ Suc m = (X div 2 ^ m mod 2) * 2 ^ m + X mod 2 ^ m" for X :: nat
  unfolding power_Suc2 mod_mult2_eq by (simp only: mult.commute)

lemma div_Suc_power: "X div 2 ^ m = 2 * (X div 2 ^ Suc m) + X div 2 ^ m mod 2" for X :: nat
  unfolding power_Suc2 div_mult2_eq by (simp only: mult_div_mod_eq)

lemma div_power_less: "X < 2 ^ (a + b) \<Longrightarrow> X div 2 ^ a < 2 ^ b" for X :: nat
  by (simp add: less_mult_imp_div_less power_add mult.commute)

text \<open>One step of the division on numbers: \<open>q\<close> and \<open>r\<close> are the quotient and the remainder of
  the prefix read so far, \<open>b\<close> the next bit.\<close>

lemma div_next_bit:
  fixes P Y b :: nat
  assumes "Y > 0" and "b < 2"
  shows "(2 * P + b) div Y = 2 * (P div Y) + (if Y \<le> 2 * (P mod Y) + b then 1 else 0)"
    and "(2 * P + b) mod Y = (if Y \<le> 2 * (P mod Y) + b then 2 * (P mod Y) + b - Y else 2 * (P mod Y) + b)"
proof -
  define q r where "q = P div Y" and "r = P mod Y"
  have r: "r < Y" using assms(1) by (simp add: r_def)
  have eq: "2 * P + b = 2 * q * Y + (2 * r + b)"
    using div_mult_mod_eq [of P Y] by (simp only: q_def r_def)
  have *: "(2 * P + b) div Y = 2 * q + (2 * r + b) div Y" "(2 * P + b) mod Y = (2 * r + b) mod Y"
    unfolding eq using assms(1) by simp_all
  have "2 * r + b < 2 * Y" using r assms(2) by linarith
  then have "(2 * r + b) div Y = (if Y \<le> 2 * r + b then 1 else 0)"
    "(2 * r + b) mod Y = (if Y \<le> 2 * r + b then 2 * r + b - Y else 2 * r + b)"
    using assms(1) by (auto simp: le_mod_geq le_div_geq)
  with * show "(2 * P + b) div Y = 2 * (P div Y) + (if Y \<le> 2 * (P mod Y) + b then 1 else 0)"
    and "(2 * P + b) mod Y = (if Y \<le> 2 * (P mod Y) + b then 2 * (P mod Y) + b - Y else 2 * (P mod Y) + b)"
    by (simp_all add: q_def r_def)
qed

lemma divu_step_unat:
  fixes x r y :: "'a::len word"
  assumes W: "LENGTH('a) = Suc w" and x: "unat x = B * 2 ^ w + L" and L: "L < 2 ^ w" and B: "B < 2"
    and r: "unat r < 2 ^ w"
  shows "unat (fst (divu_step y (x, r))) = 2 * L + (if unat y \<le> 2 * unat r + B then 1 else 0)"
    and "unat (snd (divu_step y (x, r))) =
      (if unat y \<le> 2 * unat r + B then 2 * unat r + B - unat y else 2 * unat r + B)"
proof -
  have "bit x (LENGTH('a) - 1) \<longleftrightarrow> 2 ^ w \<le> B * 2 ^ w + L"
    using bit_top_iff [of x] by (simp only: W x diff_Suc_1)
  then have top: "bit x (LENGTH('a) - 1) \<longleftrightarrow> B = 1"
    using L less_2_cases [OF B] by auto
  have "2 * unat x = B * 2 ^ LENGTH('a) + 2 * L" unfolding x W by (simp add: algebra_simps)
  moreover have "2 * L < 2 ^ LENGTH('a)" using L by (simp add: W)
  ultimately have dbl: "2 * unat x mod 2 ^ LENGTH('a) = 2 * L" by simp
  define r' where "r' = 2 * r + (if B = 1 then 1 else 0)"
  have "2 * unat r mod 2 ^ LENGTH('a) = 2 * unat r" using r by (simp add: W)
  then have ur: "unat r' = 2 * unat r + B"
    using less_2_cases [OF B] by (auto simp: r'_def unat_double unat_double_Suc)
  have step: "divu_step y (x, r) = (if y \<le> r' then (2 * x + 1, r' - y) else (2 * x, r'))"
    by (simp only: divu_step_arith top Let_def r'_def)
  have cmp: "y \<le> r' \<longleftrightarrow> unat y \<le> 2 * unat r + B" by (simp only: word_le_nat_alt ur)
  show "unat (fst (divu_step y (x, r))) = 2 * L + (if unat y \<le> 2 * unat r + B then 1 else 0)"
    unfolding step cmp by (simp add: unat_double unat_double_Suc dbl)
  show "unat (snd (divu_step y (x, r))) =
      (if unat y \<le> 2 * unat r + B then 2 * unat r + B - unat y else 2 * unat r + B)"
    using unat_sub [of y r'] unfolding step cmp by (simp add: ur)
qed

lemma divu_iterate:
  fixes x0 y :: "'a::len word"
  assumes "y \<noteq> 0" and "k \<le> LENGTH('a)"
  defines "X \<equiv> unat x0" and "Y \<equiv> unat y"
  shows "unat (fst ((divu_step y ^^ k) (x0, 0))) =
      (X mod 2 ^ (LENGTH('a) - k)) * 2 ^ k + X div 2 ^ (LENGTH('a) - k) div Y \<and>
    unat (snd ((divu_step y ^^ k) (x0, 0))) = X div 2 ^ (LENGTH('a) - k) mod Y"
  using assms(2)
proof (induction k)
  case 0
  have "X < 2 ^ LENGTH('a)" unfolding X_def by (rule unsigned_less)
  then show ?case by (simp add: X_def)
next
  case (Suc k)
  define m where "m = LENGTH('a) - Suc k"
  define B where "B = X div 2 ^ m mod 2"
  define P where "P = X div 2 ^ Suc m"
  define L where "L = (X mod 2 ^ m) * 2 ^ k + P div Y"
  have W: "LENGTH('a) = Suc (m + k)" and Wk: "LENGTH('a) - k = Suc m"
    using Suc.prems by (auto simp: m_def)
  have Y: "Y > 0" using assms(1) by (simp add: Y_def unat_gt_0)
  have B: "B < 2" by (simp add: B_def)
  obtain x r where step: "(divu_step y ^^ k) (x0, 0) = (x, r)" by force
  then have x: "unat x = (X mod 2 ^ Suc m) * 2 ^ k + P div Y" and r: "unat r = P mod Y"
    using Suc.IH Suc.prems unfolding Wk P_def by auto
  have "X < 2 ^ LENGTH('a)" unfolding X_def by (rule unsigned_less)
  then have "X < 2 ^ (Suc m + k)" by (simp only: W add_Suc)
  then have P: "P < 2 ^ k" unfolding P_def by (rule div_power_less)
  then have q: "P div Y < 2 ^ k" by (rule order_le_less_trans [OF div_le_dividend])
  have L: "L < 2 ^ (m + k)" unfolding L_def power_add using q by (intro digit_less) simp_all
  have xL: "unat x = B * 2 ^ (m + k) + L"
    unfolding x mod_Suc_power B_def L_def power_add by (simp only: add_mult_distrib mult.assoc add.assoc)
  have "P mod Y < 2 ^ k" using P by (rule order_le_less_trans [OF mod_less_eq_dividend])
  also have "(2::nat) ^ k \<le> 2 ^ (m + k)" by simp
  finally have "unat r < 2 ^ (m + k)" by (simp only: r)
  note divu_step_unat [OF W xL L B this, of y, folded Y_def, unfolded r]
  moreover have "X div 2 ^ m = 2 * P + B" unfolding P_def B_def by (rule div_Suc_power)
  moreover have "2 * L = (X mod 2 ^ m) * 2 ^ Suc k + 2 * (P div Y)" by (simp add: L_def algebra_simps)
  ultimately show ?case
    by (simp only: funpow.simps o_apply step m_def [symmetric] div_next_bit [OF Y B]) (simp only: add.assoc)
qed

lemma divu_correct:
  fixes x y :: "'a::len word"
  assumes "y \<noteq> 0"
  shows "fst ((divu_step y ^^ LENGTH('a)) (x, 0)) = x div y"
  using divu_iterate [OF assms order_refl, of x] by (simp add: word_unat_eq_iff unat_div)

lemma divu_zero_iterate:
  "fst ((divu_step 0 ^^ k) (x, r)) = 2 ^ k * x + (2 ^ k - 1)"
proof (induction k)
  case (Suc k)
  obtain x' r' where "(divu_step 0 ^^ k) (x, r) = (x', r')" by force
  with Suc have "fst ((divu_step 0 ^^ Suc k) (x, r)) = 2 * (2 ^ k * x + (2 ^ k - 1)) + 1"
    by (simp add: divu_step_arith)
  then show ?case by (simp only: power_Suc) (simp only: algebra_simps, simp)
qed simp

lemma divu_zero:
  fixes x :: "'a::len word"
  shows "fst ((divu_step 0 ^^ LENGTH('a)) (x, 0)) = - 1"
  by (simp add: divu_zero_iterate)

lemma divu_eq:
  fixes x y :: "'a::len word"
  assumes "LENGTH('a) = n"
  shows "fst ((divu_step y ^^ n) (x, 0)) = (if y = 0 then - 1 else x div y)"
  using divu_correct [of y x] divu_zero [of x] by (simp add: assms)

lemma ucast_u16_bytes: "(ucast x :: u32) = ucast (ucast x :: u8) + push_bit 8 (ucast (ucast (drop_bit 8 x) :: u8))"
  for x :: u16
proof -
  have "(ucast x :: u32) = ucast (ucast x :: u8) OR push_bit 8 (ucast (ucast (drop_bit 8 x) :: u8))"
    by (rule bit_word_eqI) (auto simp: bit_simps dest: bit_imp_le_length)
  also have "\<dots> = ucast (ucast x :: u8) + push_bit 8 (ucast (ucast (drop_bit 8 x) :: u8))"
    by (rule disjunctive_add [symmetric]) (auto simp: bit_simps)
  finally show ?thesis .
qed

lemma ucast_u32_words: "(ucast x :: u64) = ucast (ucast x :: u16) + push_bit 16 (ucast (ucast (drop_bit 16 x) :: u16))"
  for x :: u32
proof -
  have "(ucast x :: u64) = ucast (ucast x :: u16) OR push_bit 16 (ucast (ucast (drop_bit 16 x) :: u16))"
    by (rule bit_word_eqI) (auto simp: bit_simps dest: bit_imp_le_length)
  also have "\<dots> = ucast (ucast x :: u16) + push_bit 16 (ucast (ucast (drop_bit 16 x) :: u16))"
    by (rule disjunctive_add [symmetric]) (auto simp: bit_simps)
  finally show ?thesis .
qed

lemma unat_u8_prod: "unat (ucast a * ucast b :: u32) = unat a * unat b" for a b :: u8
proof -
  have "unat a < 2 ^ 8" "unat b < 2 ^ 8" using unsigned_less [of a] unsigned_less [of b] by simp_all
  then have "unat a * unat b < 2 ^ 8 * 2 ^ 8" by (intro mult_strict_mono) auto
  then show ?thesis by (simp add: unat_word_ariths unat_ucast_up)
qed

lemma u8_prod_mask: "(ucast a * ucast b :: u32) AND 0xFFFF = ucast a * ucast b" for a b :: u8
proof -
  have "unat a < 2 ^ 8" "unat b < 2 ^ 8" using unsigned_less [of a] unsigned_less [of b] by simp_all
  then have "unat a * unat b < 2 ^ 8 * 2 ^ 8" by (intro mult_strict_mono) auto
  then have "(ucast a * ucast b :: u32) AND mask 16 = ucast a * ucast b"
    by (intro and_mask_small) (simp add: unat_u8_prod)
  then show ?thesis by (simp add: mask_numeral)
qed

lemma mul16u_eq: "mul16u x y = ucast x * ucast y"
proof -
  let ?xl = "ucast (ucast x :: u8) :: u32" and ?xh = "ucast (ucast (drop_bit 8 x) :: u8) :: u32"
  let ?yl = "ucast (ucast y :: u8) :: u32" and ?yh = "ucast (ucast (drop_bit 8 y) :: u8) :: u32"
  have "mul16u x y = ?xl * ?yl + 256 * (?xl * ?yh) + 65536 * (?xh * ?yh) + 256 * (?xh * ?yl)"
    by (simp only: mul16u_def Let_def u8_prod_mask) (simp add: push_bit_eq_mult mult.commute)
  also have "\<dots> = (?xl + 256 * ?xh) * (?yl + 256 * ?yh)"
    by (simp add: algebra_simps)
  also have "?xl + 256 * ?xh = ucast x"
    by (simp add: ucast_u16_bytes [of x] push_bit_eq_mult mult.commute)
  also have "?yl + 256 * ?yh = ucast y"
    by (simp add: ucast_u16_bytes [of y] push_bit_eq_mult mult.commute)
  finally show ?thesis .
qed

lemma modu_loop_correct:
  fixes x y :: "'a::len word"
  assumes "Y > 0" and "unat y = Y * 2 ^ k" and "unat x < 2 * (Y * 2 ^ k)"
  shows "unat (modu_loop (Suc k) x y) = unat x mod Y"
  using assms(2,3)
proof (induction k arbitrary: x y)
  case 0
  then show ?case
    using assms(1) by (auto simp: word_le_nat_alt unat_sub le_mod_geq)
next
  case (Suc k)
  let ?x = "if x \<ge> y then x - y else x"
  have "unat (drop_bit 1 y) = Y * 2 ^ k"
    unfolding unat_drop_bit_eq Suc.prems(1) by (simp add: drop_bit_eq_div)
  moreover have ux: "unat ?x = (if unat y \<le> unat x then unat x - unat y else unat x)"
    by (simp add: word_le_nat_alt unat_sub)
  moreover have "unat ?x < 2 * (Y * 2 ^ k)" using Suc.prems by (auto simp: ux)
  ultimately have "unat (modu_loop (Suc k) ?x (drop_bit 1 y)) = unat ?x mod Y"
    by (intro Suc.IH) auto
  also have "\<dots> = unat x mod Y"
    using Suc.prems(1) by (auto simp: ux le_imp_diff_is_add mod_simps dest!: le_Suc_ex)
  finally show ?case by simp
qed


lemma unat_mul_u16: "unat (ucast a * ucast b :: u32) = unat a * unat b" for a b :: u16
proof -
  have "unat a < 2 ^ 16" "unat b < 2 ^ 16" using unsigned_less [of a] unsigned_less [of b] by simp_all
  then have "unat a * unat b < 2 ^ 16 * 2 ^ 16" by (intro mult_strict_mono) auto
  then show ?thesis by (simp add: unat_word_ariths unat_ucast_up)
qed

lemma mul16u_widen: "(ucast (mul16u a b) :: u64) AND 0xFFFFFFFF = ucast a * ucast b"
proof -
  have "unat a < 2 ^ 16" "unat b < 2 ^ 16" using unsigned_less [of a] unsigned_less [of b] by simp_all
  then have less: "unat a * unat b < 2 ^ 16 * 2 ^ 16" by (intro mult_strict_mono) auto
  then have eq: "(ucast (mul16u a b) :: u64) = ucast a * ucast b"
    by (simp add: word_unat_eq_iff mul16u_eq unat_ucast_up unat_mul_u16 unat_word_ariths(2))
  have "(ucast (mul16u a b) :: u64) AND mask 32 = ucast (mul16u a b)"
    using less by (intro and_mask_small) (simp add: mul16u_eq unat_ucast_up unat_mul_u16)
  then show ?thesis by (simp add: mask_numeral eq)
qed

lemma unat_mul_u32: "unat (ucast a * ucast b :: u64) = unat a * unat b" for a b :: u32
proof -
  have "unat a < 2 ^ 32" "unat b < 2 ^ 32" using unsigned_less [of a] unsigned_less [of b] by simp_all
  then have "unat a * unat b < 2 ^ 32 * 2 ^ 32" by (intro mult_strict_mono) auto
  then show ?thesis by (simp add: unat_word_ariths unat_ucast_up)
qed

lemma mul32u_eq: "mul32u x y = ucast x * ucast y"
proof -
  let ?xl = "ucast (ucast x :: u16) :: u64" and ?xh = "ucast (ucast (drop_bit 16 x) :: u16) :: u64"
  let ?yl = "ucast (ucast y :: u16) :: u64" and ?yh = "ucast (ucast (drop_bit 16 y) :: u16) :: u64"
  have "mul32u x y = ?xl * ?yl + 65536 * (?xl * ?yh) + 4294967296 * (?xh * ?yh) + 65536 * (?xh * ?yl)"
    by (simp only: mul32u_def Let_def mul16u_widen) (simp add: push_bit_eq_mult mult.commute)
  also have "\<dots> = (?xl + 65536 * ?xh) * (?yl + 65536 * ?yh)"
    by (simp add: algebra_simps)
  also have "?xl + 65536 * ?xh = ucast x"
    by (simp add: ucast_u32_words [of x] push_bit_eq_mult mult.commute)
  also have "?yl + 65536 * ?yh = ucast y"
    by (simp add: ucast_u32_words [of y] push_bit_eq_mult mult.commute)
  finally show ?thesis .
qed

lemma modu_norm_returns:
  fixes y :: "'a::len word"
  assumes "y \<noteq> 0"
  shows "\<exists>k. modu_norm y c = Some (push_bit k y, c + of_nat k) \<and> unat (push_bit k y) = unat y * 2 ^ k
     \<and> 2 ^ (LENGTH('a) - 1) \<le> unat y * 2 ^ k"
  using assms
proof (induction "2 ^ LENGTH('a) - unat y" arbitrary: y c rule: less_induct)
  case less
  show ?case
  proof (cases "bit y (LENGTH('a) - 1)")
    case True
    then show ?thesis
      using bit_top_iff [of y] by (intro exI [of _ 0]) (simp add: modu_norm.simps [of y])
  next
    case False
    let ?y = "push_bit 1 y"
    have "unat y < 2 ^ (LENGTH('a) - 1)" using False by (simp only: bit_top_iff not_le)
    then have "2 * unat y < 2 ^ Suc (LENGTH('a) - 1)" by (simp only: power_Suc)
    then have y2: "unat ?y = 2 * unat y" by (simp add: unat_double mult.commute [of y])
    have "unat y > 0" using less.prems by (simp add: unat_gt_0)
    moreover have "unat ?y < 2 ^ LENGTH('a)" by (rule unsigned_less)
    ultimately have "2 ^ LENGTH('a) - unat ?y < 2 ^ LENGTH('a) - unat y" "?y \<noteq> 0"
      using y2 by (linarith, metis mult_is_0 neq0_conv unat_0 zero_neq_numeral)
    from less.hyps [OF this, of "c + 1"] obtain k
      where "modu_norm ?y (c + 1) = Some (push_bit k ?y, c + 1 + of_nat k)"
        "unat (push_bit k ?y) = unat ?y * 2 ^ k" "2 ^ (LENGTH('a) - 1) \<le> unat ?y * 2 ^ k"
      by blast
    then show ?thesis using False y2
      by (intro exI [of _ "Suc k"]) (simp add: modu_norm.simps [of y] ac_simps)
  qed
qed

lemma modu_correct:
  fixes x y :: "'a::len word"
  assumes y: "y \<noteq> 0" and len: "LENGTH('a) \<le> 64"
  shows "map_option (\<lambda>(y, count). modu_loop (unat count) x y) (modu_norm y 1) = Some (x mod y)"
proof -
  from modu_norm_returns [OF y, of 1] obtain k where
    norm: "modu_norm y 1 = Some (push_bit k y, 1 + of_nat k)" and
    shift: "unat (push_bit k y) = unat y * 2 ^ k" and top: "2 ^ (LENGTH('a) - 1) \<le> unat y * 2 ^ k"
    by blast
  have y0: "unat y > 0" using y by (simp add: unat_gt_0)
  have "1 * 2 ^ k \<le> unat y * 2 ^ k" using y0 by (intro mult_right_mono) auto
  also have "\<dots> < 2 ^ LENGTH('a)" unfolding shift [symmetric] by (rule unsigned_less)
  finally have "k < LENGTH('a)" by simp
  with len have count: "unat (1 + of_nat k :: u8) = Suc k"
    by (simp add: unat_word_ariths unat_of_nat)
  have "unat x < 2 ^ LENGTH('a)" by (rule unsigned_less)
  also have "(2::nat) ^ LENGTH('a) = 2 * 2 ^ (LENGTH('a) - 1)" by (simp flip: power_Suc)
  finally have "unat x < 2 * (unat y * 2 ^ k)" using top by linarith
  from modu_loop_correct [OF y0 shift this] have "modu_loop (Suc k) x (push_bit k y) = x mod y"
    by (simp only: word_unat_eq_iff unat_mod)
  then show ?thesis by (simp only: norm count option.map prod.case)
qed

lemma gcd32u_unat: "unat (gcd32u n m) = gcd (unat n) (unat m)"
proof (induction n m rule: gcd32u.induct)
  case (1 n m)
  then show ?case
    by (simp add: gcd32u.simps [of n m] unat_mod gcd_red_nat [of "unat n" "unat m", symmetric] gcd.commute)
      (metis gcd.commute gcd_red_nat)?
qed

section \<open>Properties\<close>

text \<open>
  C34: The shift-and-subtract division of \<open>lib/muldiv.c\<close> is exact at all three widths: for a
  nonzero divisor \<open>div16u\<close>, \<open>div32u\<close> and \<open>div64u\<close> return the quotient, and for a
  zero divisor the value with all bits set.
\<close>

theorem divu_exact:
  "div16u a b = (if b = 0 then - 1 else a div b) \<and>
   div32u c d = (if d = 0 then - 1 else c div d) \<and>
   div64u e f = (if f = 0 then - 1 else e div f)"
  by (simp add: div16u_def div32u_def div64u_def divu_eq)

text \<open>
  C35: The remainder routines return on every input, with the remainder for a nonzero divisor.
  A zero divisor gives all ones at 16 and 32 bits; at 64 bits it gives \<open>0x00000000FFFFFFFF\<close>.
\<close>

theorem modu_exact:
  "mod16u a b = Some (if b = 0 then - 1 else a mod b) \<and>
   mod32u c d = Some (if d = 0 then - 1 else c mod d) \<and>
   mod64u e f = Some (if f = 0 then 0x00000000FFFFFFFF else e mod f)"
proof -
  have "(ucast (- 1 :: u32) :: u64) = 0xFFFFFFFF" by code_simp
  then show ?thesis by (simp add: mod16u_def mod32u_def mod64u_def modu_correct)
qed

text \<open>
  The multiplications built from narrower products give the full double-width product, and
  \<open>gcd32u\<close> the greatest common divisor.
\<close>

theorem mulu_gcd_exact:
  "unat (mul16u a b) = unat a * unat b \<and> unat (mul32u c d) = unat c * unat d \<and>
   unat (gcd32u c d) = gcd (unat c) (unat d)"
  by (simp add: mul16u_eq unat_mul_u16 mul32u_eq unat_mul_u32 gcd32u_unat)

end
