(* ===== verification/Digits.thy ===== *)
theory Digits
  imports Prelude
begin

text \<open>
  Numbers as lists of digits of base \<open>2 ^ k\<close>, the representation in which the population
  counts of \<open>lib/bitops.c\<close> are explained: a masked addition of neighbouring fields of a word
  adds neighbouring digits, and carries never cross a field.
\<close>

text \<open>Numbers as digits of base \<open>2 ^ k\<close>, least significant first.\<close>

fun digits_val :: "nat \<Rightarrow> nat list \<Rightarrow> nat" where
  "digits_val k [] = 0"
| "digits_val k (x # xs) = x + 2 ^ k * digits_val k xs"

fun pair_sums :: "nat list \<Rightarrow> nat list" where
  "pair_sums (x # y # xs) = (x + y) # pair_sums xs"
| "pair_sums xs = xs"

fun lane_mask :: "nat \<Rightarrow> nat \<Rightarrow> nat" where
  "lane_mask k 0 = 0"
| "lane_mask k (Suc n) = mask k + 2 ^ (2 * k) * lane_mask k n"

lemma bit_less_exp: "x < 2 ^ k \<Longrightarrow> bit x i \<Longrightarrow> i < k" for x :: nat
  by (metis bit_take_bit_iff take_bit_nat_eq_self)

lemma lane_or: "x < 2 ^ k \<Longrightarrow> x + 2 ^ k * y = x OR push_bit k y" for x y :: nat
proof -
  assume "x < 2 ^ k"
  then have "x + push_bit k y = x OR push_bit k y"
    by (intro disjunctive_add) (auto simp: bit_simps dest: bit_less_exp)
  then show ?thesis by (simp add: push_bit_eq_mult mult.commute)
qed

lemma and_lane:
  fixes a b c d :: nat
  assumes "a < 2 ^ k" "c < 2 ^ k"
  shows "(a + 2 ^ k * b) AND (c + 2 ^ k * d) = (a AND c) + 2 ^ k * (b AND d)"
proof -
  have ac: "a AND c < 2 ^ k"
    using assms by (metis take_bit_and take_bit_nat_eq_self take_bit_nat_eq_self_iff)
  show ?thesis unfolding lane_or [OF assms(1)] lane_or [OF assms(2)] lane_or [OF ac]
    by (rule bit_eqI) (auto simp: bit_simps dest: bit_less_exp [OF assms(1)] bit_less_exp [OF assms(2)])
qed

lemma lane_low:
  fixes x y R M :: nat
  assumes "x < 2 ^ k" "y < 2 ^ k"
  shows "(x + 2 ^ k * (y + 2 ^ k * R)) AND (mask k + 2 ^ (2 * k) * M) = x + 2 ^ (2 * k) * (R AND M)"
proof -
  have *: "(mask k :: nat) < 2 ^ k" by (simp add: mask_eq_exp_minus_1)
  have "(x + 2 ^ k * (y + 2 ^ k * R)) AND (mask k + 2 ^ k * (0 + 2 ^ k * M)) =
    (x AND mask k) + 2 ^ k * ((y + 2 ^ k * R) AND (0 + 2 ^ k * M))"
    by (rule and_lane [OF assms(1) *])
  also have "(y + 2 ^ k * R) AND (0 + 2 ^ k * M) = (y AND 0) + 2 ^ k * (R AND M)"
    using assms(2) by (intro and_lane) auto
  also have "x AND mask k = x" using assms(1) by (simp add: take_bit_nat_eq_self flip: take_bit_eq_mask)
  finally show ?thesis by (simp add: mult_2 [of k] power_add mult.assoc)
qed

lemma digits_shift: "x < 2 ^ k \<Longrightarrow> (x + 2 ^ k * y) div 2 ^ k = y" for x y :: nat
  by simp

fun evens :: "nat list \<Rightarrow> nat list" where
  "evens (x # y # xs) = x # evens xs"
| "evens xs = xs"

fun odds :: "nat list \<Rightarrow> nat list" where
  "odds (x # y # xs) = y # odds xs"
| "odds xs = []"

lemma pair_obtain:
  assumes "length xs = 2 * Suc n"
  obtains x y r where "xs = x # y # r" "length r = 2 * n"
proof -
  from assms obtain x ys where "xs = x # ys" "length ys = Suc (2 * n)" by (cases xs) auto
  moreover then obtain y r where "ys = y # r" "length r = 2 * n" by (cases ys) auto
  ultimately show ?thesis using that by blast
qed

text \<open>The low and the high digit of each pair, under the lane mask.\<close>

lemma pair_parts:
  assumes "\<forall>x\<in>set xs. x < 2 ^ k" "length xs = 2 * n"
  shows "digits_val k xs AND lane_mask k n = digits_val (2 * k) (evens xs)"
    and "digits_val k xs div 2 ^ k AND lane_mask k n = digits_val (2 * k) (odds xs)"
proof -
  have "digits_val k xs AND lane_mask k n = digits_val (2 * k) (evens xs) \<and>
    digits_val k xs div 2 ^ k AND lane_mask k n = digits_val (2 * k) (odds xs)"
    using assms
  proof (induction n arbitrary: xs)
    case (Suc n)
    then obtain x y r where xs: "xs = x # y # r" and r: "length r = 2 * n" by (elim pair_obtain)
    let ?R = "digits_val k r"
    have x: "x < 2 ^ k" "y < 2 ^ k" and rb: "\<forall>x\<in>set r. x < 2 ^ k" using Suc.prems xs by auto
    have "\<exists>z R'. z < 2 ^ k \<and> ?R = z + 2 ^ k * R'" using rb by (cases r) auto
    then obtain z R' where z: "z < 2 ^ k" and R: "?R = z + 2 ^ k * R'" by blast
    have sh: "digits_val k xs div 2 ^ k = y + 2 ^ k * (z + 2 ^ k * R')" using x by (simp add: xs R)
    have "R' = ?R div 2 ^ k" using z by (simp add: R)
    with Suc.IH [OF rb r] show ?case
      unfolding sh by (simp only: xs digits_val.simps lane_mask.simps evens.simps odds.simps lane_low [OF x] lane_low [OF x(2) z])
  qed simp
  then show "digits_val k xs AND lane_mask k n = digits_val (2 * k) (evens xs)"
    and "digits_val k xs div 2 ^ k AND lane_mask k n = digits_val (2 * k) (odds xs)" by auto
qed

lemma digits_pair_sums:
  "even (length xs) \<Longrightarrow> digits_val m (pair_sums xs) = digits_val m (evens xs) + digits_val m (odds xs)"
  by (induction xs rule: pair_sums.induct) (auto simp: algebra_simps)

lemma digits_split:
  "even (length xs) \<Longrightarrow> digits_val k xs = digits_val (2 * k) (evens xs) + 2 ^ k * digits_val (2 * k) (odds xs)"
  by (induction xs rule: pair_sums.induct) (auto simp: distrib_left mult_2 [of k] power_add mult.left_commute mult.assoc)

lemma pair_add_carry:
  assumes "\<forall>x\<in>set xs. 2 * x < 2 ^ k" "length xs = 2 * n"
  shows "(digits_val k xs + digits_val k xs div 2 ^ k) AND lane_mask k n = digits_val (2 * k) (pair_sums xs)"
  using assms
proof (induction n arbitrary: xs)
  case (Suc n)
  then obtain x y r where xs: "xs = x # y # r" by (elim pair_obtain)
  let ?R = "digits_val k r"
  have x: "2 * x < 2 ^ k" "2 * y < 2 ^ k" and r: "\<forall>x\<in>set r. 2 * x < 2 ^ k" "length r = 2 * n" using Suc.prems xs by auto
  have "\<exists>z R'. 2 * z < 2 ^ k \<and> ?R = z + 2 ^ k * R'" using r by (cases r) auto
  then obtain z R' where z: "2 * z < 2 ^ k" and R: "?R = z + 2 ^ k * R'" by blast
  have sh: "digits_val k xs div 2 ^ k = y + 2 ^ k * (z + 2 ^ k * R')" using x by (simp add: xs R)
  have "digits_val k xs + digits_val k xs div 2 ^ k = (x + y) + 2 ^ k * ((y + z) + 2 ^ k * (?R + R'))"
    unfolding sh by (simp add: xs R algebra_simps)
  also have "\<dots> AND lane_mask k (Suc n) = (x + y) + 2 ^ (2 * k) * ((?R + R') AND lane_mask k n)"
    using lane_low [of "x + y" k "y + z"] x z by simp
  also have "R' = ?R div 2 ^ k" using z by (simp add: R)
  finally show ?case using Suc.IH [OF r] by (simp add: xs)
qed simp

lemma sum_pair_sums: "sum_list (pair_sums xs) = sum_list xs"
  by (induction xs rule: pair_sums.induct) auto

lemma pair_sums_length [simp]: "length (pair_sums xs) = Suc (length xs) div 2"
  by (induction xs rule: pair_sums.induct) auto

lemma pair_sums_bound: "\<forall>x\<in>set xs. x \<le> b \<Longrightarrow> even (length xs) \<Longrightarrow> \<forall>x\<in>set (pair_sums xs). x \<le> 2 * b"
  by (induction xs rule: pair_sums.induct) auto

definition word_bits :: "'a::len word \<Rightarrow> nat list" where
  "word_bits x = map (\<lambda>i. of_bool (bit x i)) [0..<LENGTH('a)]"

definition popcount :: "'a::len word \<Rightarrow> nat" where
  "popcount x = card {i. bit x i}"

lemma popcount_sum: "popcount x = sum_list (word_bits x)" for x :: "'a::len word"
proof -
  have "{i. bit x i} = {i. i < LENGTH('a) \<and> bit x i}" by (auto dest: bit_imp_le_length)
  then show ?thesis
    unfolding popcount_def word_bits_def by (simp add: interv_sum_list_conv_sum_set_nat atLeast0LessThan Int_def)
qed

lemma digits_take: "digits_val 1 (map (\<lambda>i. of_bool (bit x i)) [0..<n]) = take_bit n x" for x :: nat
proof (induction n arbitrary: x)
  case (Suc n)
  have "map (\<lambda>i. of_bool (bit x i)) [0..<Suc n] = (of_bool (odd x) :: nat) # map (\<lambda>i. of_bool (bit (x div 2) i)) [0..<n]"
    by (simp add: upt_conv_Cons map_Suc_upt [symmetric] bit_0 bit_Suc del: upt_Suc)
  then show ?case by (simp only: digits_val.simps Suc.IH) (simp add: take_bit_Suc mod_2_eq_odd)
qed simp

lemma digits_word: "digits_val 1 (word_bits x) = unat x" for x :: "'a::len word"
proof -
  have "word_bits x = map (\<lambda>i. of_bool (bit (unat x) i)) [0..<LENGTH('a)]"
    by (simp add: word_bits_def bit_unsigned_iff)
  then show ?thesis by (simp only: digits_take) (simp add: take_bit_nat_eq_self)
qed

lemma digits_bound: "\<forall>x\<in>set xs. x < 2 ^ k \<Longrightarrow> digits_val k xs < 2 ^ (k * length xs)"
proof (induction xs)
  case (Cons x xs)
  then have "digits_val k xs + 1 \<le> 2 ^ (k * length xs)" "x < 2 ^ k" by auto
  then have "2 ^ k * (digits_val k xs + 1) \<le> 2 ^ k * 2 ^ (k * length xs)" by (intro mult_left_mono) auto
  with \<open>x < 2 ^ k\<close> show ?case by (simp add: power_add distrib_left)
qed simp

lemma unat_add_small: "unat a + unat b < 2 ^ LENGTH('a) \<Longrightarrow> unat (a + b) = unat a + unat b" for a b :: "'a::len word"
  by (simp add: unat_word_ariths)

lemma unat_shift: "unat (drop_bit k x) = unat x div 2 ^ k" for x :: "'a::len word"
  unfolding unat_drop_bit_eq by (simp add: drop_bit_eq_div)

lemma unat_and: "unat (x AND y) = unat x AND unat y" for x y :: "'a::len word"
  by (rule unsigned_and_eq)

lemma hweight_bytes:
  fixes x m1 m2 m4 :: "'a::len word"
  assumes L: "LENGTH('a) = 8 * n"
    and m1: "unat m1 = lane_mask 1 (4 * n)" and m2: "unat m2 = lane_mask 2 (2 * n)" and m4: "unat m4 = lane_mask 4 n"
  defines "r1 \<equiv> x - (drop_bit 1 x AND m1)"
  defines "r2 \<equiv> (r1 AND m2) + (drop_bit 2 r1 AND m2)"
  obtains bs where "unat ((r2 + drop_bit 4 r2) AND m4) = digits_val 8 bs" "length bs = n"
    "\<forall>b\<in>set bs. b \<le> 8" "sum_list bs = popcount x"
proof -
  let ?xs = "word_bits x" let ?p = "pair_sums ?xs" let ?q = "pair_sums ?p" let ?s = "pair_sums ?q"
  have len: "length ?xs = 2 * (4 * n)" "length ?p = 2 * (2 * n)" "length ?q = 2 * n" "length ?s = n"
    by (simp_all add: word_bits_def L)
  have b0: "\<forall>b\<in>set ?xs. b \<le> 1" by (auto simp: word_bits_def)
  from pair_sums_bound [OF b0] have b1: "\<forall>b\<in>set ?p. b \<le> 2" using len by simp
  from pair_sums_bound [OF b1] have b2: "\<forall>b\<in>set ?q. b \<le> 4" using len by simp
  from pair_sums_bound [OF b2] have b3: "\<forall>b\<in>set ?s. b \<le> 8" using len by simp
  have X: "unat x = digits_val 1 ?xs" by (rule digits_word [symmetric])
  have d0: "\<forall>b\<in>set ?xs. b < 2 ^ 1" and d1: "\<forall>b\<in>set ?p. b < 2 ^ 2" using b0 b1 by (force, force)
  have sub: "unat (drop_bit 1 x AND m1) = digits_val 2 (odds ?xs)"
    unfolding unat_and unat_shift X m1 using pair_parts(2) [OF d0 len(1)] by simp
  have split: "digits_val 1 ?xs = digits_val 2 (evens ?xs) + 2 * digits_val 2 (odds ?xs)"
    using digits_split [of ?xs 1] len(1) by simp
  have "unat r1 = unat x - unat (drop_bit 1 x AND m1)"
    unfolding r1_def by (rule unat_sub) (simp only: word_le_nat_alt sub X split)
  also have "\<dots> = digits_val (2 * 1) ?p"
    unfolding sub X split using digits_pair_sums [of ?xs "2 * 1"] len(1) by simp
  finally have r1: "unat r1 = digits_val 2 ?p" by simp
  have "(unat r1 AND lane_mask 2 (2 * n)) + (unat r1 div 2 ^ 2 AND lane_mask 2 (2 * n)) = digits_val (2 * 2) ?q"
    unfolding r1 pair_parts [OF d1 len(2)] using digits_pair_sums [of ?p "2 * 2"] len(2) by simp
  moreover have qb: "digits_val 4 (map ((*) 2) ?q) < 2 ^ (4 * length (map ((*) 2) ?q))"
    using b2 by (intro digits_bound) force
  have dbl: "digits_val 4 (map ((*) 2) qs) = 2 * digits_val 4 qs" for qs by (induction qs) auto
  have small: "2 * digits_val 4 ?q < 2 ^ LENGTH('a)" using qb by (simp add: dbl len L)
  ultimately have r2: "unat r2 = digits_val 4 ?q"
    unfolding r2_def by (subst unat_add_small) (simp_all add: unat_and unat_shift m2)
  have "unat ((r2 + drop_bit 4 r2) AND m4) = digits_val (2 * 4) ?s"
  proof -
    have "unat (r2 + drop_bit 4 r2) = digits_val 4 ?q + digits_val 4 ?q div 2 ^ 4"
      using small by (subst unat_add_small) (simp_all add: unat_shift r2 div_le_dividend le_less_trans [OF add_left_mono])
    then show ?thesis unfolding unat_and m4 using b2 len(3) by (simp only:) (rule pair_add_carry, force)
  qed
  then show ?thesis using that [of ?s] len(4) b3 by (simp add: sum_pair_sums popcount_sum)
qed

fun add_digits :: "nat list \<Rightarrow> nat list \<Rightarrow> nat list" where
  "add_digits (x # xs) (y # ys) = (x + y) # add_digits xs ys"
| "add_digits xs [] = xs"
| "add_digits [] ys = ys"

lemma digits_add: "digits_val k xs + digits_val k ys = digits_val k (add_digits xs ys)"
  by (induction xs ys rule: add_digits.induct) (auto simp flip: distrib_left)

lemma digits_drop: "\<forall>x\<in>set xs. x < 2 ^ k \<Longrightarrow> digits_val k xs div 2 ^ (k * j) = digits_val k (drop j xs)"
proof (induction j arbitrary: xs)
  case (Suc j)
  then show ?case by (cases xs) (simp_all add: power_add div_mult2_eq)
qed simp

lemma unat_add_shift:
  fixes r :: "'a::len word"
  assumes "unat r = digits_val 8 bs" "8 * length bs = LENGTH('a)" "\<forall>b\<in>set (add_digits bs (drop j bs)). b < 256"
    "\<forall>b\<in>set bs. b < 256" "length (add_digits bs (drop j bs)) = length bs"
  shows "unat (r + drop_bit (8 * j) r) = digits_val 8 (add_digits bs (drop j bs))"
proof -
  have "digits_val 8 (add_digits bs (drop j bs)) < 2 ^ LENGTH('a)"
    using digits_bound [of "add_digits bs (drop j bs)" 8] assms(2,3,5) by simp
  then show ?thesis using assms(1,4)
    by (subst unat_add_small) (simp_all add: unat_shift digits_drop digits_add)
qed

lemma unat_low_byte: "unat (ucast (r AND 0xFF) :: u8) = unat r mod 256" if "LENGTH('a) \<ge> 8" for r :: "'a::len word"
proof -
  have eq: "(0xFF :: 'a word) = mask 8" by (simp add: mask_numeral)
  have "unat (ucast (take_bit 8 r) :: u8) = unat r mod 256"
    unfolding unsigned_ucast_eq unsigned_take_bit_eq by (simp add: take_bit_eq_mod)
  then show ?thesis by (simp only: eq take_bit_eq_mask)
qed

lemma lane_mask_numeral [simp]:
  "lane_mask k (numeral m) = mask k + 2 ^ (2 * k) * lane_mask k (pred_numeral m)"
  by (simp add: numeral_eq_Suc)

lemma digits_low_byte: "digits_val 8 (x # xs) mod 256 = x mod 256"
  by simp
end
