(* ===== verification/Bitops.thy ===== *)
theory Bitops
  imports Digits
begin

text \<open>
  The bit routines of \<open>lib/bitops.c\<close> and \<open>include/target/bitops.h\<close>: population counts,
  bit and byte reversal, first and last set bit, alignment, bitmaps of machine words with
  their search, and the exchange primitives of the uniprocessor build. Bitmaps and
  \<open>bits_t\<close> are those of a target that selects \<open>ARCH_HAS_BITS_PER_UNIT_64\<close>.
\<close>

section \<open>Model\<close>

subsection \<open>Population counts\<close>

definition hweight64 :: "u64 \<Rightarrow> u8" where
  "hweight64 quad =
     (let res = quad - (drop_bit 1 quad AND 0x5555555555555555);
          res = (res AND 0x3333333333333333) + (drop_bit 2 res AND 0x3333333333333333);
          res = (res + drop_bit 4 res) AND 0x0F0F0F0F0F0F0F0F;
          res = res + drop_bit 8 res;
          res = res + drop_bit 16 res
      in ucast ((res + drop_bit 32 res) AND 0x00000000000000FF))"

definition hweight32 :: "u32 \<Rightarrow> u8" where
  "hweight32 dword =
     (let res = dword - (drop_bit 1 dword AND 0x55555555);
          res = (res AND 0x33333333) + (drop_bit 2 res AND 0x33333333);
          res = (res + drop_bit 4 res) AND 0x0F0F0F0F;
          res = res + drop_bit 8 res
      in ucast ((res + drop_bit 16 res) AND 0x000000FF))"

definition hweight16 :: "u16 \<Rightarrow> u8" where
  "hweight16 w =
     (let res = w - (drop_bit 1 w AND 0x5555);
          res = (res AND 0x3333) + (drop_bit 2 res AND 0x3333);
          res = (res + drop_bit 4 res) AND 0x0F0F
      in ucast ((res + drop_bit 8 res) AND 0x00FF))"

definition hweight8 :: "u8 \<Rightarrow> u8" where
  "hweight8 byte =
     (let res = byte - (drop_bit 1 byte AND 0x55);
          res = (res AND 0x33) + (drop_bit 2 res AND 0x33)
      in (res + drop_bit 4 res) AND 0x0F)"

definition parity8 :: "u8 \<Rightarrow> u8" where
  "parity8 val =
     (let val = val XOR drop_bit 4 val
      in ucast (drop_bit (unat (val AND 0xf)) (0x6996 :: u32) AND 1))"

subsection \<open>Bit and byte reversal\<close>

definition bitrev8 :: "u8 \<Rightarrow> u8" where
  "bitrev8 byte =
     (let byte = push_bit 1 (byte AND 0x55) OR drop_bit 1 (byte AND 0xAA);
          byte = push_bit 2 (byte AND 0x33) OR drop_bit 2 (byte AND 0xCC)
      in push_bit 4 (byte AND 0x0F) OR drop_bit 4 (byte AND 0xF0))"

definition bitrev16 :: "u16 \<Rightarrow> u16" where
  "bitrev16 w =
     (let w = push_bit 1 (w AND 0x5555) OR drop_bit 1 (w AND 0xAAAA);
          w = push_bit 2 (w AND 0x3333) OR drop_bit 2 (w AND 0xCCCC);
          w = push_bit 4 (w AND 0x0F0F) OR drop_bit 4 (w AND 0xF0F0)
      in push_bit 8 (w AND 0x00FF) OR drop_bit 8 (w AND 0xFF00))"

definition bitrev3 :: "u32 \<Rightarrow> u32" where
  "bitrev3 bits = push_bit 2 (bits AND 0x1) OR drop_bit 2 (bits AND 0x4) OR (bits AND 0x2)"

definition swap16 :: "u16 \<Rightarrow> u16" where
  "swap16 x = push_bit 8 (x AND 0x00ff) OR drop_bit 8 (x AND 0xff00)"

definition swap32 :: "u32 \<Rightarrow> u32" where
  "swap32 x = push_bit 24 (x AND 0x000000ff) OR push_bit 8 (x AND 0x0000ff00) OR
     drop_bit 8 (x AND 0x00ff0000) OR drop_bit 24 (x AND 0xff000000)"

definition swap64 :: "u64 \<Rightarrow> u64" where
  "swap64 x =
     push_bit 56 (x AND 0x00000000000000ff) OR push_bit 40 (x AND 0x000000000000ff00) OR
     push_bit 24 (x AND 0x0000000000ff0000) OR push_bit 8 (x AND 0x00000000ff000000) OR
     drop_bit 8 (x AND 0x000000ff00000000) OR drop_bit 24 (x AND 0x0000ff0000000000) OR
     drop_bit 40 (x AND 0x00ff000000000000) OR drop_bit 56 (x AND 0xff00000000000000)"

subsection \<open>First set bit\<close>

text \<open>
  One test of an \<open>__ffs\<close> routine: when the low \<open>n\<close> bits, which \<open>m\<close> masks, are clear,
  the count grows by \<open>n\<close> and the word is shifted down.
\<close>

definition ffs_step :: "nat \<Rightarrow> 'a::len word \<Rightarrow> u8 \<times> 'a word \<Rightarrow> u8 \<times> 'a word" where
  "ffs_step n m = (\<lambda>(num, w). if w AND m = 0 then (num + of_nat n, drop_bit n w) else (num, w))"

definition ffs8 :: "u8 \<Rightarrow> u8" where
  "ffs8 byte = (if byte = 0 then 0
     else fst (ffs_step 1 0x1 (ffs_step 2 0x3 (ffs_step 4 0xf (0, byte)))))"

definition ffs16 :: "u16 \<Rightarrow> u8" where
  "ffs16 w = (if w = 0 then 0
     else fst (ffs_step 1 0x1 (ffs_step 2 0x3 (ffs_step 4 0xf (ffs_step 8 0xff (0, w))))))"

definition ffs32 :: "u32 \<Rightarrow> u8" where
  "ffs32 dword = (if dword = 0 then 0
     else fst (ffs_step 1 0x1 (ffs_step 2 0x3 (ffs_step 4 0xf (ffs_step 8 0xff
       (ffs_step 16 0xffff (0, dword)))))))"

definition ffs64 :: "u64 \<Rightarrow> u8" where
  "ffs64 qword = (if qword = 0 then 0
     else fst (ffs_step 1 0x1 (ffs_step 2 0x3 (ffs_step 4 0xf (ffs_step 8 0xff
       (ffs_step 16 0xffff (ffs_step 32 0xffffffff (0, qword))))))))"

definition ffz64 :: "u64 \<Rightarrow> u8" where
  "ffz64 x = ffs64 (NOT x)"

subsection \<open>Last set bit\<close>

text \<open>One test of an \<open>__fls\<close> routine: when the top bits under \<open>m\<close> are clear, the word moves up.\<close>

definition fls_step :: "nat \<Rightarrow> 'a::len word \<Rightarrow> u8 \<times> 'a word \<Rightarrow> u8 \<times> 'a word" where
  "fls_step n m = (\<lambda>(num, w). if w AND m = 0 then (num - of_nat n, push_bit n w) else (num, w))"

definition fls8 :: "u8 \<Rightarrow> u8" where
  "fls8 x = (if x = 0 then 0
     else fst (fls_step 1 0x80 (fls_step 2 0xc0 (fls_step 4 0xf0 (7, x)))))"

definition fls16 :: "u16 \<Rightarrow> u8" where
  "fls16 w = (if w = 0 then 0
     else fst (fls_step 1 0x8000 (fls_step 2 0xc000 (fls_step 4 0xf000
       (fls_step 8 0xff00 (16 - 1, w))))))"

definition fls32 :: "u32 \<Rightarrow> u8" where
  "fls32 dword = (if dword = 0 then 0
     else fst (fls_step 1 0x80000000 (fls_step 2 0xc0000000 (fls_step 4 0xf0000000
       (fls_step 8 0xff000000 (fls_step 16 0xffff0000 (32 - 1, dword)))))))"

definition fls64 :: "u64 \<Rightarrow> u8" where
  "fls64 quad = (if quad = 0 then 0
     else fst (fls_step 1 0x8000000000000000 (fls_step 2 0xc000000000000000
       (fls_step 4 0xf000000000000000 (fls_step 8 0xff00000000000000
       (fls_step 16 0xffff000000000000 (fls_step 32 0xffffffff00000000 (64 - 1, quad))))))))"

text \<open>
  The chain of 64 tests of \<open>ilog2_const\<close>, from bit 63 down; \<open>None\<close> is the call of the
  undefined \<open>____ilog2_NaN\<close>, which fails the link.
\<close>

definition ilog2_const :: "u64 \<Rightarrow> nat option" where
  "ilog2_const n = (if n < 1 then None else find (\<lambda>i. n AND push_bit i 1 \<noteq> 0) (rev [0..<64]))"

definition roundup8 :: "u8 \<Rightarrow> u32" where
  "roundup8 n = push_bit (unat (fls8 (n - 1)) + 1) 1"

definition roundup32 :: "u32 \<Rightarrow> u32" where
  "roundup32 n = push_bit (unat (fls32 (n - 1)) + 1) 1"

text \<open>\<open>__roundup64\<close> casts its argument to 32 bits before it calls \<open>__fls64\<close>.\<close>

definition roundup64 :: "u64 \<Rightarrow> u64" where
  "roundup64 n = push_bit (unat (fls64 (ucast (ucast (n - 1) :: u32))) + 1) 1"

definition rounddown32 :: "u32 \<Rightarrow> u32" where
  "rounddown32 n = push_bit (unat (fls32 n)) 1"

definition is_power_of_2 :: "'a::len word \<Rightarrow> bool" where
  "is_power_of_2 n \<longleftrightarrow> n \<noteq> 0 \<and> n AND (n - 1) = 0"

subsection \<open>Alignment\<close>

definition align_mask :: "'a::len word \<Rightarrow> 'a word \<Rightarrow> 'a word" where
  "align_mask x m = (x + m) AND NOT m"

definition ALIGN_UP :: "'a::len word \<Rightarrow> 'a word \<Rightarrow> 'a word" where
  "ALIGN_UP x a = align_mask x (a - 1)"

definition ALIGN_DOWN :: "'a::len word \<Rightarrow> 'a word \<Rightarrow> 'a word" where
  "ALIGN_DOWN x a = align_mask (x - (a - 1)) (a - 1)"

definition IS_ALIGNED :: "'a::len word \<Rightarrow> 'a word \<Rightarrow> bool" where
  "IS_ALIGNED x a \<longleftrightarrow> x AND (a - 1) = 0"

definition round_up :: "'a::len word \<Rightarrow> 'a word \<Rightarrow> 'a word" where
  "round_up x y = ((x - 1) OR (y - 1)) + 1"

definition round_down :: "'a::len word \<Rightarrow> 'a word \<Rightarrow> 'a word" where
  "round_down x y = x AND NOT (y - 1)"

subsection \<open>Bitmaps\<close>

text \<open>
  A bitmap is an array of 64-bit units. Sizes and bit numbers are natural numbers: in the
  searches the sum of \<open>result\<close> and \<open>size\<close> is constant, so that no computation of theirs wraps.
\<close>

abbreviation (input) BITS_PER_UNIT :: nat where "BITS_PER_UNIT \<equiv> 64"

definition BITS_TO_UNITS :: "nat \<Rightarrow> nat" where
  "BITS_TO_UNITS bits = (bits + BITS_PER_UNIT - 1) div BITS_PER_UNIT"

definition BITOP_MASK :: "nat \<Rightarrow> u64" where
  "BITOP_MASK nr = push_bit (nr mod BITS_PER_UNIT) 1"

definition BITOP_WORD :: "nat \<Rightarrow> nat" where
  "BITOP_WORD nr = nr div BITS_PER_UNIT"

definition set_bit_op :: "nat \<Rightarrow> u64 list \<Rightarrow> u64 list res" where
  "set_bit_op nr addr =
     (let mask = BITOP_MASK nr; p = BITOP_WORD nr
      in if p < length addr then Inr (addr[p := addr ! p OR mask]) else Inl Oob)"

definition clear_bit :: "nat \<Rightarrow> u64 list \<Rightarrow> u64 list res" where
  "clear_bit nr addr =
     (let mask = BITOP_MASK nr; p = BITOP_WORD nr
      in if p < length addr then Inr (addr[p := addr ! p AND NOT mask]) else Inl Oob)"

definition test_and_set_bit :: "nat \<Rightarrow> u64 list \<Rightarrow> (bool \<times> u64 list) res" where
  "test_and_set_bit nr addr =
     (let mask = BITOP_MASK nr; p = BITOP_WORD nr
      in if p < length addr
         then let old = addr ! p in Inr (old AND mask \<noteq> 0, addr[p := old OR mask])
         else Inl Oob)"

definition test_and_clear_bit :: "nat \<Rightarrow> u64 list \<Rightarrow> (bool \<times> u64 list) res" where
  "test_and_clear_bit nr addr =
     (let mask = BITOP_MASK nr; p = BITOP_WORD nr
      in if p < length addr
         then let old = addr ! p in Inr (old AND mask \<noteq> 0, addr[p := old AND NOT mask])
         else Inl Oob)"

definition test_bit :: "nat \<Rightarrow> u64 list \<Rightarrow> bool res" where
  "test_bit nr addr =
     (if BITOP_WORD nr < length addr
      then Inr (1 AND drop_bit (nr mod BITS_PER_UNIT) (addr ! BITOP_WORD nr) \<noteq> 0) else Inl Oob)"

text \<open>
  The two searches: \<open>find_set_first\<close> and \<open>find_clear_first\<close> are the label
  \<open>found_first\<close>, the \<open>_loop\<close> functions the \<open>while\<close> loop with the partial unit after it.
\<close>

definition find_set_first :: "u64 \<Rightarrow> nat \<Rightarrow> nat \<Rightarrow> nat" where
  "find_set_first tmp sz result =
     (let tmp = tmp AND drop_bit (BITS_PER_UNIT - sz) (- 1)
      in if tmp = 0 then result + sz else result + unat (ffs64 tmp))"

fun find_set_loop :: "u64 list \<Rightarrow> nat \<Rightarrow> nat \<Rightarrow> nat \<Rightarrow> nat res" where
  "find_set_loop addr p sz result =
     (if sz \<ge> BITS_PER_UNIT
      then if p < length addr
           then if addr ! p \<noteq> 0 then Inr (result + unat (ffs64 (addr ! p)))
                else find_set_loop addr (p + 1) (sz - BITS_PER_UNIT) (result + BITS_PER_UNIT)
           else Inl Oob
      else if sz = 0 then Inr result
      else if p < length addr then Inr (find_set_first (addr ! p) sz result) else Inl Oob)"

definition find_next_set_bit :: "u64 list \<Rightarrow> nat \<Rightarrow> nat \<Rightarrow> nat res" where
  "find_next_set_bit addr sz offset =
     (let p = BITOP_WORD offset; result = offset - offset mod BITS_PER_UNIT
      in if offset \<ge> sz then Inr sz
         else let sz = sz - result; offset = offset mod BITS_PER_UNIT
              in if offset \<noteq> 0
                 then if p < length addr
                      then let tmp = addr ! p AND push_bit offset (- 1)
                           in if sz < BITS_PER_UNIT then Inr (find_set_first tmp sz result)
                              else if tmp \<noteq> 0 then Inr (result + unat (ffs64 tmp))
                              else find_set_loop addr (p + 1) (sz - BITS_PER_UNIT) (result + BITS_PER_UNIT)
                      else Inl Oob
                 else find_set_loop addr p sz result)"

definition find_clear_first :: "u64 \<Rightarrow> nat \<Rightarrow> nat \<Rightarrow> nat" where
  "find_clear_first tmp sz result =
     (let tmp = tmp OR push_bit sz (- 1)
      in if tmp = - 1 then result + sz else result + unat (ffz64 tmp))"

fun find_clear_loop :: "u64 list \<Rightarrow> nat \<Rightarrow> nat \<Rightarrow> nat \<Rightarrow> nat res" where
  "find_clear_loop addr p sz result =
     (if sz \<ge> BITS_PER_UNIT
      then if p < length addr
           then if NOT (addr ! p) \<noteq> 0 then Inr (result + unat (ffz64 (addr ! p)))
                else find_clear_loop addr (p + 1) (sz - BITS_PER_UNIT) (result + BITS_PER_UNIT)
           else Inl Oob
      else if sz = 0 then Inr result
      else if p < length addr then Inr (find_clear_first (addr ! p) sz result) else Inl Oob)"

definition find_next_clear_bit :: "u64 list \<Rightarrow> nat \<Rightarrow> nat \<Rightarrow> nat res" where
  "find_next_clear_bit addr sz offset =
     (let p = BITOP_WORD offset; result = offset - offset mod BITS_PER_UNIT
      in if offset \<ge> sz then Inr sz
         else let sz = sz - result; offset = offset mod BITS_PER_UNIT
              in if offset \<noteq> 0
                 then if p < length addr
                      then let tmp = addr ! p OR drop_bit (BITS_PER_UNIT - offset) (- 1)
                           in if sz < BITS_PER_UNIT then Inr (find_clear_first tmp sz result)
                              else if NOT tmp \<noteq> 0 then Inr (result + unat (ffz64 tmp))
                              else find_clear_loop addr (p + 1) (sz - BITS_PER_UNIT) (result + BITS_PER_UNIT)
                      else Inl Oob
                 else find_clear_loop addr p sz result)"

declare find_set_loop.simps [simp del] find_clear_loop.simps [simp del]

subsection \<open>Exchange\<close>

text \<open>
  Memory is byte addressed and little endian. \<open>__xchg\<close> and \<open>__cmpxchg\<close> of the
  uniprocessor build run with interrupts off; any other sz than 1, 2, 4 or 8 is \<open>BUG()\<close>.
\<close>

definition load :: "nat \<Rightarrow> (nat \<Rightarrow> u8) \<Rightarrow> nat \<Rightarrow> u64" where
  "load n m a = foldr (\<lambda>i acc. push_bit 8 acc OR ucast (m (a + i))) [0..<n] 0"

definition store :: "nat \<Rightarrow> u64 \<Rightarrow> (nat \<Rightarrow> u8) \<Rightarrow> nat \<Rightarrow> nat \<Rightarrow> u8" where
  "store n v m a = (\<lambda>b. if a \<le> b \<and> b < a + n then ucast (drop_bit (8 * (b - a)) v) else m b)"

definition xchg :: "u64 \<Rightarrow> (nat \<Rightarrow> u8) \<Rightarrow> nat \<Rightarrow> nat \<Rightarrow> (u64 \<times> (nat \<Rightarrow> u8)) res" where
  "xchg x m ptr sz =
     (if sz \<in> {1, 2, 4, 8} then Inr (load sz m ptr, store sz x m ptr) else Inl Bug)"

definition cmpxchg :: "(nat \<Rightarrow> u8) \<Rightarrow> nat \<Rightarrow> u64 \<Rightarrow> u64 \<Rightarrow> nat \<Rightarrow> (u64 \<times> (nat \<Rightarrow> u8)) res" where
  "cmpxchg m ptr old new sz =
     (if sz \<in> {1, 2, 4, 8}
      then let ret = load sz m ptr
           in Inr (ret, if ret = old then store sz new m ptr else m)
      else Inl Bug)"

section \<open>Population count, reversal and byte swap\<close>

lemma hweight64_popcount: "unat (hweight64 x) = popcount x"
proof -
  define r3 where "r3 = (let r1 = x - (drop_bit 1 x AND 0x5555555555555555);
      r2 = (r1 AND 0x3333333333333333) + (drop_bit 2 r1 AND 0x3333333333333333)
    in (r2 + drop_bit 4 r2) AND 0x0F0F0F0F0F0F0F0F)"
  obtain bs where bs: "unat r3 = digits_val 8 bs" "length bs = 8" "\<forall>b\<in>set bs. b \<le> 8" "sum_list bs = popcount x"
    unfolding r3_def Let_def
    by (rule hweight_bytes [of 8 "0x5555555555555555::u64" "0x3333333333333333" "0x0F0F0F0F0F0F0F0F" x])
      (simp_all add: mask_numeral mask_Suc_0)
  from bs(2) obtain a b c d e f g h where l: "bs = [a, b, c, d, e, f, g, h]"
    by (auto simp: length_Suc_conv numeral_eq_Suc)
  have r4: "unat (r3 + drop_bit 8 r3) = digits_val 8 [a+b, b+c, c+d, d+e, e+f, f+g, g+h, h]"
    using unat_add_shift [OF bs(1), of 1] bs(3) by (simp add: l del: digits_val.simps)
  define r4 where "r4 = r3 + drop_bit 8 r3"
  have r5: "unat (r4 + drop_bit 16 r4) = digits_val 8 [a+b+c+d, b+c+d+e, c+d+e+f, d+e+f+g, e+f+g+h, f+g+h, g+h, h]"
    using unat_add_shift [OF r4 [folded r4_def], of 2] bs(3) by (simp add: l add.assoc del: digits_val.simps)
  define r5 where "r5 = r4 + drop_bit 16 r4"
  have "unat (r5 + drop_bit 32 r5) mod 256 = a+b+c+d+e+f+g+h"
    using unat_add_shift [OF r5 [folded r5_def], of 4] bs(3)
    by (simp add: l digits_low_byte del: digits_val.simps)
  then show ?thesis using bs(4)
    unfolding hweight64_def Let_def by (simp add: unat_low_byte l r3_def r4_def r5_def Let_def)
qed

lemma hweight32_popcount: "unat (hweight32 x) = popcount x"
proof -
  define r3 where "r3 = (let r1 = x - (drop_bit 1 x AND 0x55555555);
      r2 = (r1 AND 0x33333333) + (drop_bit 2 r1 AND 0x33333333) in (r2 + drop_bit 4 r2) AND 0x0F0F0F0F)"
  obtain bs where bs: "unat r3 = digits_val 8 bs" "length bs = 4" "\<forall>b\<in>set bs. b \<le> 8" "sum_list bs = popcount x"
    unfolding r3_def Let_def
    by (rule hweight_bytes [of 4 "0x55555555::u32" "0x33333333" "0x0F0F0F0F" x])
      (simp_all add: mask_numeral mask_Suc_0)
  from bs(2) obtain a b c d where l: "bs = [a, b, c, d]" by (auto simp: length_Suc_conv numeral_eq_Suc)
  have r4: "unat (r3 + drop_bit 8 r3) = digits_val 8 [a+b, b+c, c+d, d]"
    using unat_add_shift [OF bs(1), of 1] bs(3) by (simp add: l del: digits_val.simps)
  define r4 where "r4 = r3 + drop_bit 8 r3"
  have "unat (r4 + drop_bit 16 r4) mod 256 = a+b+c+d"
    using unat_add_shift [OF r4 [folded r4_def], of 2] bs(3)
    by (simp add: l digits_low_byte del: digits_val.simps)
  then show ?thesis using bs(4)
    unfolding hweight32_def Let_def by (simp add: unat_low_byte l r3_def r4_def Let_def)
qed

lemma hweight16_popcount: "unat (hweight16 x) = popcount x"
proof -
  define r3 where "r3 = (let r1 = x - (drop_bit 1 x AND 0x5555);
      r2 = (r1 AND 0x3333) + (drop_bit 2 r1 AND 0x3333) in (r2 + drop_bit 4 r2) AND 0x0F0F)"
  obtain bs where bs: "unat r3 = digits_val 8 bs" "length bs = 2" "\<forall>b\<in>set bs. b \<le> 8" "sum_list bs = popcount x"
    unfolding r3_def Let_def
    by (rule hweight_bytes [of 2 "0x5555::u16" "0x3333" "0x0F0F" x]) (simp_all add: mask_numeral mask_Suc_0)
  from bs(2) obtain a b where l: "bs = [a, b]" by (auto simp: length_Suc_conv numeral_eq_Suc)
  have "unat (r3 + drop_bit 8 r3) mod 256 = a + b"
    using unat_add_shift [OF bs(1), of 1] bs(3)
    by (simp add: l digits_low_byte del: digits_val.simps)
  then show ?thesis using bs(4)
    unfolding hweight16_def Let_def by (simp add: unat_low_byte l r3_def Let_def)
qed

lemma hweight8_popcount: "unat (hweight8 x) = popcount x"
proof -
  obtain bs where "unat (hweight8 x) = digits_val 8 bs" "length bs = 1" "sum_list bs = popcount x"
    unfolding hweight8_def Let_def
    by (rule hweight_bytes [of 1 "0x55::u8" "0x33" "0x0F" x]) (simp_all add: mask_numeral mask_Suc_0)
  then show ?thesis by (auto simp: length_Suc_conv)
qed

lemma all_less_numeral:
  "(\<forall>i<numeral m. P i) \<longleftrightarrow> P (pred_numeral m :: nat) \<and> (\<forall>i<pred_numeral m. P i)"
  by (auto simp add: numeral_eq_Suc less_Suc_eq all_conj_distrib)

lemma parity8_odd: "parity8 v = of_bool (odd (popcount v))"
proof -
  have all: "\<forall>n<16. (drop_bit n (0x6996 :: u32) AND 1) =
      of_bool (odd (of_bool (bit n 0) + of_bool (bit n 1) + of_bool (bit n 2) + of_bool (bit n (3::nat)) :: nat))"
    by (simp add: all_less_numeral bit_numeral_simps bit_0)
  let ?w = "v XOR drop_bit 4 v"
  have lt: "unat (?w AND 0xf) < 16"
    using take_bit_nat_less_exp [of 4 "unat ?w"] unsigned_take_bit_eq [of 4 ?w, where 'a = nat]
    by (simp add: take_bit_eq_mask mask_numeral)
  have b: "bit (unat (?w AND 0xf)) i \<longleftrightarrow> (bit v i \<noteq> bit v (i + 4)) \<and> i < 4" for i
  proof -
    have "?w AND 0xf = ?w AND mask 4" by (simp add: mask_numeral)
    then show ?thesis by (simp only:) (auto simp: bit_simps add.commute)
  qed
  have "[0..<8] = [0, 1, 2, 3, 4, 5, 6, 7::nat]" by code_simp
  then have p: "popcount v = sum_list (map (\<lambda>i. of_bool (bit v i)) [0, 1, 2, 3, 4, 5, 6, 7])"
    unfolding popcount_sum word_bits_def by (simp only: len_num1 len_bit0 mult_2_right)  simp
  show ?thesis
    unfolding parity8_def Let_def p using all [rule_format, OF lt] unfolding b
    by (simp del: of_bool_odd_eq_mod_2)
qed

lemmas push_bit_double = bit_double_iff mult.commute [of _ "2::_ word"]

lemma bitrev8_bit: "\<forall>i<8. bit (bitrev8 x) i = bit x (7 - i)"
  by (simp add: all_less_numeral bitrev8_def Let_def bit_simps push_bit_double) (simp add: numeral_2_eq_2)

lemma bitrev16_bit: "\<forall>i<16. bit (bitrev16 x) i = bit x (15 - i)"
  by (simp add: all_less_numeral bitrev16_def Let_def bit_simps push_bit_double) (simp add: numeral_2_eq_2)

lemma swap16_bit: "\<forall>i<16. bit (swap16 x) i = bit x (8 * (1 - i div 8) + i mod 8)"
  by (simp add: all_less_numeral swap16_def Let_def bit_simps) (simp add: numeral_2_eq_2)

lemma swap32_bit: "\<forall>i<32. bit (swap32 x) i = bit x (8 * (3 - i div 8) + i mod 8)"
  by (simp add: all_less_numeral swap32_def Let_def bit_simps) (simp add: numeral_2_eq_2)

lemma swap64_bit: "\<forall>i<64. bit (swap64 x) i = bit x (8 * (7 - i div 8) + i mod 8)"
  by (simp add: all_less_numeral swap64_def Let_def bit_simps) (simp add: numeral_2_eq_2)

section \<open>First and last set bit\<close>

lemma and_mask_eq_0_iff: "w AND mask n = 0 \<longleftrightarrow> (\<forall>i<n. \<not> bit w i)" for w :: "'a::len word"
  by (auto simp: bit_eq_iff [of _ 0] bit_simps possible_bit_def dest: bit_imp_le_length)

definition ffs_inv :: "'a::len word \<Rightarrow> nat \<Rightarrow> u8 \<times> 'a word \<Rightarrow> bool" where
  "ffs_inv x m = (\<lambda>(num, w). (\<forall>i<unat num. \<not> bit x i) \<and> w = drop_bit (unat num) x \<and>
     (\<exists>i<m. bit w i) \<and> unat num + m \<le> 64)"

lemma ffs_inv_init: "x \<noteq> 0 \<Longrightarrow> LENGTH('a) \<le> 64 \<Longrightarrow> m = LENGTH('a) \<Longrightarrow> ffs_inv x m (0, x)" for x :: "'a::len word"
  by (auto simp: ffs_inv_def bit_eq_iff [of x 0] dest: bit_imp_le_length)

lemma ffs_inv_step:
  assumes "ffs_inv x (2 * n) s" and "msk = mask n" and "m = n"
  shows "ffs_inv x m (ffs_step n msk s)"
proof -
  obtain num w where s: "s = (num, w)" by force
  from assms have *: "\<forall>i<unat num. \<not> bit x i" "w = drop_bit (unat num) x" "\<exists>i<n + n. bit w i"
    "unat num + (n + n) \<le> 64" by (auto simp: ffs_inv_def s mult_2)
  show ?thesis
  proof (cases "\<forall>i<n. \<not> bit w i")
    case True
    have num: "unat (num + of_nat n) = unat num + n"
      using *(4) by (simp add: unat_word_ariths unat_of_nat)
    have "\<not> bit x i" if "i < unat num + n" for i
      using *(1,2) True that by (cases "i < unat num") (auto simp: bit_drop_bit_eq dest: spec [of _ "i - unat num"])
    moreover from *(3) obtain j where "j < n + n" "bit w j" by blast
    then have "j \<ge> n" using True not_less by blast
    with \<open>j < n + n\<close> \<open>bit w j\<close> have "bit w (n + (j - n))" "j - n < n" by auto
    then have "\<exists>i<n. bit (drop_bit n w) i" unfolding bit_drop_bit_eq o_apply by blast
    ultimately show ?thesis using True *(2,4)
      by (auto simp: s assms(2,3) ffs_inv_def ffs_step_def and_mask_eq_0_iff num ac_simps)
  next
    case False
    with * show ?thesis by (auto simp: s assms(2,3) ffs_inv_def ffs_step_def and_mask_eq_0_iff)
  qed
qed

lemma ffs_inv_final:
  assumes "ffs_inv x 1 s"
  shows "bit x (unat (fst s)) \<and> (\<forall>i<unat (fst s). \<not> bit x i)"
  using assms by (cases s) (auto simp: ffs_inv_def bit_drop_bit_eq)

lemma ffs_bit:
  "x8 \<noteq> 0 \<Longrightarrow> bit x8 (unat (ffs8 x8)) \<and> (\<forall>i<unat (ffs8 x8). \<not> bit x8 i)"
  "x16 \<noteq> 0 \<Longrightarrow> bit x16 (unat (ffs16 x16)) \<and> (\<forall>i<unat (ffs16 x16). \<not> bit x16 i)"
  "x32 \<noteq> 0 \<Longrightarrow> bit x32 (unat (ffs32 x32)) \<and> (\<forall>i<unat (ffs32 x32). \<not> bit x32 i)"
  "x64 \<noteq> 0 \<Longrightarrow> bit x64 (unat (ffs64 x64)) \<and> (\<forall>i<unat (ffs64 x64). \<not> bit x64 i)"
  unfolding ffs8_def ffs16_def ffs32_def ffs64_def
  by (simp_all only: if_False)
    (intro ffs_inv_final ffs_inv_step ffs_inv_init; simp add: mask_numeral mask_Suc_0)+

lemma top_mask_eq_0_iff:
  fixes w :: "'a::len word"
  assumes "n \<le> LENGTH('a)" and "msk = NOT (mask (LENGTH('a) - n))"
  shows "w AND msk = 0 \<longleftrightarrow> unat w < 2 ^ (LENGTH('a) - n)"
proof -
  have "w AND msk = 0 \<longleftrightarrow> take_bit (LENGTH('a) - n) w = w"
    unfolding assms(2) take_bit_eq_mask
    by (auto simp: bit_eq_iff bit_simps possible_bit_def)
  also have "\<dots> \<longleftrightarrow> unat w < 2 ^ (LENGTH('a) - n)"
    unfolding word_unat_eq_iff unsigned_take_bit_eq by (simp add: take_bit_nat_eq_self_iff)
  finally show ?thesis .
qed

definition fls_inv :: "'a::len word \<Rightarrow> nat \<Rightarrow> u8 \<times> 'a word \<Rightarrow> bool" where
  "fls_inv x m = (\<lambda>(num, w). unat w = unat x * 2 ^ (LENGTH('a) - 1 - unat num) \<and>
     2 ^ (LENGTH('a) - m) \<le> unat w \<and> m \<le> Suc (unat num) \<and> unat num < LENGTH('a))"

lemma fls_inv_init: "x \<noteq> 0 \<Longrightarrow> unat num = LENGTH('a) - 1 \<Longrightarrow> m = LENGTH('a) \<Longrightarrow> fls_inv x m (num, x)" for x :: "'a::len word"
  by (simp add: fls_inv_def Suc_le_eq unat_gt_0)

lemma fls_inv_step:
  fixes x :: "'a::len word"
  assumes "fls_inv x (2 * n) s" and "msk = NOT (mask (LENGTH('a) - n))" and "m = n"
  shows "fls_inv x m (fls_step n msk s)"
proof -
  obtain num w where s: "s = (num, w)" by force
  from assms have w: "unat w = unat x * 2 ^ (LENGTH('a) - 1 - unat num)"
    and low: "2 ^ (LENGTH('a) - (n + n)) \<le> unat w"
    and num: "n + n \<le> Suc (unat num)" "unat num < LENGTH('a)" by (auto simp: fls_inv_def s mult_2)
  have n: "n \<le> LENGTH('a)" using num by linarith
  have le: "of_nat n \<le> num" "unat (of_nat n :: u8) = n" if "n > 0"
    using num that unsigned_less [of num, where 'a = nat] by (auto simp: word_le_nat_alt unat_of_nat)
  show ?thesis
  proof (cases "unat w < 2 ^ (LENGTH('a) - n)")
    case True
    have n0: "n > 0" using low unsigned_less [of w, where 'a = nat] by (cases n) auto
    have "unat w * 2 ^ n < 2 ^ (LENGTH('a) - n) * 2 ^ n" using True by simp
    also have "\<dots> = 2 ^ LENGTH('a)" using n by (simp flip: power_add)
    finally have "unat (push_bit n w) = unat w * 2 ^ n"
      unfolding unsigned_push_bit_eq by (simp add: take_bit_nat_eq_self push_bit_eq_mult)
    moreover have "2 ^ (LENGTH('a) - (n + n)) * 2 ^ n \<le> unat w * 2 ^ n" using low by simp
    moreover have "LENGTH('a) - (n + n) + n = LENGTH('a) - n" using num by simp
    moreover have "LENGTH('a) - 1 - unat num + n = LENGTH('a) - 1 - (unat num - n)" using num n0 by simp
    moreover have "unat (num - of_nat n) = unat num - n" using le [OF n0] by (simp add: unat_sub)
    ultimately show ?thesis using True num w
      by (simp add: s assms(3) fls_inv_def fls_step_def top_mask_eq_0_iff [OF n assms(2)] mult.assoc flip: power_add) linarith
  next
    case False
    with w num show ?thesis by (simp add: s assms(3) fls_inv_def fls_step_def top_mask_eq_0_iff [OF n assms(2)])
  qed
qed

lemma fls_inv_final:
  assumes "fls_inv x 1 s"
  shows "2 ^ unat (fst s) \<le> unat x \<and> unat x < 2 ^ Suc (unat (fst s))"
proof -
  obtain num w where s: "s = (num, w)" by force
  let ?k = "LENGTH('a) - 1 - unat num"
  from assms have w: "unat w = unat x * 2 ^ ?k" and low: "2 ^ (LENGTH('a) - 1) \<le> unat x * 2 ^ ?k"
    and num: "unat num < LENGTH('a)" by (auto simp: fls_inv_def s)
  from num have e: "LENGTH('a) - 1 = unat num + ?k" "LENGTH('a) = Suc (unat num) + ?k" by linarith+
  have "unat x * 2 ^ ?k < 2 ^ (Suc (unat num) + ?k)" using unsigned_less [of w, where 'a = nat] unfolding w e(2) [symmetric] .
  moreover have "2 ^ (unat num + ?k) \<le> unat x * 2 ^ ?k" using low unfolding e(1) [symmetric] .
  ultimately show ?thesis unfolding power_add by (simp add: s)
qed

lemma fls_range:
  "x8 \<noteq> 0 \<Longrightarrow> 2 ^ unat (fls8 x8) \<le> unat x8 \<and> unat x8 < 2 ^ Suc (unat (fls8 x8))"
  "x16 \<noteq> 0 \<Longrightarrow> 2 ^ unat (fls16 x16) \<le> unat x16 \<and> unat x16 < 2 ^ Suc (unat (fls16 x16))"
  "x32 \<noteq> 0 \<Longrightarrow> 2 ^ unat (fls32 x32) \<le> unat x32 \<and> unat x32 < 2 ^ Suc (unat (fls32 x32))"
  "x64 \<noteq> 0 \<Longrightarrow> 2 ^ unat (fls64 x64) \<le> unat x64 \<and> unat x64 < 2 ^ Suc (unat (fls64 x64))"
  unfolding fls8_def fls16_def fls32_def fls64_def
  by (simp_all only: if_False)
    (intro fls_inv_final fls_inv_step fls_inv_init; simp add: mask_numeral mask_Suc_0)+

section \<open>Bitmaps, alignment, exchange\<close>

definition bm_test :: "u64 list \<Rightarrow> nat \<Rightarrow> bool" where
  "bm_test addr nr \<longleftrightarrow> nr < 64 * length addr \<and> bit (addr ! (nr div 64)) (nr mod 64)"

text \<open>\<open>r\<close> is the first number from \<open>offset\<close> on with \<open>P\<close>, or \<open>sz\<close> when there is none below \<open>sz\<close>.\<close>

definition next_in :: "(nat \<Rightarrow> bool) \<Rightarrow> nat \<Rightarrow> nat \<Rightarrow> nat \<Rightarrow> bool" where
  "next_in P sz offset r \<longleftrightarrow> offset \<le> r \<and> r \<le> sz \<and> (r < sz \<longrightarrow> P r) \<and> (\<forall>j. offset \<le> j \<and> j < r \<longrightarrow> \<not> P j)"

lemma bm_test_unit:
  assumes "p < length addr" "i < 64"
  shows "bm_test addr (64 * p + i) \<longleftrightarrow> bit (addr ! p) i"
  using assms by (auto simp: bm_test_def)

lemma next_in_skip:
  assumes "next_in P sz m r" "offset \<le> m" "\<forall>j. offset \<le> j \<and> j < m \<longrightarrow> \<not> P j"
  shows "next_in P sz offset r"
  using assms unfolding next_in_def by (meson le_less_linear le_trans)

lemma ffs64_less: "x \<noteq> 0 \<Longrightarrow> unat (ffs64 x) < 64"
  using ffs_bit(4) [of x] bit_imp_le_length [of x] by auto

lemma ones_drop: "sz \<le> 64 \<Longrightarrow> drop_bit (64 - sz) (- 1 :: u64) = mask sz"
  by (rule bit_word_eqI) (auto simp: bit_simps)

lemma next_in_unit:
  assumes p: "p < length addr" and tmp: "tmp \<noteq> 0" "64 * p + unat (ffs64 tmp) < sz" "o' \<le> unat (ffs64 tmp)"
    and eq: "\<And>i. o' \<le> i \<Longrightarrow> i \<le> unat (ffs64 tmp) \<Longrightarrow> bit tmp i = bit (addr ! p) i"
  shows "next_in (bm_test addr) sz (64 * p + o') (64 * p + unat (ffs64 tmp))"
proof -
  have "\<not> bm_test addr j" if "64 * p + o' \<le> j" "j < 64 * p + unat (ffs64 tmp)" for j
  proof -
    define i where "i = j - 64 * p"
    with that have j: "j = 64 * p + i" "o' \<le> i" "i < unat (ffs64 tmp)" by auto
    with ffs_bit(4) [OF tmp(1)] eq [of i] ffs64_less [OF tmp(1)] show ?thesis
      by (simp add: bm_test_unit [OF p])
  qed
  moreover have "bm_test addr (64 * p + unat (ffs64 tmp))"
    using ffs_bit(4) [OF tmp(1)] eq [OF tmp(3) order_refl] by (simp add: bm_test_unit [OF p ffs64_less [OF tmp(1)]])
  ultimately show ?thesis using tmp by (auto simp: next_in_def)
qed

lemma unit_clear:
  assumes "p < length addr" "\<And>i. o' \<le> i \<Longrightarrow> i < n \<Longrightarrow> \<not> bit (addr ! p) i" "n \<le> 64" "64 * p + o' \<le> j" "j < 64 * p + n"
  shows "\<not> bm_test addr j"
proof -
  define i where "i = j - 64 * p"
  with assms(4,5) have "j = 64 * p + i" "o' \<le> i" "i < n" by auto
  with assms show ?thesis by (simp add: bm_test_unit)
qed

lemma find_set_first_next:
  assumes p: "p < length addr" and sz: "o' < sz" "sz < 64"
    and tmp: "tmp = addr ! p AND push_bit o' (- 1)"
  shows "next_in (bm_test addr) (64 * p + sz) (64 * p + o') (find_set_first tmp sz (64 * p))"
proof -
  let ?t = "tmp AND mask sz"
  have bits: "bit ?t i \<longleftrightarrow> o' \<le> i \<and> i < sz \<and> bit (addr ! p) i" for i
    using sz by (auto simp: tmp bit_simps)
  show ?thesis
  proof (cases "?t = 0")
    case True
    then have "\<not> bit (addr ! p) i" if "o' \<le> i" "i < sz" for i using bits [of i] that by simp
    then have "\<not> bm_test addr j" if "64 * p + o' \<le> j" "j < 64 * p + sz" for j
      using unit_clear [OF p, of o' sz j] that sz by auto
    then show ?thesis using True sz by (auto simp: find_set_first_def ones_drop next_in_def)
  next
    case False
    then have "bit ?t (unat (ffs64 ?t))" using ffs_bit(4) by blast
    then have "o' \<le> unat (ffs64 ?t)" "unat (ffs64 ?t) < sz" by (simp_all add: bits)
    with False sz show ?thesis
      using next_in_unit [OF p False, of "64 * p + sz" o'] by (simp add: find_set_first_def ones_drop bits)
  qed
qed

lemma unit_set_next:
  assumes p: "p < length addr" and sz: "o' < 64" "64 * p + 64 \<le> sz"
    and tmp: "tmp = addr ! p AND push_bit o' (- 1)"
  shows "tmp \<noteq> 0 \<Longrightarrow> next_in (bm_test addr) sz (64 * p + o') (64 * p + unat (ffs64 tmp))"
    and "tmp = 0 \<Longrightarrow> next_in (bm_test addr) sz (64 * p + 64) r \<Longrightarrow> next_in (bm_test addr) sz (64 * p + o') r"
proof -
  have bits: "bit tmp i \<longleftrightarrow> o' \<le> i \<and> bit (addr ! p) i" for i
    using sz bit_imp_le_length [of "addr ! p" i] by (auto simp: tmp bit_simps)
  {
    assume nz: "tmp \<noteq> 0"
    then have "o' \<le> unat (ffs64 tmp)" using ffs_bit(4) [of tmp] by (simp add: bits)
    with nz sz show "next_in (bm_test addr) sz (64 * p + o') (64 * p + unat (ffs64 tmp))"
      using ffs64_less [OF nz] by (intro next_in_unit [OF p]) (auto simp: bits)
  next
    assume "tmp = 0" and r: "next_in (bm_test addr) sz (64 * p + 64) r"
    then have "\<not> bit (addr ! p) i" if "o' \<le> i" for i using bits [of i] that by simp
    then have "\<not> bm_test addr j" if "64 * p + o' \<le> j" "j < 64 * p + 64" for j
      using unit_clear [OF p, of o' 64 j] that by auto
    then show "next_in (bm_test addr) sz (64 * p + o') r"
      using sz by (intro next_in_skip [OF r]) auto
  }
qed

lemma find_set_loop_next:
  assumes "result = 64 * p" "result + sz \<le> 64 * length addr"
  shows "\<exists>r. find_set_loop addr p sz result = Inr r \<and> next_in (bm_test addr) (result + sz) result r"
  using assms
proof (induction addr p sz result rule: find_set_loop.induct)
  case (1 addr p sz result)
  have ones: "push_bit 0 (- 1 :: u64) = - 1" by simp
  consider (full) "sz \<ge> 64" | (none) "sz = 0" | (part) "0 < sz" "sz < 64" by linarith
  then show ?case
  proof cases
    case full
    then have p: "p < length addr" using "1.prems" by linarith
    show ?thesis
    proof (cases "addr ! p = 0")
      case True
      from "1.IH" [OF full p] True "1.prems" full obtain r where
        "find_set_loop addr (p + 1) (sz - 64) (result + 64) = Inr r"
        "next_in (bm_test addr) (result + sz) (64 * p + 64) r" by auto
      then show ?thesis using full p True "1.prems" unit_set_next(2) [OF p, of 0 "result + sz" 0 r]
        by (simp add: find_set_loop.simps [of addr p sz])
    next
      case False
      then show ?thesis using full p "1.prems" unit_set_next(1) [OF p, of 0 "result + sz" "addr ! p"]
        by (simp add: find_set_loop.simps [of addr p sz])
    qed
  next
    case none
    then show ?thesis by (auto simp: find_set_loop.simps [of addr p 0] next_in_def)
  next
    case part
    then have "p < length addr" using "1.prems" by linarith
    then show ?thesis using part "1.prems" find_set_first_next [of p addr 0 sz "addr ! p"]
      by (simp add: find_set_loop.simps [of addr p sz])
  qed
qed

lemma find_next_set_bit_next:
  assumes "sz \<le> 64 * length addr" "offset \<le> sz"
  shows "\<exists>r. find_next_set_bit addr sz offset = Inr r \<and> next_in (bm_test addr) sz offset r"
proof (cases "offset = sz")
  case True
  then show ?thesis by (auto simp: find_next_set_bit_def next_in_def)
next
  case False
  define p o' where "p = offset div 64" and "o' = offset mod 64"
  have off: "offset = 64 * p + o'" "o' < 64" "offset - offset mod 64 = 64 * p"
    by (auto simp: p_def o'_def minus_mod_eq_mult_div)
  have p: "p < length addr" using assms False off by linarith
  note loop = find_set_loop_next [of "64 * p" p "sz - 64 * p" addr]
    find_set_loop_next [of "64 * p + 64" "p + 1" "sz - (64 * p + 64)" addr]
  let ?t = "addr ! p AND push_bit o' (- 1)"
  consider "o' = 0" | "0 < o'" "sz - 64 * p < 64" | "0 < o'" "sz - 64 * p \<ge> 64" "?t \<noteq> 0"
    | "0 < o'" "sz - 64 * p \<ge> 64" "?t = 0" by force
  then show ?thesis
  proof cases
    case 1
    then show ?thesis using loop(1) assms False off(1)
      by (auto simp: find_next_set_bit_def Let_def off BITOP_WORD_def)
  next
    case 2
    then show ?thesis using find_set_first_next [OF p, of o' "sz - 64 * p" ?t] assms False off p
      by (auto simp: find_next_set_bit_def Let_def p_def [symmetric] o'_def [symmetric] BITOP_WORD_def)
  next
    case 3
    then show ?thesis using unit_set_next(1) [OF p off(2) _ refl, of sz] assms False off p
      by (auto simp: find_next_set_bit_def Let_def p_def [symmetric] o'_def [symmetric] BITOP_WORD_def)
  next
    case 4
    then show ?thesis using unit_set_next(2) [OF p off(2) _ refl, of sz] loop(2) assms False off p
      by (auto simp: find_next_set_bit_def Let_def p_def [symmetric] o'_def [symmetric] BITOP_WORD_def)
  qed
qed

lemma not_eq_iff: "NOT a = 0 \<longleftrightarrow> a = - 1" for a :: u64
  by (metis bit.double_compl bit.compl_zero)

lemma find_clear_first_set: "sz \<le> 64 \<Longrightarrow> find_clear_first tmp sz result = find_set_first (NOT tmp) sz result"
proof -
  assume "sz \<le> 64"
  then have "NOT (tmp OR push_bit sz (- 1)) = NOT tmp AND drop_bit (64 - sz) (- 1)"
    by (simp add: ones_drop)
  then show ?thesis unfolding find_clear_first_def find_set_first_def Let_def ffz64_def
    by (simp only: not_eq_iff [symmetric])
qed

lemma find_clear_loop_set: "find_clear_loop addr p sz result = find_set_loop (map NOT addr) p sz result"
proof (induction addr p sz result rule: find_clear_loop.induct)
  case (1 addr p sz result)
  then show ?case
    by (subst find_clear_loop.simps, subst find_set_loop.simps)
      (auto simp: find_clear_first_set ffz64_def)
qed

lemma find_next_clear_bit_set: "find_next_clear_bit addr sz offset = find_next_set_bit (map NOT addr) sz offset"
proof -
  have "NOT (a OR drop_bit (64 - o') (- 1)) = NOT a AND push_bit o' (- 1)" if "o' < 64" for a :: u64 and o'
    using that by (simp add: ones_drop)
  then show ?thesis
    unfolding find_next_clear_bit_def find_next_set_bit_def Let_def
    by (auto simp: find_clear_loop_set find_clear_first_set ffz64_def BITOP_WORD_def)
qed

lemma bm_test_map_not: "nr < 64 * length addr \<Longrightarrow> bm_test (map NOT addr) nr = (\<not> bm_test addr nr)"
  by (auto simp: bm_test_def bit_simps)

lemma next_in_cong:
  assumes "\<And>j. j < sz \<Longrightarrow> P j = Q j"
  shows "next_in P sz offset r = next_in Q sz offset r"
  using assms unfolding next_in_def by (metis order_less_le_trans)

lemma find_next_clear_bit_next:
  assumes "sz \<le> 64 * length addr" "offset \<le> sz"
  shows "\<exists>r. find_next_clear_bit addr sz offset = Inr r \<and> next_in (\<lambda>n. \<not> bm_test addr n) sz offset r"
proof -
  have "next_in (bm_test (map NOT addr)) sz offset r = next_in (\<lambda>n. \<not> bm_test addr n) sz offset r" for r
    using assms(1) by (intro next_in_cong bm_test_map_not) linarith
  then show ?thesis
    using find_next_set_bit_next [of sz "map NOT addr" offset] assms by (simp add: find_next_clear_bit_set)
qed

lemma bit_mask_unit: "bit (BITOP_MASK nr) i \<longleftrightarrow> i = nr mod 64"
  by (auto simp: BITOP_MASK_def bit_simps)

lemma and_mask_unit: "w AND BITOP_MASK nr \<noteq> 0 \<longleftrightarrow> bit w (nr mod 64)"
  by (auto simp: BITOP_MASK_def push_bit_eq_mult and_exp_eq_0_iff_not_bit)

lemma div_mod_eq: "a = b \<longleftrightarrow> a div n = b div n \<and> a mod n = b mod n" for a b n :: nat
  by (metis div_mult_mod_eq)

lemma set_bit_op_ok:
  assumes "nr < 64 * length addr"
  shows "\<exists>addr'. set_bit_op nr addr = Inr addr' \<and> length addr' = length addr \<and>
    bm_test addr' = (bm_test addr)(nr := True)"
proof -
  have p: "nr div 64 < length addr" using assms by (simp add: less_mult_imp_div_less mult.commute)
  have "x < 64 * length addr" if "x div 64 = nr div 64" for x
    using p by (metis that less_mult_imp_div_less div_less_iff_less_mult mult.commute zero_less_numeral)
  then show ?thesis using p assms
    by (auto simp: set_bit_op_def Let_def BITOP_WORD_def fun_eq_iff bm_test_def
      nth_list_update bit_simps bit_mask_unit div_mod_eq [of _ nr 64])
qed

lemma clear_bit_ok:
  assumes "nr < 64 * length addr"
  shows "\<exists>addr'. clear_bit nr addr = Inr addr' \<and> length addr' = length addr \<and>
    bm_test addr' = (bm_test addr)(nr := False)"
proof -
  have p: "nr div 64 < length addr" using assms by (simp add: less_mult_imp_div_less mult.commute)
  have "x < 64 * length addr" if "x div 64 = nr div 64" for x
    using p by (metis that less_mult_imp_div_less div_less_iff_less_mult mult.commute zero_less_numeral)
  then show ?thesis using p assms
    by (auto simp: clear_bit_def Let_def BITOP_WORD_def fun_eq_iff bm_test_def
      nth_list_update bit_simps bit_mask_unit div_mod_eq [of _ nr 64])
qed

lemma test_and_set_bit_ok:
  assumes "nr < 64 * length addr"
  shows "test_and_set_bit nr addr = map_sum id (Pair (bm_test addr nr)) (set_bit_op nr addr)"
  using assms less_mult_imp_div_less [of nr "length addr" 64]
  by (simp add: test_and_set_bit_def set_bit_op_def Let_def BITOP_WORD_def and_mask_unit bm_test_def mult.commute)

lemma test_and_clear_bit_ok:
  assumes "nr < 64 * length addr"
  shows "test_and_clear_bit nr addr = map_sum id (Pair (bm_test addr nr)) (clear_bit nr addr)"
  using assms less_mult_imp_div_less [of nr "length addr" 64]
  by (simp add: test_and_clear_bit_def clear_bit_def Let_def BITOP_WORD_def and_mask_unit bm_test_def mult.commute)

lemma test_bit_ok: "nr < 64 * length addr \<Longrightarrow> test_bit nr addr = Inr (bm_test addr nr)"
  by (auto simp: test_bit_def BITOP_WORD_def less_mult_imp_div_less mult.commute bm_test_def
    and.commute [of 1] and_exp_eq_0_iff_not_bit [where n = 0, simplified] bit_simps)

lemma fls_bit:
  fixes x :: "'a::len word"
  assumes "2 ^ n \<le> unat x" "unat x < 2 ^ Suc n"
  shows "bit x n" and "\<And>i. n < i \<Longrightarrow> \<not> bit x i"
proof -
  have "unat x div 2 ^ n = 1" using assms by (intro div_nat_eqI) auto
  then have "bit (unat x) n" by (simp add: bit_iff_odd)
  then show "bit x n" by (simp add: bit_unsigned_iff)
  fix i assume "n < i"
  have "(2::nat) ^ Suc n \<le> 2 ^ i" using \<open>n < i\<close> by (intro power_increasing) auto
  then have "unat x div 2 ^ i = 0" using assms(2) by simp
  then have "\<not> bit (unat x) i" by (simp add: bit_iff_odd)
  then show "\<not> bit x i" by (auto simp: bit_unsigned_iff dest: bit_imp_le_length)
qed

lemma find_rev_upt:
  assumes "k < n" "P k" "\<And>i. k < i \<Longrightarrow> i < n \<Longrightarrow> \<not> P i"
  shows "find P (rev [0..<n]) = Some k"
  using assms by (induction n) (auto simp: less_Suc_eq)

lemma ilog2_const_fls64:
  assumes "x \<noteq> 0"
  shows "ilog2_const x = Some (unat (fls64 x))"
proof -
  note r = fls_range(4) [OF assms]
  have "unat (fls64 x) < 64" using fls_bit(1) [of "unat (fls64 x)" x] r bit_imp_le_length [of x] by auto
  moreover have "x AND push_bit i 1 \<noteq> 0 \<longleftrightarrow> bit x i" for i
    by (simp add: push_bit_eq_mult and_exp_eq_0_iff_not_bit)
  ultimately show ?thesis
    using fls_bit [of "unat (fls64 x)" x] r assms find_rev_upt [of "unat (fls64 x)" 64 "bit x"]
    by (simp add: ilog2_const_def word_less_1)
qed

lemma unat_exp: "k < LENGTH('a) \<Longrightarrow> unat (2 ^ k :: 'a::len word) = 2 ^ k"
  using unat_of_nat [of "2 ^ k", where 'a = 'a] by simp

lemma is_power_of_2_iff: "is_power_of_2 n \<longleftrightarrow> (\<exists>k<LENGTH('a). n = 2 ^ k)" for n :: "'a::len word"
proof
  assume "is_power_of_2 n"
  then have n: "n \<noteq> 0" "n AND (n - 1) = 0" by (auto simp: is_power_of_2_def)
  from n(1) obtain k where k: "2 ^ k \<le> unat n" "unat n < 2 ^ Suc k"
    using ex_power_ivl1 [of 2 "unat n"] by (auto simp: Suc_le_eq unat_gt_0)
  have "bit n k" by (rule fls_bit(1) [OF k])
  then have kl: "k < LENGTH('a)" by (rule bit_imp_le_length)
  have n1: "unat (n - 1) = unat n - 1" using n(1) by (simp add: unat_minus_one)
  have "unat n = 2 ^ k"
  proof (rule ccontr)
    assume "unat n \<noteq> 2 ^ k"
    then have "bit (n - 1) k" using k n1 by (intro fls_bit(1)) auto
    with \<open>bit n k\<close> n(2) show False by (metis bit_and_iff bit_0_eq bot_apply bot_bool_def)
  qed
  then have "n = 2 ^ k" using kl by (simp add: word_unat_eq_iff unat_exp)
  with kl show "\<exists>k<LENGTH('a). n = 2 ^ k" by blast
next
  assume "\<exists>k<LENGTH('a). n = 2 ^ k"
  then obtain k where "k < LENGTH('a)" "n = 2 ^ k" by blast
  then show "is_power_of_2 n"
    by (auto simp: is_power_of_2_def bit_eq_iff [of _ 0] bit_simps simp flip: mask_eq_exp_minus_1)
qed

lemma ALIGN_DOWN_eq: "ALIGN_DOWN x a = round_down x a"
  by (simp add: ALIGN_DOWN_def align_mask_def round_down_def)

lemma round_down_minus: "round_down x (2 ^ k) = x - take_bit k x"
proof -
  have "x - (x AND mask k) = x AND NOT (x AND mask k)"
    by (rule disjunctive_diff_eq_and_not) (simp add: bit_eq_iff [of _ 0] bit_simps)
  also have "\<dots> = x AND NOT (mask k)" by (rule bit_word_eqI) (auto simp: bit_simps)
  finally show ?thesis by (simp add: round_down_def take_bit_eq_mask mask_eq_exp_minus_1 [symmetric])
qed

lemma round_down_unat: "unat (round_down x (2 ^ k)) = unat x - unat x mod 2 ^ k" for x :: "'a::len word"
proof -
  have t: "unat (take_bit k x) = unat x mod 2 ^ k" unfolding unsigned_take_bit_eq by (simp add: take_bit_eq_mod)
  moreover have "take_bit k x \<le> x" by (simp only: word_le_nat_alt t mod_less_eq_dividend)
  ultimately show ?thesis unfolding round_down_minus by (simp only: unat_sub)
qed

lemma ALIGN_UP_eq: "ALIGN_UP x (2 ^ k) = round_down (x + mask k) (2 ^ k)"
  by (simp add: ALIGN_UP_def align_mask_def round_down_def mask_eq_exp_minus_1)

lemma unat_mask: "k < LENGTH('a) \<Longrightarrow> unat (mask k :: 'a::len word) = 2 ^ k - 1"
  by (simp add: mask_eq_exp_minus_1 unat_minus_one unat_exp)

lemma ALIGN_UP_unat:
  fixes x :: "'a::len word"
  assumes "k < LENGTH('a)" "unat x + 2 ^ k - 1 < 2 ^ LENGTH('a)"
  shows "unat (ALIGN_UP x (2 ^ k)) = 2 ^ k * ((unat x + 2 ^ k - 1) div 2 ^ k)"
proof -
  have "unat (x + mask k) = unat x + 2 ^ k - 1"
    using assms by (simp add: unat_word_ariths unat_mask)
  then show ?thesis by (simp add: ALIGN_UP_eq round_down_unat minus_mod_eq_mult_div)
qed

lemma take_bit_add_exp: "take_bit k (x + 2 ^ k) = take_bit k x" for x :: "'a::len word"
proof (cases "k < LENGTH('a)")
  case True
  then have "unat (x + 2 ^ k) mod 2 ^ k = unat x mod 2 ^ k"
    by (simp add: unat_word_ariths unat_exp mod_mod_cancel le_imp_power_dvd)
  then show ?thesis unfolding word_unat_eq_iff unsigned_take_bit_eq by (simp add: take_bit_eq_mod)
next
  case False
  then have "(2 :: 'a word) ^ k = 0" by simp
  then show ?thesis by (simp only: add_0_right)
qed

lemma round_up_ALIGN_UP: "round_up x (2 ^ k) = ALIGN_UP x (2 ^ k)" for x :: "'a::len word"
proof -
  have "(x - 1) OR mask k = ((x - 1) AND NOT (mask k)) OR mask k"
    by (rule bit_word_eqI) (auto simp: bit_simps)
  also have "\<dots> = ((x - 1) AND NOT (mask k)) + mask k"
    by (rule disjunctive_add [symmetric]) (auto simp: bit_simps)
  finally have "round_up x (2 ^ k) = round_down (x - 1) (2 ^ k) + 2 ^ k"
    by (simp add: round_up_def round_down_def mask_eq_exp_minus_1)
  also have "\<dots> = x - 1 + 2 ^ k - take_bit k (x - 1 + 2 ^ k)"
  proof -
    have "take_bit k (x - 1 + 2 ^ k) = take_bit k (x - 1)"
      by (rule take_bit_add_exp)
    then show ?thesis unfolding round_down_minus by (simp only: diff_add_eq)
  qed
  also have "\<dots> = ALIGN_UP x (2 ^ k)"
    by (simp only: ALIGN_UP_eq round_down_minus mask_eq_exp_minus_1 diff_add_eq add_diff_eq)
  finally show ?thesis .
qed

lemma load_Suc: "load (Suc n) m a = push_bit 8 (load n m (Suc a)) OR ucast (m a)"
  unfolding load_def by (simp add: upt_conv_Cons foldr_map o_def map_Suc_upt [symmetric] del: upt_Suc)

lemma bit_load: "bit (load n m a) i \<longleftrightarrow> i < 64 \<and> i < 8 * n \<and> bit (m (a + i div 8)) (i mod 8)"
proof (induction n arbitrary: a i)
  case 0
  then show ?case by (simp add: load_def)
next
  case (Suc n)
  show ?case
  proof (cases "i < 8")
    case True
    then show ?thesis by (simp add: load_Suc bit_simps)
  next
    case False
    then have "i div 8 = Suc ((i - 8) div 8)" "i mod 8 = (i - 8) mod 8" by (simp_all add: le_div_geq le_mod_geq)
    then show ?thesis using False Suc bit_imp_le_length [of "m a" i] by (auto simp: load_Suc bit_simps)
  qed
qed

lemma load_store: "n \<le> 8 \<Longrightarrow> load n (store n v m a) a = take_bit (8 * n) v"
  by (rule bit_word_eqI) (auto simp: bit_load store_def bit_simps less_mult_imp_div_less mult.commute)

lemma roundup32_pow:
  assumes "1 < unat n" "unat n \<le> 2 ^ 31"
  obtains j where "unat (roundup32 n) = 2 ^ j" "unat n \<le> 2 ^ j" "2 ^ j < 2 * unat n"
proof -
  have n1: "unat (n - 1) = unat n - 1" "n - 1 \<noteq> 0"
    using assms(1) by (auto simp: unat_minus_one unat_gt_0 [symmetric])
  from fls_range(3) [OF n1(2)] have r: "2 ^ unat (fls32 (n - 1)) \<le> unat n - 1" "unat n - 1 < 2 ^ Suc (unat (fls32 (n - 1)))"
    by (auto simp: n1)
  from r(1) assms have "(2::nat) ^ unat (fls32 (n - 1)) < 2 ^ 31" by linarith
  then have "unat (fls32 (n - 1)) < 31" by (rule power_less_imp_less_exp [rotated]) simp
  then have "unat (fls32 (n - 1)) + 1 < 32" by simp
  then have "unat (roundup32 n) = 2 ^ (unat (fls32 (n - 1)) + 1)"
    unfolding roundup32_def push_bit_eq_mult mult_1 by (intro unat_exp) simp
  with r assms(1) show ?thesis by (intro that [of "unat (fls32 (n - 1)) + 1"]) auto
qed

section \<open>The bitmap interface\<close>

text \<open>
  What the users of a bitmap (bottom halves, timers, message interrupts) rely on: \<open>bits\<close> is the
  abstract content, \<open>cap\<close> the number of bits the storage has.
\<close>

locale bitmap =
  fixes bits :: "'m \<Rightarrow> nat \<Rightarrow> bool" and cap :: "'m \<Rightarrow> nat"
    and set_op clear_op :: "nat \<Rightarrow> 'm \<Rightarrow> 'm res"
    and next_set next_clear :: "'m \<Rightarrow> nat \<Rightarrow> nat \<Rightarrow> nat res"
  assumes set_ok: "nr < cap m \<Longrightarrow>
      \<exists>m'. set_op nr m = Inr m' \<and> cap m' = cap m \<and> bits m' = (bits m)(nr := True)"
    and clear_ok: "nr < cap m \<Longrightarrow>
      \<exists>m'. clear_op nr m = Inr m' \<and> cap m' = cap m \<and> bits m' = (bits m)(nr := False)"
    and next_set_ok: "sz \<le> cap m \<Longrightarrow> offset \<le> sz \<Longrightarrow>
      \<exists>r. next_set m sz offset = Inr r \<and> next_in (bits m) sz offset r"
    and next_clear_ok: "sz \<le> cap m \<Longrightarrow> offset \<le> sz \<Longrightarrow>
      \<exists>r. next_clear m sz offset = Inr r \<and> next_in (\<lambda>n. \<not> bits m n) sz offset r"
begin

lemma alloc_first:
  assumes "sz \<le> cap m"
  obtains (full) "next_clear m sz 0 = Inr sz" "\<forall>n < sz. bits m n"
    | (free) r m' where "next_clear m sz 0 = Inr r" "r < sz" "\<not> bits m r" "\<forall>n<r. bits m n"
        "set_op r m = Inr m'" "cap m' = cap m" "bits m' = (bits m)(r := True)"
proof -
  obtain r where r: "next_clear m sz 0 = Inr r" "next_in (\<lambda>n. \<not> bits m n) sz 0 r"
    using next_clear_ok [OF assms] by blast
  show ?thesis
  proof (cases "r < sz")
    case True
    then have "r < cap m" using assms by simp
    then obtain m' where "set_op r m = Inr m'" "cap m' = cap m" "bits m' = (bits m)(r := True)"
      using set_ok by blast
    then show ?thesis using free [OF r(1) True] r(2) True by (simp add: next_in_def)
  next
    case False
    then show ?thesis using full r by (auto simp: next_in_def)
  qed
qed

lemma round_robin:
  assumes "sz \<le> cap m" "offset \<le> sz"
  shows "\<exists>r. bindR (next_set m sz offset) (\<lambda>b. if b < sz then Inr b else next_set m sz 0) = Inr r \<and>
    (if \<exists>n < sz. bits m n then r < sz \<and> bits m r else r = sz)"
proof -
  obtain r where r: "next_set m sz offset = Inr r" "next_in (bits m) sz offset r"
    using next_set_ok [OF assms] by blast
  obtain r0 where r0: "next_set m sz 0 = Inr r0" "next_in (bits m) sz 0 r0"
    using next_set_ok [OF assms(1), of 0] by blast
  show ?thesis
  proof (cases "r < sz")
    case True
    then show ?thesis using r by (auto simp: next_in_def)
  next
    case False
    then show ?thesis using r(1) r0 by (cases "r0 < sz") (auto simp: next_in_def)
  qed
qed

end

interpretation bm: bitmap bm_test "\<lambda>addr. 64 * length addr" set_bit_op clear_bit
  find_next_set_bit find_next_clear_bit
  by unfold_locales
    (use set_bit_op_ok clear_bit_ok find_next_set_bit_next find_next_clear_bit_next in \<open>fastforce+\<close>)

section \<open>Properties\<close>

text \<open>
  The population counts of all four widths return the number of set bits, and
  \<open>parity8\<close> its parity.
\<close>

theorem hweight_exact:
  "unat (hweight8 a) = card {i. bit a i} \<and> unat (hweight16 b) = card {i. bit b i} \<and>
   unat (hweight32 c) = card {i. bit c i} \<and> unat (hweight64 d) = card {i. bit d i} \<and>
   parity8 a = of_bool (odd (card {i. bit a i}))"
  using hweight8_popcount [of a] hweight16_popcount [of b] hweight32_popcount [of c]
    hweight64_popcount [of d] parity8_odd [of a]
  by (simp add: popcount_def)

text \<open>
  The binary searches for the first and the last set bit agree with their specification at
  64 bits, zero included, and \<open>ilog2_const\<close> selects the same bit as \<open>__fls64\<close>.
\<close>

theorem ffs_fls_exact:
  "unat (ffs64 x) = (if x = 0 then 0 else LEAST n. bit x n) \<and>
   unat (fls64 x) = (if x = 0 then 0 else Max {n. bit x n}) \<and>
   ilog2_const x = (if x = 0 then None else Some (Max {n. bit x n}))"
proof (cases "x = 0")
  case True
  then show ?thesis by (simp add: ffs64_def fls64_def ilog2_const_def)
next
  case False
  have "(LEAST n. bit x n) = unat (ffs64 x)"
    using ffs_bit(4) [OF False] by (intro Least_equality) (auto intro: leI)
  moreover have "Max {n. bit x n} = unat (fls64 x)"
    using fls_range(4) [OF False] fls_bit [of "unat (fls64 x)" x]
    by (intro Max_eqI) (auto intro: finite_subset [of _ "{..<64}"] leI dest: bit_imp_le_length)
  ultimately show ?thesis using False by (simp add: ilog2_const_fls64)
qed

text \<open>
  C24: Searching a bitmap from \<open>offset\<close> returns the first set (clear) bit at or after it, or
  \<open>sz\<close> when there is none, and never reads outside the array that holds \<open>sz\<close> bits.
\<close>

theorem find_next_bit_exact:
  assumes "sz \<le> 64 * length addr" and "offset \<le> sz"
  shows "(\<exists>r. find_next_set_bit addr sz offset = Inr r \<and> next_in (bm_test addr) sz offset r) \<and>
    (\<exists>r. find_next_clear_bit addr sz offset = Inr r \<and> next_in (\<lambda>n. \<not> bm_test addr n) sz offset r)"
  using find_next_set_bit_next find_next_clear_bit_next assms by blast

theorem find_next_bit_exact_witness:
  "\<exists>r. find_next_clear_bit [0xF, 1] 70 2 = Inr r \<and> next_in (\<lambda>n. \<not> bm_test [0xF, 1] n) 70 2 r"
  using find_next_bit_exact [of 70 "[0xF, 1]" 2] by simp

text \<open>
  \<open>round_up\<close> and \<open>ALIGN_UP\<close> agree on every word, and where the sum does not wrap they
  give the least multiple of \<open>2 ^ k\<close> that is not below \<open>x\<close>; \<open>round_down\<close> and
  \<open>ALIGN_DOWN\<close> give the greatest one that is not above it.
\<close>

theorem align_exact:
  fixes x :: "'a::len word"
  assumes "k < LENGTH('a)" and "unat x + 2 ^ k - 1 < 2 ^ LENGTH('a)"
  shows "round_up x (2 ^ k) = ALIGN_UP x (2 ^ k) \<and>
    unat (ALIGN_UP x (2 ^ k)) = (LEAST m. 2 ^ k dvd m \<and> unat x \<le> m) \<and>
    ALIGN_DOWN x (2 ^ k) = round_down x (2 ^ k) \<and>
    unat (round_down x (2 ^ k)) = 2 ^ k * (unat x div 2 ^ k)"
proof -
  let ?q = "(unat x + 2 ^ k - 1) div 2 ^ k"
  have "(LEAST m. 2 ^ k dvd m \<and> unat x \<le> m) = 2 ^ k * ?q"
  proof (rule Least_equality)
    have "unat x + 2 ^ k - 1 < 2 ^ k * ?q + 2 ^ k"
      by (metis add_diff_cancel_left' add_less_cancel_left div_mult_mod_eq mod_less_divisor mult.commute zero_less_numeral zero_less_power)
    then show "2 ^ k dvd 2 ^ k * ?q \<and> unat x \<le> 2 ^ k * ?q" by simp
    fix m assume "2 ^ k dvd m \<and> unat x \<le> m"
    then obtain j where m: "m = 2 ^ k * j" "unat x \<le> 2 ^ k * j" by (auto elim: dvdE)
    moreover have "(0::nat) < 2 ^ k" by simp
    ultimately have "unat x + 2 ^ k - 1 < 2 ^ k * Suc j" unfolding mult_Suc_right by linarith
    then have "?q < Suc j" by (metis div_less_iff_less_mult mult.commute zero_less_numeral zero_less_power)
    then show "2 ^ k * ?q \<le> m" by (simp add: m)
  qed
  then show ?thesis using ALIGN_UP_unat [OF assms]
    by (simp add: round_up_ALIGN_UP ALIGN_DOWN_eq round_down_unat minus_mod_eq_mult_div)
qed

theorem align_exact_witness:
  "round_up (0x1234 :: u32) (2 ^ 12) = ALIGN_UP 0x1234 (2 ^ 12) \<and>
   unat (ALIGN_UP (0x1234 :: u32) (2 ^ 12)) = (LEAST m. 2 ^ 12 dvd m \<and> unat (0x1234 :: u32) \<le> m)"
  using align_exact [of 12 "0x1234 :: u32"] by simp

text \<open>
  The 32-bit rounding gives the next power of two; the 64-bit one drops the upper half of its
  argument, so that it is wrong from \<open>2 ^ 32 + 2\<close> on.
\<close>

lemma roundup64_truncates: "roundup64 0x100000003 = 4"
  by code_simp

end
