(* ===== verification/Bh.thy ===== *)
theory Bh
  imports Bitops
begin

text \<open>
  Bottom halves (\<open>kernel/bh.c\<close>) and interrupt vectors and polling (\<open>kernel/irq.c\<close>): the
  cooperative scheduler of the firmware. The state is a record, which the timer component
  extends; the registered handlers are a parameter \<open>cb\<close> of the operations, a function from
  the handler's number, the event and the state.
\<close>

section \<open>Model\<close>

subsection \<open>State\<close>

text \<open>
  \<open>bh_awakes\<close>, \<open>bh_entries\<close> and \<open>bh_nr_regs\<close> are the variables of \<open>bh.c\<close>,
  \<open>irq_poll_regs\<close> and \<open>irq_is_polling\<close> those of \<open>irq.c\<close>. \<open>irq_on\<close> is the interrupt
  enable of the CPU, and \<open>bh_ran\<close> records the handler calls for the statements below.
\<close>

record bh_state =
  smp_initialized :: bool
  bh_awakes :: "u64 list"
  bh_entries :: "nat option list"
  bh_nr_regs :: nat
  irq_poll_regs :: "u64 list"
  irq_is_polling :: bool
  irq_on :: bool
  bh_ran :: "(nat \<times> u8) list"

abbreviation BH_WAKEUP :: u8 where "BH_WAKEUP \<equiv> 0"
abbreviation BH_POLLIRQ :: u8 where "BH_POLLIRQ \<equiv> 1"

type_synonym 's bh_handlers = "nat \<Rightarrow> u8 \<Rightarrow> 's \<Rightarrow> 's res"

subsection \<open>Bottom halves\<close>

text \<open>\<open>n\<close> is \<open>NR_BHS\<close>, which is also \<open>INVALID_BH\<close>.\<close>

definition bh_run :: "'a bh_state_scheme bh_handlers \<Rightarrow> nat \<Rightarrow> u8 \<Rightarrow> 'a bh_state_scheme \<Rightarrow> 'a bh_state_scheme res" where
  "bh_run cb bh event s =
     (let s = s\<lparr>irq_on := False\<rparr>
      in if bh < length (bh_entries s)
         then (case bh_entries s ! bh of
                 None \<Rightarrow> Inl Oob
               | Some h \<Rightarrow> bindR (cb h event (s\<lparr>bh_ran := bh_ran s @ [(bh, event)]\<rparr>))
                   (\<lambda>s. Inr (s\<lparr>irq_on := True\<rparr>)))
         else Inl Oob)"

definition bh_suspend :: "nat \<Rightarrow> 'a bh_state_scheme \<Rightarrow> 'a bh_state_scheme res" where
  "bh_suspend bh s = bindR (clear_bit bh (bh_awakes s)) (\<lambda>m. Inr (s\<lparr>bh_awakes := m\<rparr>))"

definition bh_resume :: "nat \<Rightarrow> 'a bh_state_scheme \<Rightarrow> 'a bh_state_scheme res" where
  "bh_resume bh s = bindR (set_bit_op bh (bh_awakes s)) (\<lambda>m. Inr (s\<lparr>bh_awakes := m\<rparr>))"

definition bh_resumed :: "nat \<Rightarrow> nat \<Rightarrow> bool \<Rightarrow> 'a bh_state_scheme \<Rightarrow> nat res" where
  "bh_resumed n last_bh recursive s =
     bindR (find_next_set_bit (bh_awakes s) n last_bh)
       (\<lambda>bh. if last_bh = 0 \<or> bh \<noteq> n \<or> \<not> recursive then Inr bh
             else find_next_set_bit (bh_awakes s) n 0)"

definition bh_run_once ::
  "nat \<Rightarrow> 'a bh_state_scheme bh_handlers \<Rightarrow> nat \<Rightarrow> bool \<Rightarrow> 'a bh_state_scheme \<Rightarrow> (nat \<times> 'a bh_state_scheme) res" where
  "bh_run_once n cb bh recursive s =
     bindR (bh_resumed n bh recursive s) (\<lambda>next_bh.
       if next_bh = n then Inr (next_bh, s)
       else bindR (bh_suspend next_bh s) (\<lambda>s.
            bindR (bh_run cb next_bh BH_WAKEUP s) (\<lambda>s.
              let next_bh = next_bh + 1
              in Inr (if recursive \<and> next_bh = n then 0 else next_bh, s))))"

definition bh_register_handler :: "nat \<Rightarrow> nat \<Rightarrow> 'a bh_state_scheme \<Rightarrow> (nat \<times> 'a bh_state_scheme) res" where
  "bh_register_handler n handler s =
     (let bh = bh_nr_regs s
      in if \<not> smp_initialized s then Inl Bug
         else if bh = n then Inl Bug
         else if bh < length (bh_entries s)
         then Inr (bh, s\<lparr>bh_entries := (bh_entries s)[bh := Some handler], bh_nr_regs := bh + 1\<rparr>)
         else Inl Oob)"

text \<open>The loop of \<open>__bh_sync\<close>, with fuel: woken handlers can wake others for ever.\<close>

fun bh_sync_loop ::
  "nat \<Rightarrow> nat \<Rightarrow> 'a bh_state_scheme bh_handlers \<Rightarrow> nat \<Rightarrow> bool \<Rightarrow> nat \<Rightarrow> 'a bh_state_scheme \<Rightarrow> 'a bh_state_scheme res" where
  "bh_sync_loop 0 n cb console_bh recursive bh s = Inl Stuck"
| "bh_sync_loop (Suc fuel) n cb console_bh recursive bh s =
     (if bh \<noteq> n
      then if \<not> recursive \<or> bh \<noteq> console_bh
           then bindR (bh_run_once n cb bh recursive s)
                  (\<lambda>(bh, s). bh_sync_loop fuel n cb console_bh recursive bh s)
           else bh_sync_loop fuel n cb console_bh recursive (bh + 1) s
      else Inr s)"

subsection \<open>Polling\<close>

text \<open>The loop of \<open>irq_poll_bh\<close>: \<open>k\<close> numbers are left, so the current one is \<open>n - k\<close>.\<close>

fun irq_poll_loop ::
  "nat \<Rightarrow> nat \<Rightarrow> 'a bh_state_scheme bh_handlers \<Rightarrow> nat \<Rightarrow> bool \<Rightarrow> 'a bh_state_scheme \<Rightarrow> 'a bh_state_scheme res" where
  "irq_poll_loop 0 n cb console_bh sync s = Inr s"
| "irq_poll_loop (Suc k) n cb console_bh sync s =
     bindR (test_bit (n - Suc k) (irq_poll_regs s)) (\<lambda>b.
       bindR (if b \<and> (\<not> sync \<or> n - Suc k \<noteq> console_bh) then bh_run cb (n - Suc k) BH_POLLIRQ s else Inr s)
         (irq_poll_loop k n cb console_bh sync))"

definition irq_poll_bh ::
  "nat \<Rightarrow> 'a bh_state_scheme bh_handlers \<Rightarrow> nat \<Rightarrow> bool \<Rightarrow> 'a bh_state_scheme \<Rightarrow> (bool \<times> 'a bh_state_scheme) res" where
  "irq_poll_bh n cb console_bh sync s =
     (if \<not> irq_is_polling s then Inr (False, s)
      else bindR (irq_poll_loop n n cb console_bh sync s) (\<lambda>s. Inr (True, s)))"

definition irq_register_poller :: "nat \<Rightarrow> 'a bh_state_scheme \<Rightarrow> 'a bh_state_scheme res" where
  "irq_register_poller bh s =
     (if \<not> smp_initialized s then Inl Bug
      else bindR (set_bit_op bh (irq_poll_regs s))
             (\<lambda>m. Inr (s\<lparr>irq_poll_regs := m, irq_is_polling := True\<rparr>)))"

text \<open>
  \<open>bh_sync\<close> and one turn of the endless loop of \<open>bh_loop\<close>; \<open>bh_irq_wait\<close> is empty in the
  builds without \<open>CONFIG_IDEL\<close>; no such option exists (the option is called \<open>IDLE\<close>), so that
  it is always empty.
\<close>

definition bh_sync ::
  "nat \<Rightarrow> nat \<Rightarrow> 'a bh_state_scheme bh_handlers \<Rightarrow> nat \<Rightarrow> 'a bh_state_scheme \<Rightarrow> 'a bh_state_scheme res" where
  "bh_sync fuel n cb console_bh s =
     bindR (bh_sync_loop fuel n cb console_bh True 0 (s\<lparr>irq_on := True\<rparr>)) (\<lambda>s.
     bindR (irq_poll_bh n cb console_bh True s) (\<lambda>(_, s).
       Inr (s\<lparr>irq_on := False\<rparr>)))"

definition bh_loop_turn ::
  "nat \<Rightarrow> nat \<Rightarrow> 'a bh_state_scheme bh_handlers \<Rightarrow> nat \<Rightarrow> 'a bh_state_scheme \<Rightarrow> 'a bh_state_scheme res" where
  "bh_loop_turn fuel n cb console_bh s =
     bindR (bh_sync_loop fuel n cb console_bh False 0 s) (\<lambda>s.
     bindR (irq_poll_bh n cb console_bh False s) (\<lambda>(_, s). Inr s))"

definition bh_init :: "'a bh_state_scheme \<Rightarrow> 'a bh_state_scheme res" where
  "bh_init s = (if \<not> smp_initialized s then Inl Bug else Inr s)"

section \<open>Invariant\<close>

text \<open>
  The arrays have room for \<open>n\<close> entries, the registered ones come first and have a handler,
  and only registered bottom halves are awake or polled.
\<close>

definition bh_wf :: "nat \<Rightarrow> 'a bh_state_scheme \<Rightarrow> bool" where
  "bh_wf n s \<longleftrightarrow> length (bh_entries s) = n \<and> n \<le> 64 * length (bh_awakes s) \<and>
     n \<le> 64 * length (irq_poll_regs s) \<and> bh_nr_regs s \<le> n \<and>
     (\<forall>i<bh_nr_regs s. bh_entries s ! i \<noteq> None) \<and>
     (\<forall>i. bm_test (bh_awakes s) i \<longrightarrow> i < bh_nr_regs s) \<and>
     (\<forall>i. bm_test (irq_poll_regs s) i \<longrightarrow> i < bh_nr_regs s)"

text \<open>
  What is expected of the registered handlers: they return, keep the invariant, and neither run
  other handlers nor put one to sleep.
\<close>

definition cb_ok :: "nat \<Rightarrow> 'a bh_state_scheme bh_handlers \<Rightarrow> bool" where
  "cb_ok n cb \<longleftrightarrow> (\<forall>h ev s. bh_wf n s \<longrightarrow> (\<exists>s'. cb h ev s = Inr s' \<and> bh_wf n s' \<and> bh_ran s' = bh_ran s \<and>
     (\<forall>b. bm_test (bh_awakes s) b \<longrightarrow> bm_test (bh_awakes s') b) \<and> irq_poll_regs s' = irq_poll_regs s))"

lemma bh_wf_fields [simp]:
  "bh_wf n (s\<lparr>irq_on := b\<rparr>) = bh_wf n s" "bh_wf n (s\<lparr>bh_ran := l\<rparr>) = bh_wf n s"
  by (simp_all add: bh_wf_def)

lemma bh_run_ok:
  assumes "bh_wf n s" "cb_ok n cb" "bh < bh_nr_regs s"
  obtains s' where "bh_run cb bh ev s = Inr s'" "bh_wf n s'" "irq_on s'"
    "bh_ran s' = bh_ran s @ [(bh, ev)]" "\<forall>b. bm_test (bh_awakes s) b \<longrightarrow> bm_test (bh_awakes s') b"
    "irq_poll_regs s' = irq_poll_regs s"
proof -
  from assms obtain h where h: "bh < length (bh_entries s)" "bh_entries s ! bh = Some h"
    by (fastforce simp: bh_wf_def)
  let ?s = "s\<lparr>irq_on := False, bh_ran := bh_ran s @ [(bh, ev)]\<rparr>"
  from assms(1) have "bh_wf n ?s" by simp
  with assms(2) obtain s' where "cb h ev ?s = Inr s'" "bh_wf n s'" "bh_ran s' = bh_ran ?s"
    "\<forall>b. bm_test (bh_awakes ?s) b \<longrightarrow> bm_test (bh_awakes s') b" "irq_poll_regs s' = irq_poll_regs ?s"
    unfolding cb_ok_def by blast
  then show ?thesis using h by (intro that [of "s'\<lparr>irq_on := True\<rparr>"]) (auto simp: bh_run_def Let_def)
qed


lemma bh_resume_ok:
  assumes "bh_wf n s" "bh < bh_nr_regs s"
  obtains m where "bh_resume bh s = Inr (s\<lparr>bh_awakes := m\<rparr>)" "bh_wf n (s\<lparr>bh_awakes := m\<rparr>)"
    "bm_test m = (bm_test (bh_awakes s))(bh := True)"
proof -
  from assms have "bh < 64 * length (bh_awakes s)" by (auto simp: bh_wf_def)
  then obtain m where "set_bit_op bh (bh_awakes s) = Inr m" "64 * length m = 64 * length (bh_awakes s)"
    "bm_test m = (bm_test (bh_awakes s))(bh := True)"
    using bm.set_ok by blast
  then show ?thesis using assms by (intro that [of m]) (auto simp: bh_resume_def bh_wf_def)
qed



lemma irq_poll_loop_ok:
  assumes "bh_wf n s" "cb_ok n cb" "k \<le> n"
  shows "\<exists>s'. irq_poll_loop k n cb con sync s = Inr s' \<and> bh_wf n s' \<and> bh_ran s' = bh_ran s @
    map (\<lambda>b. (b, BH_POLLIRQ)) (filter (\<lambda>b. bm_test (irq_poll_regs s) b \<and> (\<not> sync \<or> b \<noteq> con)) [n - k..<n])"
  using assms
proof (induction k arbitrary: s)
  case (Suc k)
  let ?b = "n - Suc k" let ?P = "bm_test (irq_poll_regs s) ?b \<and> (\<not> sync \<or> ?b \<noteq> con)"
  have "?b < 64 * length (irq_poll_regs s)" using Suc.prems by (auto simp: bh_wf_def)
  then have t: "test_bit ?b (irq_poll_regs s) = Inr (bm_test (irq_poll_regs s) ?b)" by (rule test_bit_ok)
  have "\<exists>s1. (if ?P then bh_run cb ?b BH_POLLIRQ s else Inr s) = Inr s1 \<and> bh_wf n s1 \<and>
      irq_poll_regs s1 = irq_poll_regs s \<and> bh_ran s1 = bh_ran s @ (if ?P then [(?b, BH_POLLIRQ)] else [])"
  proof (cases ?P)
    case True
    then have "?b < bh_nr_regs s" using Suc.prems(1) by (auto simp: bh_wf_def)
    then obtain s1 where "bh_run cb ?b BH_POLLIRQ s = Inr s1" "bh_wf n s1"
      "bh_ran s1 = bh_ran s @ [(?b, BH_POLLIRQ)]" "irq_poll_regs s1 = irq_poll_regs s"
      by (rule bh_run_ok [OF Suc.prems(1,2)])
    then show ?thesis by (simp only: True if_True sum.inject simp_thms)
  qed (use Suc.prems(1) in auto)
  then obtain s1 where s1: "(if ?P then bh_run cb ?b BH_POLLIRQ s else Inr s) = Inr s1" "bh_wf n s1"
      "irq_poll_regs s1 = irq_poll_regs s" "bh_ran s1 = bh_ran s @ (if ?P then [(?b, BH_POLLIRQ)] else [])" by blast
  from Suc.IH [OF s1(2) Suc.prems(2)] Suc.prems(3) obtain s' where
    "irq_poll_loop k n cb con sync s1 = Inr s'" "bh_wf n s'" "bh_ran s' = bh_ran s1 @
      map (\<lambda>b. (b, BH_POLLIRQ)) (filter (\<lambda>b. bm_test (irq_poll_regs s) b \<and> (\<not> sync \<or> b \<noteq> con)) [n - k..<n])"
    unfolding s1(3) by auto
  moreover have "[?b..<n] = ?b # [n - k..<n]" using Suc.prems(3) by (simp add: upt_conv_Cons Suc_diff_Suc)
  ultimately show ?case using s1 t by (intro exI [of _ s']) auto
qed (auto intro: exI [of _ s])

lemma bm_test_small: "addr = [w] \<Longrightarrow> unat w < 2 ^ k \<Longrightarrow> bm_test addr i \<Longrightarrow> i < k"
  by (auto simp: bm_test_def bit_unsigned_iff dest: bit_less_exp [of "unat w"])

section \<open>Properties\<close>


definition bh_demo :: bh_state where
  "bh_demo = \<lparr>smp_initialized = True, bh_awakes = [5], bh_entries = [Some 7, Some 8, Some 9, None],
     bh_nr_regs = 3, irq_poll_regs = [2], irq_is_polling = True, irq_on = True, bh_ran = []\<rparr>"

lemma bh_demo_wf: "bh_wf 4 bh_demo"
proof -
  have "i < 3" if "bm_test [5] i" for i using bm_test_small [OF refl _ that, of 3] by simp
  moreover have "i < 3" if "bm_test [2] i" for i using bm_test_small [OF refl _ that, of 3] by simp
  moreover have "[Some 7, Some 8, Some 9, None] ! i \<noteq> None" if "i < 3" for i
    using that by (auto simp: less_Suc_eq numeral_3_eq_3)
  ultimately show ?thesis by (auto simp: bh_wf_def bh_demo_def)
qed

lemma cb_demo_ok: "cb_ok n (\<lambda>h ev s. Inr s)"
  by (simp add: cb_ok_def)


text \<open>
  \<open>irq_poll_bh\<close> calls exactly the registered pollers, in the order of their numbers, with
  the polling event; a synchronous call leaves the console's bottom half out.
\<close>

theorem irq_poll_bh_exact:
  assumes "bh_wf n s" and "cb_ok n cb"
  shows "\<exists>s'. irq_poll_bh n cb console_bh sync s = Inr (irq_is_polling s, s') \<and> bh_wf n s' \<and>
    bh_ran s' = bh_ran s @ (if irq_is_polling s then map (\<lambda>b. (b, BH_POLLIRQ))
      (filter (\<lambda>b. bm_test (irq_poll_regs s) b \<and> (\<not> sync \<or> b \<noteq> console_bh)) [0..<n]) else [])"
  using irq_poll_loop_ok [OF assms, of n console_bh sync] assms(1) by (auto simp: irq_poll_bh_def)

theorem irq_poll_bh_exact_witness:
  "\<exists>s'. irq_poll_bh 4 (\<lambda>h ev s. Inr s) 2 True bh_demo = Inr (irq_is_polling bh_demo, s') \<and> bh_wf 4 s' \<and>
    bh_ran s' = bh_ran bh_demo @ (if irq_is_polling bh_demo then map (\<lambda>b. (b, BH_POLLIRQ))
      (filter (\<lambda>b. bm_test (irq_poll_regs bh_demo) b \<and> (\<not> True \<or> b \<noteq> 2)) [0..<4]) else [])"
  by (rule irq_poll_bh_exact [OF bh_demo_wf cb_demo_ok])

text \<open>
  A recursive pass is to leave the console's bottom half out, since it is entered from there. It
  only tests where a search starts: a search from a smaller number finds the console and runs it.
\<close>

lemma bh_sync_recursive_runs_console:
  "map_sum id bh_ran (bh_sync_loop 5 4 (\<lambda>h ev s. Inr s) 2 True 0 (bh_demo\<lparr>bh_awakes := [4]\<rparr>))
    = Inr [(2, BH_WAKEUP)]"
  by code_simp

text \<open>
  Registration hands out the next number, keeps the invariant, and stops the firmware when
  all \<open>NR_BHS\<close> entries are taken or the CPUs are not set up.
\<close>

theorem bh_register_handler_exact:
  assumes "bh_wf n s"
  shows "(case bh_register_handler n h s of
      Inr (bh, s') \<Rightarrow> bh = bh_nr_regs s \<and> bh_wf n s' \<and> bh_nr_regs s' = bh_nr_regs s + 1 \<and>
        (\<forall>i. bh_entries s' ! i = (if i = bh then Some h else bh_entries s ! i)) \<and>
        \<not> bm_test (bh_awakes s') bh
    | Inl e \<Rightarrow> e = Bug \<and> (\<not> smp_initialized s \<or> bh_nr_regs s = n))"
  using assms
  by (auto simp: bh_register_handler_def Let_def bh_wf_def nth_list_update less_Suc_eq)

theorem bh_register_handler_exact_witness:
  "case bh_register_handler 4 9 bh_demo of
      Inr (bh, s') \<Rightarrow> bh = bh_nr_regs bh_demo \<and> bh_wf 4 s' \<and> bh_nr_regs s' = bh_nr_regs bh_demo + 1 \<and>
        (\<forall>i. bh_entries s' ! i = (if i = bh then Some 9 else bh_entries bh_demo ! i)) \<and>
        \<not> bm_test (bh_awakes s') bh
    | Inl e \<Rightarrow> e = Bug \<and> (\<not> smp_initialized bh_demo \<or> bh_nr_regs bh_demo = 4)"
  by (rule bh_register_handler_exact [OF bh_demo_wf])

end
