(* ===== verification/Timer.thy ===== *)
theory Timer
  imports Bh
begin

text \<open>
  The software timers of \<open>kernel/timer.c\<close> in the tickless build (\<open>CONFIG_TICK\<close> off, not a
  boot loader), with a 32-bit signed \<open>timeout_t\<close>: registration, the queue of armed timers
  ordered by their remaining time, arming, and the expiry in interrupt and in bottom half
  context. The hardware timer is the list of the one-shot delays it was given; the tick
  counter is an argument \<open>now\<close>, and the timers' handlers are a parameter \<open>tcb\<close>.
\<close>

section \<open>Model\<close>

subsection \<open>Timeouts\<close>

text \<open>Bit 0 of a timeout tells an armed timer from an idle one; the remaining time is above it.\<close>

definition TIMER_IDLE :: int where "TIMER_IDLE = 0"

definition TIMER_SHOT :: "int \<Rightarrow> bool" where
  "TIMER_SHOT timeout \<longleftrightarrow> timeout mod 2 = 1"

definition TIMER_TIME :: "int \<Rightarrow> int" where
  "TIMER_TIME timeout = timeout div 2"

definition TIMER_MAKE :: "int \<Rightarrow> int" where
  "TIMER_MAKE time = s32 (time * 2) + 1"

definition MAX_TIMEOUT :: int where "MAX_TIMEOUT = 0x7FFFFFFF"
definition GPT_MAX_TIMEOUT :: int where "GPT_MAX_TIMEOUT = 0xffffffff"

abbreviation (input) TIMER_BH :: nat where "TIMER_BH \<equiv> 0"
abbreviation (input) TIMER_IRQ :: nat where "TIMER_IRQ \<equiv> 1"

record timer_desc =
  type :: nat
  handler :: "nat option"

record timer_state = bh_state +
  timer_descs :: "timer_desc option list"
  timer_timeouts :: "int list"
  timer_regs :: "u64 list"
  timer_bh :: nat
  timer_running_tid :: nat
  timer_orders :: "nat list"
  timer_last_tick :: u32
  timer_timeout :: int
  timer_unshot_timeout :: int
  gpt_shots :: "int list"

subsection \<open>The queue of armed timers\<close>

text \<open>
  \<open>n\<close> is \<open>NR_TIMERS\<close> and \<open>INVALID_TID\<close>; the queue array has \<open>n + 1\<close> entries. The first loop
  of \<open>__timer_del\<close> (\<open>k\<close> entries left) gives the index it stops at, or nothing when it returns.
\<close>

fun timer_del_find :: "nat \<Rightarrow> nat \<Rightarrow> nat list \<Rightarrow> nat \<Rightarrow> nat \<Rightarrow> nat option" where
  "timer_del_find n tid orders 0 i = Some i"
| "timer_del_find n tid orders (Suc k) i =
     (if orders ! i = n then None
      else if orders ! i = tid then Some i
      else timer_del_find n tid orders k (i + 1))"

fun timer_del_shift :: "nat \<Rightarrow> nat \<Rightarrow> nat \<Rightarrow> nat list \<Rightarrow> nat list" where
  "timer_del_shift n 0 i orders = orders"
| "timer_del_shift n (Suc k) i orders =
     timer_del_shift n k (i + 1)
       (if orders ! i \<noteq> n then orders[i + 1 := orders ! i, i := orders ! (i + 1)] else orders)"

definition timer_del :: "nat \<Rightarrow> nat \<Rightarrow> nat list \<Rightarrow> nat list" where
  "timer_del n tid orders =
     (case timer_del_find n tid orders n 0 of
        None \<Rightarrow> orders
      | Some i \<Rightarrow> (timer_del_shift n (n - 1 - i) i orders)[max i (n - 1) := n])"

text \<open>The loop of \<open>__timer_add\<close>, from the top entry down: \<open>k\<close> is \<open>NR_TIMERS - i\<close>.\<close>

fun timer_add_loop :: "nat \<Rightarrow> nat \<Rightarrow> int list \<Rightarrow> nat \<Rightarrow> nat list \<Rightarrow> nat list res" where
  "timer_add_loop n tid timeouts 0 orders =
     (if orders ! 0 \<noteq> n then Inl Bug else Inr (orders[0 := tid]))"
| "timer_add_loop n tid timeouts (Suc k) orders =
     (let t = orders ! k
      in if t = tid then Inl Bug
         else if t \<noteq> n
         then if Suc k = n then Inl Bug
              else if TIMER_TIME (timeouts ! t) > TIMER_TIME (timeouts ! tid)
              then timer_add_loop n tid timeouts k (orders[Suc k := t, k := n])
              else Inr (orders[Suc k := tid])
         else timer_add_loop n tid timeouts k orders)"

definition timer_add :: "nat \<Rightarrow> nat \<Rightarrow> int list \<Rightarrow> nat list \<Rightarrow> nat list res" where
  "timer_add n tid timeouts orders = timer_add_loop n tid timeouts n orders"

subsection \<open>Running timers\<close>

definition timer_run ::
  "nat \<Rightarrow> (nat \<Rightarrow> timer_state \<Rightarrow> timer_state res) \<Rightarrow> nat \<Rightarrow> timer_state \<Rightarrow> timer_state res" where
  "timer_run n tcb tid s =
     (case timer_descs s ! tid of
        None \<Rightarrow> Inl Bug
      | Some timer \<Rightarrow>
          (case handler timer of
             None \<Rightarrow> Inl Bug
           | Some h \<Rightarrow>
               bindR (tcb h (s\<lparr>timer_running_tid := tid, timer_orders := timer_del n tid (timer_orders s)\<rparr>))
                 (\<lambda>s. Inr (s\<lparr>timer_running_tid := n\<rparr>))))"

text \<open>
  The \<open>do ... while (1)\<close> of \<open>timer_run_timeout\<close>, with fuel. The source also loads
  \<open>timer_descs[INVALID_TID]\<close>, one past the array, before it tests for an empty queue; the value
  is not used then.
\<close>

fun timer_run_timeout ::
  "nat \<Rightarrow> nat \<Rightarrow> (nat \<Rightarrow> timer_state \<Rightarrow> timer_state res) \<Rightarrow> nat \<Rightarrow> timer_state \<Rightarrow> timer_state res" where
  "timer_run_timeout 0 n tcb ty s = Inl Stuck"
| "timer_run_timeout (Suc fuel) n tcb ty s =
     (let tid = timer_orders s ! 0
      in if tid = n \<or> timer_timeouts s ! tid \<noteq> TIMER_IDLE then Inr s
         else (case timer_descs s ! tid of
                 None \<Rightarrow> Inl Oob
               | Some timer \<Rightarrow>
                   if ty = TIMER_BH \<and> type timer \<noteq> ty then Inl Bug
                   else if type timer = ty
                   then bindR (timer_run n tcb tid s) (timer_run_timeout fuel n tcb ty)
                   else timer_run_timeout fuel n tcb ty s))"

subsection \<open>Registration\<close>

definition timer_register :: "nat \<Rightarrow> timer_desc \<Rightarrow> timer_state \<Rightarrow> (nat \<times> timer_state) res" where
  "timer_register n timer s =
     (if \<not> smp_initialized s then Inl Bug
      else bindR (find_next_clear_bit (timer_regs s) n 0) (\<lambda>tid.
        if tid = n then Inl Bug
        else bindR (set_bit_op tid (timer_regs s)) (\<lambda>regs.
          Inr (tid, s\<lparr>timer_descs := (timer_descs s)[tid := Some timer],
                      timer_timeouts := (timer_timeouts s)[tid := TIMER_IDLE],
                      timer_regs := regs, timer_running_tid := tid\<rparr>))))"

definition timer_unregister :: "nat \<Rightarrow> nat \<Rightarrow> timer_state \<Rightarrow> timer_state res" where
  "timer_unregister n tid s =
     (if tid \<noteq> timer_running_tid s then Inl Bug
      else bindR (clear_bit tid (timer_regs s)) (\<lambda>regs.
        Inr (s\<lparr>timer_orders := timer_del n tid (timer_orders s),
               timer_descs := (timer_descs s)[tid := None],
               timer_regs := regs, timer_running_tid := n\<rparr>)))"

subsection \<open>Arming the hardware timer\<close>

text \<open>
  \<open>GPT_MAX_TIMEOUT\<close> is the unsigned constant \<open>0xffffffff\<close>, so that the comparison converts
  the signed \<open>to_shot\<close> to unsigned.
\<close>

definition timer_shot_timeout :: "int \<Rightarrow> timer_state \<Rightarrow> timer_state" where
  "timer_shot_timeout to_shot s =
     (let (s, to_shot) =
        (if to_shot mod 2 ^ 32 < GPT_MAX_TIMEOUT
         then (s\<lparr>timer_unshot_timeout := 0\<rparr>, if to_shot = 0 then 1 else to_shot)
         else (s\<lparr>timer_unshot_timeout := s32 (to_shot - GPT_MAX_TIMEOUT)\<rparr>, s32 GPT_MAX_TIMEOUT))
      in s\<lparr>gpt_shots := gpt_shots s @ [to_shot]\<rparr>)"

definition timer_restart :: "timer_state \<Rightarrow> timer_state" where
  "timer_restart s =
     (if TIMER_SHOT (timer_timeout s) then timer_shot_timeout (TIMER_TIME (timer_timeout s)) s else s)"

text \<open>
  The loop of \<open>__timer_recalc_timeout\<close> over the queue (\<open>k\<close> entries left). Its check
  \<open>BUG_ON(TIMER_TIME(a < TIMER_TIME(b)))\<close> shifts a truth value right by one, which is always 0.
\<close>

fun timer_recalc_loop :: "nat \<Rightarrow> bool \<Rightarrow> int \<Rightarrow> nat \<Rightarrow> nat \<Rightarrow> timer_state \<Rightarrow> timer_state res" where
  "timer_recalc_loop n shot span 0 i s = Inr s"
| "timer_recalc_loop n shot span (Suc k) i s =
     (let tid = timer_orders s ! i
      in if tid = n then Inr s
         else if TIMER_SHOT (timer_timeouts s ! tid)
         then let tout = s32 (TIMER_TIME (timer_timeouts s ! tid) - span);
                  tout = (if \<not> shot \<and> tout \<le> 0 then 1 else tout);
                  s = s\<lparr>timer_timeouts := (timer_timeouts s)[tid := TIMER_MAKE tout]\<rparr>
              in if \<not> TIMER_SHOT (timer_timeout s)
                 then timer_recalc_loop n shot span k (i + 1) (s\<lparr>timer_timeout := timer_timeouts s ! tid\<rparr>)
                 else if TIMER_TIME (of_bool (timer_timeouts s ! tid < TIMER_TIME (timer_timeout s))) \<noteq> 0
                 then Inl Bug
                 else timer_recalc_loop n shot span k (i + 1) s
         else timer_recalc_loop n shot span k (i + 1) s)"

definition timer_recalc :: "nat \<Rightarrow> u32 \<Rightarrow> bool \<Rightarrow> timer_state \<Rightarrow> timer_state res" where
  "timer_recalc n now shot s =
     (let span = (if shot then TIMER_TIME (timer_timeout s) else max 0 (sint (now - timer_last_tick s)))
      in timer_recalc_loop n shot span n 0 (s\<lparr>timer_last_tick := now, timer_timeout := TIMER_IDLE\<rparr>))"

definition timer_recalc_timeout :: "nat \<Rightarrow> u32 \<Rightarrow> bool \<Rightarrow> timer_state \<Rightarrow> timer_state res" where
  "timer_recalc_timeout n now shot s = bindR (timer_recalc n now shot s) (\<lambda>s. Inr (timer_restart s))"

definition timer_schedule_shot :: "nat \<Rightarrow> u32 \<Rightarrow> nat \<Rightarrow> int \<Rightarrow> timer_state \<Rightarrow> timer_state res" where
  "timer_schedule_shot n now tid tout_ms s =
     (if tout_ms > MAX_TIMEOUT then Inl Bug
      else bindR (timer_recalc n now False (s\<lparr>timer_orders := timer_del n tid (timer_orders s)\<rparr>)) (\<lambda>s.
        let tout_ms = (if tout_ms \<le> 0 then 1 else tout_ms);
            s = s\<lparr>timer_timeouts := (timer_timeouts s)[tid := TIMER_MAKE tout_ms]\<rparr>
        in bindR (timer_add n tid (timer_timeouts s) (timer_orders s)) (\<lambda>orders.
          let s = s\<lparr>timer_orders := orders\<rparr>;
              s = (if \<not> TIMER_SHOT (timer_timeout s) \<or> tout_ms < TIMER_TIME (timer_timeout s)
                   then s\<lparr>timer_timeout := timer_timeouts s ! tid\<rparr> else s)
          in Inr (timer_restart s))))"

subsection \<open>Expiry\<close>

definition timer_bh_timeout ::
  "nat \<Rightarrow> nat \<Rightarrow> (nat \<Rightarrow> timer_state \<Rightarrow> timer_state res) \<Rightarrow> u32 \<Rightarrow> timer_state \<Rightarrow> timer_state res" where
  "timer_bh_timeout fuel n tcb now s =
     bindR (timer_run_timeout fuel n tcb TIMER_BH s) (timer_recalc_timeout n now True)"

text \<open>The loop of \<open>timer_irq_timeout\<close>; it returns \<open>run_irq\<close> and \<open>run_bh\<close> with the state.\<close>

fun timer_irq_loop ::
  "nat \<Rightarrow> int \<Rightarrow> nat \<Rightarrow> nat \<Rightarrow> bool \<Rightarrow> bool \<Rightarrow> timer_state \<Rightarrow> (bool \<times> bool \<times> timer_state) res" where
  "timer_irq_loop n tout 0 i run_irq run_bh s = Inr (run_irq, run_bh, s)"
| "timer_irq_loop n tout (Suc k) i run_irq run_bh s =
     (let tid = timer_orders s ! i
      in if tid = n then Inr (run_irq, run_bh, s)
         else if TIMER_SHOT (timer_timeouts s ! tid)
         then let tid_tout = TIMER_TIME (timer_timeouts s ! tid)
              in if tout \<ge> tid_tout
                 then let s = s\<lparr>timer_timeouts := (timer_timeouts s)[tid := TIMER_IDLE]\<rparr>
                      in (case timer_descs s ! tid of
                            None \<Rightarrow> Inl Oob
                          | Some timer \<Rightarrow>
                              if type timer \<noteq> TIMER_IRQ
                              then bindR (bh_resume (timer_bh s) s) (timer_irq_loop n tout k (i + 1) run_irq True)
                              else timer_irq_loop n tout k (i + 1) True run_bh s)
                 else timer_irq_loop n tout k (i + 1) run_irq run_bh
                        (s\<lparr>timer_timeouts := (timer_timeouts s)[tid := TIMER_MAKE (s32 (tid_tout - tout))]\<rparr>)
         else timer_irq_loop n tout k (i + 1) run_irq run_bh s)"

definition timer_irq_timeout ::
  "nat \<Rightarrow> nat \<Rightarrow> (nat \<Rightarrow> timer_state \<Rightarrow> timer_state res) \<Rightarrow> u32 \<Rightarrow> timer_state \<Rightarrow> timer_state res" where
  "timer_irq_timeout fuel n tcb now s =
     (if \<not> TIMER_SHOT (timer_timeout s) then Inr s
      else bindR (timer_irq_loop n (TIMER_TIME (timer_timeout s)) n 0 False False s) (\<lambda>(run_irq, run_bh, s).
        bindR (if \<not> run_bh then timer_recalc_timeout n now True s else Inr s) (\<lambda>s.
          if run_irq then timer_run_timeout fuel n tcb TIMER_IRQ s else Inr s)))"

definition tick_handler ::
  "nat \<Rightarrow> nat \<Rightarrow> (nat \<Rightarrow> timer_state \<Rightarrow> timer_state res) \<Rightarrow> u32 \<Rightarrow> timer_state \<Rightarrow> timer_state res" where
  "tick_handler fuel n tcb now s =
     (if timer_unshot_timeout s \<noteq> 0 then Inr (timer_shot_timeout (timer_unshot_timeout s) s)
      else timer_irq_timeout fuel n tcb now s)"

definition timer_bh_handler ::
  "nat \<Rightarrow> nat \<Rightarrow> (nat \<Rightarrow> timer_state \<Rightarrow> timer_state res) \<Rightarrow> u32 \<Rightarrow> u8 \<Rightarrow> timer_state \<Rightarrow> timer_state res" where
  "timer_bh_handler fuel n tcb now event s =
     (if event = BH_WAKEUP
      then bindR (timer_bh_timeout fuel n tcb now s) (\<lambda>s. Inr (timer_restart s))
      else Inr s)"

definition timer_start :: "timer_state \<Rightarrow> timer_state res" where
  "timer_start s = bh_resume (timer_bh s) s"

text \<open>\<open>nbh\<close> is \<open>NR_BHS\<close> and \<open>h\<close> the number under which \<open>timer_bh_handler\<close> is known.\<close>

definition timer_init :: "nat \<Rightarrow> nat \<Rightarrow> nat \<Rightarrow> timer_state \<Rightarrow> timer_state res" where
  "timer_init n nbh h s =
     (if \<not> smp_initialized s then Inl Bug
      else let s = s\<lparr>timer_running_tid := n, timer_timeout := TIMER_IDLE, timer_orders := replicate (n + 1) n\<rparr>
           in bindR (bh_register_handler nbh h s) (\<lambda>(bh, s). timer_start (s\<lparr>timer_bh := bh\<rparr>)))"

section \<open>The queue as a list of timers\<close>

definition queue_rep :: "nat \<Rightarrow> nat list \<Rightarrow> nat list" where
  "queue_rep n ts = ts @ replicate (n + 1 - length ts) n"

definition queue_ok :: "nat \<Rightarrow> nat list \<Rightarrow> bool" where
  "queue_ok n ts \<longleftrightarrow> distinct ts \<and> set ts \<subseteq> {..<n}"

text \<open>What \<open>__timer_add\<close> computes: the timer goes behind all those that are not due later.\<close>

definition timer_insert :: "(nat \<Rightarrow> int) \<Rightarrow> nat \<Rightarrow> nat list \<Rightarrow> nat list" where
  "timer_insert f tid ts =
     rev (dropWhile (\<lambda>t. f t > f tid) (rev ts)) @ [tid] @ rev (takeWhile (\<lambda>t. f t > f tid) (rev ts))"

lemma timer_insert_snoc:
  "timer_insert f tid (xs @ [x]) = (if f x > f tid then timer_insert f tid xs @ [x] else xs @ [x, tid])"
  by (simp add: timer_insert_def)

lemma timer_insert_Nil [simp]: "timer_insert f tid [] = [tid]"
  by (simp add: timer_insert_def)

lemma mset_timer_insert [simp]: "set (timer_insert f tid ts) = insert tid (set ts)"
  by (induction ts rule: rev_induct) (auto simp: timer_insert_snoc)

lemma length_timer_insert [simp]: "length (timer_insert f tid ts) = Suc (length ts)"
  by (induction ts rule: rev_induct) (auto simp: timer_insert_snoc)

lemma distinct_timer_insert [simp]: "distinct (timer_insert f tid ts) \<longleftrightarrow> distinct ts \<and> tid \<notin> set ts"
  by (induction ts rule: rev_induct) (auto simp: timer_insert_snoc)

lemma sorted_timer_insert: "sorted (map f ts) \<Longrightarrow> sorted (map f (timer_insert f tid ts))"
  by (induction ts rule: rev_induct) (auto simp: timer_insert_snoc sorted_append)

lemma queue_ok_length: "queue_ok n ts \<Longrightarrow> length ts \<le> n"
  unfolding queue_ok_def by (metis card_lessThan card_mono distinct_card finite_lessThan)

lemma length_queue_rep: "queue_ok n ts \<Longrightarrow> length (queue_rep n ts) = n + 1"
  using queue_ok_length [of n ts] by (simp add: queue_rep_def)

lemma timer_del_find_absent:
  "length us + k = n \<Longrightarrow> set vs \<subseteq> {..<n} \<Longrightarrow> tid \<notin> set vs \<Longrightarrow> tid < n \<Longrightarrow> length vs \<le> k \<Longrightarrow>
    timer_del_find n tid (us @ vs @ replicate (Suc k - length vs) n) k (length us) =
      (if length vs = k then Some n else None)"
proof (induction k arbitrary: us vs)
  case (Suc k)
  show ?case
  proof (cases vs)
    case Nil
    then show ?thesis by (simp add: nth_append)
  next
    case (Cons v vs')
    have "timer_del_find n tid ((us @ [v]) @ vs' @ replicate (Suc k - length vs') n) k (length (us @ [v])) =
      (if length vs' = k then Some n else None)"
      using Suc.prems Cons by (intro Suc.IH) auto
    then show ?thesis using Suc.prems Cons by (auto simp: nth_append)
  qed
qed simp

lemma timer_del_find_present:
  "tid \<notin> set vs \<Longrightarrow> n \<notin> set vs \<Longrightarrow> tid \<noteq> n \<Longrightarrow> length vs < k \<Longrightarrow>
    timer_del_find n tid (us @ vs @ tid # zs) k (length us) = Some (length us + length vs)"
proof (induction k arbitrary: us vs)
  case (Suc k)
  show ?case
  proof (cases vs)
    case Nil
    then show ?thesis using Suc.prems by (simp add: nth_append)
  next
    case (Cons v vs')
    have "timer_del_find n tid ((us @ [v]) @ vs' @ tid # zs) k (length (us @ [v])) = Some (length (us @ [v]) + length vs')"
      using Suc.prems Cons by (intro Suc.IH) auto
    then show ?thesis using Suc.prems Cons by (auto simp: nth_append)
  qed
qed simp

lemma timer_del_shift_eq:
  "tid \<noteq> n \<Longrightarrow> k \<le> length zs \<Longrightarrow>
    timer_del_shift n k (length us) (us @ tid # zs) = us @ take k zs @ tid # drop k zs"
proof (induction k arbitrary: us zs)
  case (Suc k)
  then obtain z zs' where zs: "zs = z # zs'" by (cases zs) auto
  have "timer_del_shift n k (length (us @ [z])) ((us @ [z]) @ tid # zs') = (us @ [z]) @ take k zs' @ tid # drop k zs'"
    using Suc.prems zs by (intro Suc.IH) auto
  then show ?case using Suc.prems zs by (simp add: nth_append list_update_append)
qed simp

lemma timer_del_rep:
  assumes "queue_ok n ts" "tid < n"
  shows "timer_del n tid (queue_rep n ts) = queue_rep n (remove1 tid ts)"
proof (cases "tid \<in> set ts")
  case False
  have len: "length ts \<le> n" by (rule queue_ok_length [OF assms(1)])
  have "timer_del_find n tid (queue_rep n ts) n 0 = (if length ts = n then Some n else None)"
    using timer_del_find_absent [of "[]" n n ts tid] assms False len by (simp add: queue_rep_def queue_ok_def)
  moreover have "length ts = n \<Longrightarrow> (queue_rep n ts)[n := n] = queue_rep n ts"
    by (simp add: queue_rep_def list_update_append)
  ultimately show ?thesis using False by (auto simp: timer_del_def remove1_idem)
next
  case True
  then obtain us vs where ts: "ts = us @ tid # vs" "tid \<notin> set us" by (metis split_list_first)
  define m where "m = n + 1 - length ts"
  have len: "length us + length vs < n" "m = n - (length us + length vs)"
    using queue_ok_length [OF assms(1)] by (auto simp: m_def ts)
  define zs where "zs = vs @ replicate m n"
  have rep: "queue_rep n ts = us @ tid # zs" by (simp add: queue_rep_def ts zs_def m_def)
  have lz: "length zs = n - length us" using len by (simp add: zs_def)
  have find: "timer_del_find n tid (us @ tid # zs) n 0 = Some (length us)"
    using timer_del_find_present [of tid us n n "[]" zs] ts(2) assms len by (auto simp: ts queue_ok_def)
  let ?k = "n - 1 - length us"
  have le: "length us \<le> n - 1" using len by simp
  have "timer_del n tid (queue_rep n ts) = (us @ take ?k zs @ tid # drop ?k zs)[n - 1 := n]"
  proof -
    have "max (length us) (n - 1) = n - 1" using len by simp
    then show ?thesis using assms(2) lz unfolding rep timer_del_def find
      by (simp add: timer_del_shift_eq)
  qed
  also have "\<dots> = us @ take ?k zs @ n # drop ?k zs"
    using len lz le by (simp add: list_update_append)
  also have "take ?k zs @ n # drop ?k zs = vs @ replicate (Suc m) n"
  proof -
    have "m > 0" using len by simp
    then obtain m' where m': "m = Suc m'" by (blast dest: gr0_implies_Suc)
    then have "?k = length vs + m'" using len by auto
    then show ?thesis using take_replicate [of m' "Suc m'" n] drop_replicate [of m' "Suc m'" n]
      by (simp add: zs_def m' replicate_app_Cons_same)
  qed
  finally show ?thesis using len ts by (simp add: queue_rep_def remove1_append m_def Suc_diff_le)
qed

definition queue_hole :: "nat \<Rightarrow> nat \<Rightarrow> nat list \<Rightarrow> nat list" where
  "queue_hole n k ts = take k ts @ n # drop k ts @ replicate (n - length ts) n"

lemma timer_add_loop_hole:
  assumes ok: "queue_ok n ts" "tid \<notin> set ts" "length ts < n" and "k \<le> length ts"
  shows "timer_add_loop n tid timeouts k (queue_hole n k ts) =
    Inr (queue_rep n (timer_insert (\<lambda>t. TIMER_TIME (timeouts ! t)) tid (take k ts) @ drop k ts))"
  using assms(4)
proof (induction k)
  case 0
  then show ?case using ok by (simp add: queue_hole_def queue_rep_def)
next
  case (Suc k)
  let ?h = "queue_hole n (Suc k) ts" let ?f = "\<lambda>t. TIMER_TIME (timeouts ! t)"
  have t: "?h ! k = ts ! k" using Suc.prems by (simp add: queue_hole_def nth_append)
  have tk: "ts ! k \<in> set ts" using Suc.prems by simp
  then have ne: "ts ! k \<noteq> tid" "ts ! k \<noteq> n" using ok by (auto simp: queue_ok_def)
  have take: "take (Suc k) ts = take k ts @ [ts ! k]" using Suc.prems by (simp add: take_Suc_conv_app_nth)
  have hole: "?h[Suc k := ts ! k, k := n] = queue_hole n k ts"
    using Suc.prems by (simp add: queue_hole_def take list_update_append Cons_nth_drop_Suc [symmetric] del: upt_Suc)
  have put: "?h[Suc k := tid] = queue_rep n (take (Suc k) ts @ [tid] @ drop (Suc k) ts)"
    using Suc.prems ok(3) by (simp add: queue_hole_def queue_rep_def list_update_append)
  show ?case
    using Suc ne ok(3) hole put
    by (simp add: t take timer_insert_snoc Let_def Cons_nth_drop_Suc [symmetric])
qed

lemma queue_rep_hole: "length ts < n \<Longrightarrow> queue_rep n ts = queue_hole n (length ts) ts"
  by (simp add: queue_rep_def queue_hole_def Suc_diff_le)

lemma timer_add_loop_skip:
  assumes "length ts \<le> k" "k \<le> n" "tid < n" "queue_ok n ts" "length ts < n"
  shows "timer_add_loop n tid timeouts k (queue_rep n ts) =
    timer_add_loop n tid timeouts (length ts) (queue_hole n (length ts) ts)"
  using assms(1,2)
proof (induction k)
  case 0
  then show ?case using queue_rep_hole [OF assms(5)] by simp
next
  case (Suc k)
  show ?case
  proof (cases "length ts = Suc k")
    case True
    then show ?thesis using queue_rep_hole [OF assms(5)] by simp
  next
    case False
    then have "queue_rep n ts ! k = n" using Suc.prems by (simp add: queue_rep_def nth_append)
    then show ?thesis using Suc False assms(3) by (simp add: Let_def)
  qed
qed

lemma timer_add_rep:
  assumes "queue_ok n ts" "tid \<notin> set ts" "length ts < n" "tid < n"
  shows "timer_add n tid timeouts (queue_rep n ts) =
    Inr (queue_rep n (timer_insert (\<lambda>t. TIMER_TIME (timeouts ! t)) tid ts))"
  using timer_add_loop_skip [of ts n n tid timeouts] timer_add_loop_hole [of n ts tid "length ts" timeouts] assms
  by (simp add: timer_add_def)

section \<open>Recalculation\<close>

text \<open>How a recalculation by \<open>span\<close> changes one timeout.\<close>

definition timer_adjust :: "bool \<Rightarrow> int \<Rightarrow> int \<Rightarrow> int" where
  "timer_adjust shot span x =
     (if TIMER_SHOT x
      then let tout = s32 (TIMER_TIME x - span) in TIMER_MAKE (if \<not> shot \<and> tout \<le> 0 then 1 else tout)
      else x)"

text \<open>The timeout of the first armed timer of a queue, which the hardware timer is set to.\<close>

fun first_shot :: "(nat \<Rightarrow> int) \<Rightarrow> nat list \<Rightarrow> int \<Rightarrow> int" where
  "first_shot f [] d = d"
| "first_shot f (t # ts) d = (if TIMER_SHOT (f t) then f t else first_shot f ts d)"

lemma TIMER_SHOT_MAKE [simp]: "TIMER_SHOT (TIMER_MAKE t)"
proof -
  have "even (s32 (t * 2))" unfolding s32_def by (simp add: dvd_mod_iff)
  then show ?thesis by (simp add: TIMER_SHOT_def TIMER_MAKE_def mod_2_eq_odd)
qed

lemma TIMER_IDLE_simps [simp]: "\<not> TIMER_SHOT TIMER_IDLE" "TIMER_TIME TIMER_IDLE = 0"
  by (simp_all add: TIMER_SHOT_def TIMER_IDLE_def TIMER_TIME_def)

lemma TIMER_SHOT_adjust [simp]: "TIMER_SHOT (timer_adjust shot span x) = TIMER_SHOT x"
  by (simp add: timer_adjust_def Let_def)

lemma TIMER_TIME_bool [simp]: "TIMER_TIME (of_bool b) = 0"
  by (simp add: TIMER_TIME_def)

lemma timer_recalc_loop_ok:
  assumes "timer_orders s = us @ vs @ replicate m n" "length vs \<le> k" "m > 0 \<or> length vs = k"
    "distinct vs" "set vs \<subseteq> {..<n}" "length (timer_timeouts s) = n"
  shows "\<exists>touts. timer_recalc_loop n shot span k (length us) s =
      Inr (s\<lparr>timer_timeouts := touts,
             timer_timeout := (if TIMER_SHOT (timer_timeout s) then timer_timeout s
               else first_shot (\<lambda>t. touts ! t) vs (timer_timeout s))\<rparr>) \<and>
    length touts = n \<and>
    (\<forall>t. touts ! t = (if t \<in> set vs then timer_adjust shot span (timer_timeouts s ! t) else timer_timeouts s ! t))"
  using assms
proof (induction k arbitrary: us vs s)
  case 0
  then show ?case by (intro exI [of _ "timer_timeouts s"]) simp
next
  case (Suc k)
  show ?case
  proof (cases vs)
    case Nil
    then have "timer_orders s ! length us = n" using Suc.prems by (cases m) auto
    then show ?thesis using Nil Suc.prems by (intro exI [of _ "timer_timeouts s"]) (simp add: Let_def)
  next
    case (Cons v vs')
    define x where "x = timer_adjust shot span (timer_timeouts s ! v)"
    define s1 where "s1 = s\<lparr>timer_timeouts := (timer_timeouts s)[v := x],
      timer_timeout := (if \<not> TIMER_SHOT (timer_timeout s) \<and> TIMER_SHOT x then x else timer_timeout s)\<rparr>"
    have v: "v < n" "v \<notin> set vs'" using Suc.prems Cons by auto
    have at: "timer_orders s ! length us = v" using Suc.prems Cons by simp
    have same: "\<not> TIMER_SHOT (timer_timeouts s ! v) \<Longrightarrow> s1 = s"
      by (simp add: s1_def x_def timer_adjust_def)
    have step: "timer_recalc_loop n shot span (Suc k) (length us) s =
      timer_recalc_loop n shot span k (Suc (length us)) s1"
    proof (cases "TIMER_SHOT (timer_timeouts s ! v)")
      case True
      then have "x = TIMER_MAKE (if \<not> shot \<and> s32 (TIMER_TIME (timer_timeouts s ! v) - span) \<le> 0 then 1
        else s32 (TIMER_TIME (timer_timeouts s ! v) - span))" by (simp add: x_def timer_adjust_def Let_def)
      with True show ?thesis using v Suc.prems(6)
        by (simp add: at Let_def s1_def)
    next
      case False
      then show ?thesis using v same by (simp add: at Let_def)
    qed
    have "\<exists>touts. timer_recalc_loop n shot span k (length (us @ [v])) s1 =
      Inr (s1\<lparr>timer_timeouts := touts,
             timer_timeout := (if TIMER_SHOT (timer_timeout s1) then timer_timeout s1
               else first_shot (\<lambda>t. touts ! t) vs' (timer_timeout s1))\<rparr>) \<and>
      length touts = n \<and>
      (\<forall>t. touts ! t = (if t \<in> set vs' then timer_adjust shot span (timer_timeouts s1 ! t) else timer_timeouts s1 ! t))"
      using Suc.prems Cons by (intro Suc.IH) (auto simp: s1_def)
    then obtain touts where IH: "timer_recalc_loop n shot span k (Suc (length us)) s1 =
      Inr (s1\<lparr>timer_timeouts := touts,
             timer_timeout := (if TIMER_SHOT (timer_timeout s1) then timer_timeout s1
               else first_shot (\<lambda>t. touts ! t) vs' (timer_timeout s1))\<rparr>)"
      "length touts = n"
      "\<And>t. touts ! t = (if t \<in> set vs' then timer_adjust shot span (timer_timeouts s1 ! t) else timer_timeouts s1 ! t)"
      by auto
    have tv: "touts ! v = x" using v Suc.prems(6) by (simp add: IH(3) s1_def)
    show ?thesis unfolding step IH(1)
      using v Suc.prems(6) IH(2) tv
      by (intro exI [of _ touts]) (auto simp: Cons IH(3) s1_def x_def nth_list_update)
  qed
qed

lemma s32_id: "- (2 ^ 31) \<le> x \<Longrightarrow> x < 2 ^ 31 \<Longrightarrow> s32 x = x"
  by (simp add: s32_def)

lemma TIMER_TIME_MAKE: "- (2 ^ 30) \<le> t \<Longrightarrow> t < 2 ^ 30 \<Longrightarrow> TIMER_TIME (TIMER_MAKE t) = t"
  by (simp add: TIMER_TIME_def TIMER_MAKE_def s32_id)

text \<open>
  The state of the timers between two operations: the queue array holds distinct timers followed
  by \<open>INVALID_TID\<close>, ordered by their remaining time; each is idle or has a positive time left.
\<close>

definition timeout_ok :: "int \<Rightarrow> bool" where
  "timeout_ok x \<longleftrightarrow> x = TIMER_IDLE \<or> (\<exists>m. 1 \<le> m \<and> m < 2 ^ 30 \<and> x = TIMER_MAKE m)"

definition timer_queue :: "nat \<Rightarrow> timer_state \<Rightarrow> nat list \<Rightarrow> bool" where
  "timer_queue n s ts \<longleftrightarrow> timer_orders s = queue_rep n ts \<and> queue_ok n ts \<and> length (timer_timeouts s) = n \<and>
     sorted (map (\<lambda>t. TIMER_TIME (timer_timeouts s ! t)) ts) \<and>
     (\<forall>t\<in>set ts. timeout_ok (timer_timeouts s ! t))"





section \<open>The deadline queue interface\<close>

text \<open>
  What the timer operations use of the queue array: its content is a list of timers, deletion
  removes one, and addition puts one behind those that are due no later.
\<close>

locale deadline_queue =
  fixes cap :: nat and rep :: "nat list \<Rightarrow> 'q" and ok :: "nat list \<Rightarrow> bool"
    and del :: "nat \<Rightarrow> 'q \<Rightarrow> 'q" and add :: "nat \<Rightarrow> int list \<Rightarrow> 'q \<Rightarrow> 'q res"
  assumes ok_iff: "ok ts \<longleftrightarrow> distinct ts \<and> set ts \<subseteq> {..<cap}"
    and del_rep: "ok ts \<Longrightarrow> tid < cap \<Longrightarrow> del tid (rep ts) = rep (remove1 tid ts)"
    and add_rep: "ok ts \<Longrightarrow> tid \<notin> set ts \<Longrightarrow> length ts < cap \<Longrightarrow> tid < cap \<Longrightarrow>
      add tid timeouts (rep ts) = Inr (rep (timer_insert (\<lambda>t. TIMER_TIME (timeouts ! t)) tid ts))"
begin

lemma ok_remove1: "ok ts \<Longrightarrow> ok (remove1 tid ts)"
  using set_remove1_subset [of tid ts] by (auto simp: ok_iff)

lemma free_slot: "ok ts \<Longrightarrow> tid < cap \<Longrightarrow> tid \<notin> set ts \<Longrightarrow> length ts < cap"
proof -
  assume "ok ts" "tid < cap" "tid \<notin> set ts"
  then have "set ts \<subset> {..<cap}" "distinct ts" by (auto simp: ok_iff)
  then show ?thesis by (metis card_lessThan distinct_card finite_lessThan psubset_card_mono)
qed

lemma requeue:
  assumes "ok ts" "tid < cap"
  defines "ts' \<equiv> remove1 tid ts" and "f \<equiv> \<lambda>touts t. TIMER_TIME (touts ! t)"
  shows "add tid touts (del tid (rep ts)) = Inr (rep (timer_insert (f touts) tid ts')) \<and>
    ok (timer_insert (f touts) tid ts') \<and>
    (sorted (map (f touts) ts') \<longrightarrow> sorted (map (f touts) (timer_insert (f touts) tid ts')))"
proof -
  have ok': "ok ts'" unfolding ts'_def by (rule ok_remove1 [OF assms(1)])
  have new: "tid \<notin> set ts'" using assms(1) by (simp add: ts'_def ok_iff)
  then have "length ts' < cap" by (rule free_slot [OF ok' assms(2)])
  with ok' new show ?thesis using assms(1,2) add_rep [OF ok' new _ assms(2), of touts]
    by (auto simp: del_rep ts'_def [symmetric] f_def ok_iff sorted_timer_insert)
qed

end

interpretation tq: deadline_queue n "queue_rep n" "queue_ok n" "timer_del n" "timer_add n" for n
  by unfold_locales (auto simp: queue_ok_def timer_del_rep timer_add_rep)

section \<open>Arming\<close>




lemma timer_restart_simps [simp]:
  "timer_orders (timer_restart s) = timer_orders s" "timer_timeouts (timer_restart s) = timer_timeouts s"
  "timer_timeout (timer_restart s) = timer_timeout s" "timer_descs (timer_restart s) = timer_descs s"
  by (simp_all add: timer_restart_def timer_shot_timeout_def Let_def)

lemma timer_queue_restart [simp]: "timer_queue n (timer_restart s) ts = timer_queue n s ts"
  by (simp add: timer_queue_def)

lemma timer_queue_timeout [simp]: "timer_queue n (s\<lparr>timer_timeout := x\<rparr>) ts = timer_queue n s ts"
  by (simp add: timer_queue_def)


lemma timeout_ok_MAKE: "1 \<le> m \<Longrightarrow> m < 2 ^ 30 \<Longrightarrow> timeout_ok (TIMER_MAKE m)"
  by (auto simp: timeout_ok_def)






section \<open>Expiry\<close>

definition timer_expire :: "int \<Rightarrow> int \<Rightarrow> int" where
  "timer_expire tout x =
     (if TIMER_SHOT x then if tout \<ge> TIMER_TIME x then TIMER_IDLE else TIMER_MAKE (s32 (TIMER_TIME x - tout)) else x)"

definition irq_timer :: "timer_state \<Rightarrow> nat \<Rightarrow> bool" where
  "irq_timer s t \<longleftrightarrow> (\<exists>h. timer_descs s ! t = Some \<lparr>type = TIMER_IRQ, handler = Some h\<rparr>)"

lemma timer_irq_loop_ok:
  assumes "timer_orders s = us @ vs @ replicate m n" "length vs \<le> k" "m > 0 \<or> length vs = k"
    "distinct vs" "set vs \<subseteq> {..<n}" "length (timer_timeouts s) = n" "\<forall>t\<in>set vs. irq_timer s t"
  shows "\<exists>touts ri'. timer_irq_loop n tout k (length us) ri rb s = Inr (ri', rb, s\<lparr>timer_timeouts := touts\<rparr>) \<and>
    (ri' \<longleftrightarrow> ri \<or> (\<exists>t\<in>set vs. TIMER_SHOT (timer_timeouts s ! t) \<and> TIMER_TIME (timer_timeouts s ! t) \<le> tout)) \<and>
    length touts = n \<and>
    (\<forall>t. touts ! t = (if t \<in> set vs then timer_expire tout (timer_timeouts s ! t) else timer_timeouts s ! t))"
  using assms
proof (induction k arbitrary: us vs s ri)
  case 0
  then show ?case by (intro exI [of _ "timer_timeouts s"]) simp
next
  case (Suc k)
  show ?case
  proof (cases vs)
    case Nil
    then have "timer_orders s ! length us = n" using Suc.prems by (cases m) auto
    then show ?thesis using Nil Suc.prems by (intro exI [of _ "timer_timeouts s"]) (simp add: Let_def)
  next
    case (Cons v vs')
    let ?x = "timer_timeouts s ! v"
    define s1 where "s1 = s\<lparr>timer_timeouts := (timer_timeouts s)[v := timer_expire tout ?x]\<rparr>"
    define r1 where "r1 = (ri \<or> TIMER_SHOT ?x \<and> TIMER_TIME ?x \<le> tout)"
    have v: "v < n" "v \<notin> set vs'" "irq_timer s v" using Suc.prems Cons by auto
    have at: "timer_orders s ! length us = v" using Suc.prems Cons by simp
    have same: "\<not> TIMER_SHOT ?x \<Longrightarrow> s1 = s" by (simp add: s1_def timer_expire_def)
    have step: "timer_irq_loop n tout (Suc k) (length us) ri rb s = timer_irq_loop n tout k (Suc (length us)) r1 rb s1"
      using v same by (auto simp: at Let_def s1_def r1_def timer_expire_def irq_timer_def)
    have "\<exists>touts ri'. timer_irq_loop n tout k (length (us @ [v])) r1 rb s1 = Inr (ri', rb, s1\<lparr>timer_timeouts := touts\<rparr>) \<and>
      (ri' \<longleftrightarrow> r1 \<or> (\<exists>t\<in>set vs'. TIMER_SHOT (timer_timeouts s1 ! t) \<and> TIMER_TIME (timer_timeouts s1 ! t) \<le> tout)) \<and>
      length touts = n \<and>
      (\<forall>t. touts ! t = (if t \<in> set vs' then timer_expire tout (timer_timeouts s1 ! t) else timer_timeouts s1 ! t))"
      using Suc.prems Cons by (intro Suc.IH) (auto simp: s1_def irq_timer_def)
    then obtain touts ri' where IH: "timer_irq_loop n tout k (Suc (length us)) r1 rb s1 = Inr (ri', rb, s1\<lparr>timer_timeouts := touts\<rparr>)"
      "ri' \<longleftrightarrow> r1 \<or> (\<exists>t\<in>set vs'. TIMER_SHOT (timer_timeouts s1 ! t) \<and> TIMER_TIME (timer_timeouts s1 ! t) \<le> tout)"
      "length touts = n"
      "\<And>t. touts ! t = (if t \<in> set vs' then timer_expire tout (timer_timeouts s1 ! t) else timer_timeouts s1 ! t)"
      by auto
    have s1: "timer_timeouts s1 ! t = timer_timeouts s ! t" if "t \<in> set vs'" for t
      using that v(2) by (metis nth_list_update_neq s1_def timer_state.select_convs(2) timer_state.surjective timer_state.update_convs(2))
    have "ri' \<longleftrightarrow> ri \<or> (\<exists>t\<in>set vs. TIMER_SHOT (timer_timeouts s ! t) \<and> TIMER_TIME (timer_timeouts s ! t) \<le> tout)"
      using IH(2) s1 by (auto simp: r1_def Cons)
    moreover have "touts ! t = (if t \<in> set vs then timer_expire tout (timer_timeouts s ! t) else timer_timeouts s ! t)" for t
      using v Suc.prems(6) unfolding IH(4) by (auto simp: Cons s1_def nth_list_update)
    ultimately show ?thesis unfolding step IH(1) using IH(3)
      by (intro exI [of _ touts] exI [of _ ri']) (simp add: s1_def)
  qed
qed

text \<open>The loop that runs the expired timers, for handlers that leave the timers alone.\<close>

lemma timer_run_timeout_ok:
  assumes "timer_orders s = queue_rep n (es @ ps)" "queue_ok n (es @ ps)"
    "\<forall>t\<in>set es. timer_timeouts s ! t = TIMER_IDLE \<and> irq_timer s t"
    "ps \<noteq> [] \<longrightarrow> timer_timeouts s ! hd ps \<noteq> TIMER_IDLE" "\<And>h s. tcb h s = Inr s" "length es < fuel"
  shows "\<exists>r. timer_run_timeout fuel n tcb TIMER_IRQ s = Inr (s\<lparr>timer_orders := queue_rep n ps, timer_running_tid := r\<rparr>)"
  using assms
proof (induction es arbitrary: s fuel)
  case Nil
  then obtain f where f: "fuel = Suc f" by (cases fuel) auto
  have "timer_orders s ! 0 = (if ps = [] then n else hd ps)"
    using Nil.prems(1) by (cases ps) (auto simp: queue_rep_def)
  then have "timer_run_timeout fuel n tcb TIMER_IRQ s = Inr s" using Nil.prems(4) by (simp add: f Let_def)
  then show ?case using Nil.prems(1) by (intro exI [of _ "timer_running_tid s"]) simp
next
  case (Cons e es)
  then obtain f where f: "fuel = Suc f" by (cases fuel) auto
  let ?s = "s\<lparr>timer_orders := queue_rep n (es @ ps), timer_running_tid := n\<rparr>"
  have e: "e < n" "timer_orders s ! 0 = e" using Cons.prems(1,2) by (auto simp: queue_rep_def queue_ok_def)
  obtain h where h: "timer_descs s ! e = Some \<lparr>type = TIMER_IRQ, handler = Some h\<rparr>"
    using Cons.prems(3) by (auto simp: irq_timer_def)
  have "timer_del n e (timer_orders s) = queue_rep n (es @ ps)"
    using tq.del_rep [OF Cons.prems(2) e(1)] by (simp add: Cons.prems(1))
  then have "timer_run_timeout fuel n tcb TIMER_IRQ s = timer_run_timeout f n tcb TIMER_IRQ ?s"
    using Cons.prems(3,5) e h by (simp add: f Let_def timer_run_def)
  moreover have "\<exists>r. timer_run_timeout f n tcb TIMER_IRQ ?s = Inr (?s\<lparr>timer_orders := queue_rep n ps, timer_running_tid := r\<rparr>)"
    using Cons.prems f by (intro Cons.IH) (auto simp: queue_ok_def irq_timer_def)
  ultimately show ?case by auto
qed

lemma timer_recalc_shot:
  assumes "timer_orders s = queue_rep n ts" "queue_ok n ts" "length (timer_timeouts s) = n"
  obtains touts d where "timer_recalc n now True s = Inr (s\<lparr>timer_last_tick := now, timer_timeouts := touts, timer_timeout := d\<rparr>)"
    "length touts = n"
    "\<forall>t\<in>set ts. touts ! t = timer_adjust True (TIMER_TIME (timer_timeout s)) (timer_timeouts s ! t)"
proof -
  let ?s = "s\<lparr>timer_last_tick := now, timer_timeout := TIMER_IDLE\<rparr>"
  have "\<exists>touts. timer_recalc_loop n True (TIMER_TIME (timer_timeout s)) n (length ([] :: nat list)) ?s =
      Inr (?s\<lparr>timer_timeouts := touts, timer_timeout := (if TIMER_SHOT (timer_timeout ?s) then timer_timeout ?s
        else first_shot (\<lambda>t. touts ! t) ts (timer_timeout ?s))\<rparr>) \<and> length touts = n \<and>
    (\<forall>t. touts ! t = (if t \<in> set ts then timer_adjust True (TIMER_TIME (timer_timeout s)) (timer_timeouts ?s ! t) else timer_timeouts ?s ! t))"
    by (rule timer_recalc_loop_ok [of ?s "[]" ts "n + 1 - length ts" n n])
      (use assms queue_ok_length [OF assms(2)] in \<open>auto simp: queue_rep_def queue_ok_def\<close>)
  then show ?thesis using that by (auto simp: timer_recalc_def)
qed

lemma timer_run_expired:
  assumes ts: "timer_orders s = queue_rep n ts" "queue_ok n ts" "\<forall>t\<in>set ts. irq_timer s t"
    and sorted: "sorted (map f ts)"
    and idle: "\<forall>t\<in>set ts. timer_timeouts s ! t = TIMER_IDLE \<longleftrightarrow> f t \<le> tout"
    and tcb: "\<And>h s. tcb h s = Inr s" and fuel: "length ts < fuel"
  shows "\<exists>r q. timer_run_timeout fuel n tcb TIMER_IRQ s = Inr (s\<lparr>timer_orders := q, timer_running_tid := r\<rparr>)"
proof -
  define es ps where "es = takeWhile (\<lambda>t. f t \<le> tout) ts" and "ps = dropWhile (\<lambda>t. f t \<le> tout) ts"
  have split: "ts = es @ ps" by (simp add: es_def ps_def)
  have "f (hd ps) > tout" if "ps \<noteq> []" using that hd_dropWhile [of "\<lambda>t. f t \<le> tout" ts] by (simp add: ps_def)
  then have hd: "ps \<noteq> [] \<longrightarrow> timer_timeouts s ! hd ps \<noteq> TIMER_IDLE" using idle by (auto simp: split not_le)
  have es: "\<forall>t\<in>set es. timer_timeouts s ! t = TIMER_IDLE \<and> irq_timer s t"
    using idle ts(3) set_takeWhileD [of _ "\<lambda>t. f t \<le> tout" ts] by (auto simp: es_def)
  have "length es < fuel" using fuel by (simp add: split)
  from timer_run_timeout_ok [of s n es ps tcb fuel, OF _ _ es hd tcb this] ts split show ?thesis by auto
qed

lemma TIMER_MAKE_neq_IDLE [simp]: "TIMER_MAKE t \<noteq> TIMER_IDLE"
  by (metis TIMER_SHOT_MAKE TIMER_IDLE_simps(1))

lemma timer_adjust_idle_iff [simp]: "timer_adjust shot span x = TIMER_IDLE \<longleftrightarrow> x = TIMER_IDLE"
  by (auto simp: timer_adjust_def Let_def)

lemma timer_expire_idle_iff:
  "timeout_ok x \<Longrightarrow> 0 \<le> tout \<Longrightarrow> timer_expire tout x = TIMER_IDLE \<longleftrightarrow> TIMER_TIME x \<le> tout"
  by (auto simp: timer_expire_def timeout_ok_def)

lemma timer_irq_twice:
  assumes q: "timer_queue n s ts" "\<forall>t\<in>set ts. irq_timer s t" "TIMER_SHOT (timer_timeout s)"
    and T: "T = TIMER_TIME (timer_timeout s)" "0 \<le> T" "T < 2 ^ 29"
    and tcb: "\<And>h s. tcb h s = Inr s" and fuel: "length ts < fuel"
    and t: "t \<in> set ts" "timer_timeouts s ! t = TIMER_MAKE m" "T < m" "m < 2 ^ 30"
  shows "\<exists>s'. timer_irq_timeout fuel n tcb now s = Inr s' \<and> TIMER_TIME (timer_timeouts s' ! t) = m - 2 * T"
proof -
  have len: "length (timer_timeouts s) = n" and ok: "queue_ok n ts" and ords: "timer_orders s = queue_rep n ts"
    and srt: "sorted (map (\<lambda>t. TIMER_TIME (timer_timeouts s ! t)) ts)" and tok: "\<forall>t\<in>set ts. timeout_ok (timer_timeouts s ! t)"
    using q(1) by (auto simp: timer_queue_def)
  obtain touts ri where loop: "timer_irq_loop n T n 0 False False s = Inr (ri, False, s\<lparr>timer_timeouts := touts\<rparr>)"
    "length touts = n" "\<forall>t. touts ! t = (if t \<in> set ts then timer_expire T (timer_timeouts s ! t) else timer_timeouts s ! t)"
    using timer_irq_loop_ok [of s "[]" ts "n + 1 - length ts" n n T False False] ords ok queue_ok_length [OF ok] len q(2)
    by (auto simp: queue_rep_def queue_ok_def)
  let ?s = "s\<lparr>timer_timeouts := touts\<rparr>"
  obtain touts' d where rec: "timer_recalc n now True ?s = Inr (?s\<lparr>timer_last_tick := now, timer_timeouts := touts', timer_timeout := d\<rparr>)"
    "length touts' = n" "\<forall>t\<in>set ts. touts' ! t = timer_adjust True (TIMER_TIME (timer_timeout ?s)) (timer_timeouts ?s ! t)"
    by (rule timer_recalc_shot [of ?s n ts now]) (use ords ok loop(2) in auto)
  define s2 where "s2 = timer_restart (?s\<lparr>timer_last_tick := now, timer_timeouts := touts', timer_timeout := d\<rparr>)"
  have touts': "touts' ! t = timer_adjust True T (timer_expire T (timer_timeouts s ! t))" if "t \<in> set ts" for t
    using rec(3) loop(3) that T(1) by simp
  have irq: "timer_irq_timeout fuel n tcb now s = (if ri then timer_run_timeout fuel n tcb TIMER_IRQ s2 else Inr s2)"
    using q(3) loop(1) rec(1) by (simp add: timer_irq_timeout_def timer_recalc_timeout_def T(1) [symmetric] s2_def)
  have val: "TIMER_TIME (touts' ! t) = m - 2 * T"
  proof -
    have "s32 (m - T) = m - T" "s32 (m - T - T) = m - T - T" using t T by (auto intro!: s32_id)
    moreover have "- (2 ^ 30) \<le> m - T" "m - T < 2 ^ 30" "- (2 ^ 30) \<le> m - T - T" "m - T - T < 2 ^ 30" using t T by auto
    ultimately show ?thesis using t T by (simp add: touts' timer_expire_def timer_adjust_def TIMER_TIME_MAKE)
  qed
  have "\<exists>r q. timer_run_timeout fuel n tcb TIMER_IRQ s2 = Inr (s2\<lparr>timer_orders := q, timer_running_tid := r\<rparr>)"
  proof (rule timer_run_expired [OF _ ok _ srt _ tcb fuel, where tout = T])
    show "\<forall>t\<in>set ts. timer_timeouts s2 ! t = TIMER_IDLE \<longleftrightarrow> TIMER_TIME (timer_timeouts s ! t) \<le> T"
      using tok T(2) by (simp add: s2_def touts' timer_expire_idle_iff)
  qed (use ords q(2) in \<open>simp_all add: s2_def irq_timer_def\<close>)
  then show ?thesis unfolding irq using val by (auto simp: s2_def)
qed

text \<open>
  A timer of bottom half type that is due at the head of the queue stops the loop from making
  progress in interrupt context: it is neither run nor skipped.
\<close>

lemma timer_run_timeout_stuck:
  assumes "timer_orders s ! 0 = tid" "tid \<noteq> n" "timer_timeouts s ! tid = TIMER_IDLE"
    "timer_descs s ! tid = Some d" "type d = TIMER_BH"
  shows "timer_run_timeout fuel n tcb TIMER_IRQ s = Inl Stuck"
  using assms by (induction fuel) (simp_all add: Let_def)

section \<open>Properties\<close>

text \<open>
  C8: The queue array refines a list of timers: \<open>__timer_del\<close> removes a timer, whether queued
  or not, and \<open>__timer_add\<close> puts one behind all timers that are due no later, without running
  into any of its \<open>BUG_ON\<close>; a sorted queue stays sorted.
\<close>

theorem timer_queue_refines:
  assumes "queue_ok n ts" and "tid < n"
  shows "timer_del n tid (queue_rep n ts) = queue_rep n (remove1 tid ts) \<and>
    timer_add n tid touts (queue_rep n (remove1 tid ts)) =
      Inr (queue_rep n (timer_insert (\<lambda>t. TIMER_TIME (touts ! t)) tid (remove1 tid ts))) \<and>
    (sorted (map (\<lambda>t. TIMER_TIME (touts ! t)) (remove1 tid ts)) \<longrightarrow>
      sorted (map (\<lambda>t. TIMER_TIME (touts ! t)) (timer_insert (\<lambda>t. TIMER_TIME (touts ! t)) tid (remove1 tid ts))))"
  using tq.requeue [OF assms, of touts] tq.del_rep [OF assms] by simp

theorem timer_queue_refines_witness:
  "timer_del 3 1 [2, 1, 3, 3] = queue_rep 3 (remove1 1 [2, 1])"
  using timer_queue_refines [of 3 "[2, 1]" 1 "[0, 0, 0]"] by (simp add: queue_ok_def queue_rep_def numeral_eq_Suc)

definition timer_demo :: timer_state where
  "timer_demo = \<lparr>smp_initialized = True, bh_awakes = [0], bh_entries = [Some 0, None], bh_nr_regs = 1,
     irq_poll_regs = [0], irq_is_polling = False, irq_on = True, bh_ran = [],
     timer_descs = [None, None, None], timer_timeouts = [0, 0, 0], timer_regs = [0], timer_bh = 0,
     timer_running_tid = 3, timer_orders = [3, 3, 3, 3], timer_last_tick = 0, timer_timeout = 0,
     timer_unshot_timeout = 0, gpt_shots = []\<rparr>"

definition timer_demo_armed :: timer_state where
  "timer_demo_armed = timer_demo\<lparr>
     timer_descs := [Some \<lparr>type = TIMER_IRQ, handler = Some 0\<rparr>, Some \<lparr>type = TIMER_IRQ, handler = Some 0\<rparr>, None],
     timer_timeouts := [21, 51, 0], timer_orders := [0, 1, 3, 3], timer_timeout := 21\<rparr>"

lemma timer_demo_queue: "timer_queue 3 timer_demo_armed [0, 1]"
proof -
  have "timeout_ok 21" "timeout_ok 51"
    using timeout_ok_MAKE [of 10] timeout_ok_MAKE [of 25] by (simp_all add: TIMER_MAKE_def s32_def)
  then show ?thesis
    by (simp add: timer_queue_def timer_demo_armed_def timer_demo_def queue_rep_def queue_ok_def TIMER_TIME_def numeral_2_eq_2)
qed



text \<open>
  The timer interrupt takes the elapsed time \<open>T\<close> off a pending timer twice, once in
  \<open>timer_irq_timeout\<close> and once in \<open>__timer_recalc_timeout\<close>: a timer with \<open>m\<close> ticks left when the
  interrupt was armed for \<open>T\<close> ticks has \<open>m - 2 * T\<close> left after it, not \<open>m - T\<close>.
\<close>

theorem timer_irq_elapses_twice:
  assumes "timer_queue n s ts" and "\<forall>t\<in>set ts. irq_timer s t" and "TIMER_SHOT (timer_timeout s)"
    and "0 \<le> TIMER_TIME (timer_timeout s)" and "TIMER_TIME (timer_timeout s) < 2 ^ 29"
    and "\<And>h s. tcb h s = Inr s" and "length ts < fuel"
    and "t \<in> set ts" and "timer_timeouts s ! t = TIMER_MAKE m" and "TIMER_TIME (timer_timeout s) < m" and "m < 2 ^ 30"
  shows "\<exists>s'. timer_irq_timeout fuel n tcb now s = Inr s' \<and>
    TIMER_TIME (timer_timeouts s' ! t) = m - 2 * TIMER_TIME (timer_timeout s)"
  by (rule timer_irq_twice [OF assms(1-3) refl assms(4-11)])

theorem timer_irq_elapses_twice_witness:
  "\<exists>s'. timer_irq_timeout 9 3 (\<lambda>h s. Inr s) 10 timer_demo_armed = Inr s' \<and> TIMER_TIME (timer_timeouts s' ! 1) = 25 - 2 * 10"
  using timer_irq_elapses_twice [OF timer_demo_queue, of "\<lambda>h s. Inr s" 9 1 25 10]
  by (simp add: timer_demo_armed_def timer_demo_def irq_timer_def TIMER_SHOT_def TIMER_TIME_def TIMER_MAKE_def s32_def)

definition timer_demo_two :: timer_state where
  "timer_demo_two = timer_demo\<lparr>
     timer_descs := [Some \<lparr>type = TIMER_BH, handler = Some 0\<rparr>, Some \<lparr>type = TIMER_IRQ, handler = Some 1\<rparr>, None],
     timer_timeouts := [21, 21, 0], timer_regs := [3], timer_running_tid := 1, timer_orders := [0, 1, 3, 3],
     timer_timeout := 21, gpt_shots := [10, 10]\<rparr>"

text \<open>
  When a bottom half timer and an interrupt timer, armed for the same time in this order,
  come due together, the timer interrupt never returns: \<open>timer_run_timeout(TIMER_IRQ)\<close> finds the
  bottom half timer at the head of the queue and loops, whatever the fuel and the handlers.
\<close>

theorem timer_irq_hangs:
  "\<exists>s. bindR (timer_register 3 \<lparr>type = TIMER_BH, handler = Some 0\<rparr> timer_demo) (\<lambda>(a, s).
       bindR (timer_register 3 \<lparr>type = TIMER_IRQ, handler = Some 1\<rparr> s) (\<lambda>(b, s).
       bindR (timer_schedule_shot 3 0 a 10 s) (timer_schedule_shot 3 0 b 10))) = Inr s \<and>
     tick_handler fuel 3 tcb 10 s = Inl Stuck"
proof (intro exI conjI)
  show "bindR (timer_register 3 \<lparr>type = TIMER_BH, handler = Some 0\<rparr> timer_demo) (\<lambda>(a, s).
       bindR (timer_register 3 \<lparr>type = TIMER_IRQ, handler = Some 1\<rparr> s) (\<lambda>(b, s).
       bindR (timer_schedule_shot 3 0 a 10 s) (timer_schedule_shot 3 0 b 10))) = Inr timer_demo_two"
    by code_simp
  define s2 where "s2 = timer_demo_two\<lparr>timer_timeouts := [0, 0, 0], bh_awakes := [1]\<rparr>"
  have "timer_irq_loop 3 10 3 0 False False timer_demo_two = Inr (True, True, s2)"
    unfolding s2_def by code_simp
  moreover have "timer_run_timeout fuel 3 tcb TIMER_IRQ s2 = Inl Stuck"
    by (rule timer_run_timeout_stuck [where tid = 0 and d = "\<lparr>type = TIMER_BH, handler = Some 0\<rparr>"]) (simp_all add: s2_def timer_demo_two_def TIMER_IDLE_def)
  moreover have "timer_unshot_timeout timer_demo_two = 0" "timer_timeout timer_demo_two = 21"
    "TIMER_SHOT 21" "TIMER_TIME 21 = 10"
    by (simp_all add: timer_demo_two_def timer_demo_def TIMER_SHOT_def TIMER_TIME_def)
  ultimately show "tick_handler fuel 3 tcb 10 timer_demo_two = Inl Stuck"
    by (simp add: tick_handler_def timer_irq_timeout_def)
qed

text \<open>
  Registration gives the smallest free timer number and an idle timer with the given
  descriptor, or stops when all \<open>NR_TIMERS\<close> are taken; unregistering the running timer removes
  it from the queue and frees its number again.
\<close>

theorem timer_register_unregister:
  assumes "smp_initialized s" and "n \<le> 64 * length (timer_regs s)" and "length (timer_descs s) = n"
    and "timer_queue n s ts"
  shows "(if \<forall>i<n. bm_test (timer_regs s) i then timer_register n d s = Inl Bug
     else \<exists>tid s'. timer_register n d s = Inr (tid, s') \<and> tid < n \<and> \<not> bm_test (timer_regs s) tid \<and>
       (\<forall>i<tid. bm_test (timer_regs s) i) \<and> bm_test (timer_regs s') = (bm_test (timer_regs s))(tid := True) \<and>
       timer_descs s' ! tid = Some d \<and> timer_timeouts s' ! tid = TIMER_IDLE \<and>
       (\<exists>s''. timer_unregister n tid s' = Inr s'' \<and> bm_test (timer_regs s'') = bm_test (timer_regs s) \<and>
         timer_orders s'' = queue_rep n (remove1 tid ts) \<and> timer_descs s'' ! tid = None))"
proof (cases rule: bm.alloc_first [OF assms(2), case_names full free])
  case full
  then show ?thesis using assms(1) by (simp add: timer_register_def)
next
  case (free tid m)
  then have "tid < 64 * length m" using assms(2) by simp
  then obtain m' where m': "clear_bit tid m = Inr m'" "bm_test m' = (bm_test m)(tid := False)"
    using bm.clear_ok by blast
  have "bm_test m' = bm_test (timer_regs s)" using m'(2) free by (auto simp: fun_eq_iff)
  moreover have "timer_orders s = queue_rep n ts" "queue_ok n ts" "length (timer_timeouts s) = n"
    using assms(4) by (auto simp: timer_queue_def)
  ultimately show ?thesis
    using free assms(1,3) m'(1) tq.del_rep by (auto simp: timer_register_def timer_unregister_def)
qed

theorem timer_register_unregister_witness:
  "\<exists>tid s'. timer_register 3 \<lparr>type = TIMER_IRQ, handler = Some 0\<rparr> (timer_demo_armed\<lparr>timer_regs := [3]\<rparr>) = Inr (tid, s') \<and>
     \<not> bm_test [3] tid"
proof -
  let ?s = "timer_demo_armed\<lparr>timer_regs := [3]\<rparr>"
  have pre: "smp_initialized ?s" "3 \<le> 64 * length (timer_regs ?s)" "length (timer_descs ?s) = 3"
    by (simp_all add: timer_demo_armed_def timer_demo_def)
  have q: "timer_queue 3 ?s [0, 1]" using timer_demo_queue by (simp add: timer_queue_def)
  have "\<not> bm_test (timer_regs ?s) 2" "(2::nat) < 3" by code_simp+
  then have "\<not> (\<forall>i<3. bm_test (timer_regs ?s) i)" by blast
  with timer_register_unregister [OF pre q, of "\<lparr>type = TIMER_IRQ, handler = Some 0\<rparr>"]
  show ?thesis by (simp only: if_False) auto
qed

end
