(* ===== verification/Sbi_Fifo.thy ===== *)
theory Sbi_Fifo
  imports Prelude
begin

text \<open>
  The bounded ring buffer of \<open>arch/riscv/sbi/sbi_fifo.c\<close>, through which harts pass each other
  remote fence requests. The queue memory is a list of entries; \<open>'e\<close> is the entry type, and the
  zero entry, which \<open>memset\<close> leaves, is an argument. The spinlock only serialises the operations.
\<close>

section \<open>Model\<close>

record 'e sbi_fifo =
  queue :: "'e list"
  num_entries :: nat
  avail :: nat
  tail :: nat

datatype fifo_update = SBI_FIFO_SKIP | SBI_FIFO_UPDATED | SBI_FIFO_UNCHANGED

definition sbi_fifo_init :: "'e \<Rightarrow> nat \<Rightarrow> 'e sbi_fifo" where
  "sbi_fifo_init z entries = \<lparr>queue = replicate entries z, num_entries = entries, avail = 0, tail = 0\<rparr>"

definition fifo_is_full :: "'e sbi_fifo \<Rightarrow> bool" where
  "fifo_is_full f \<longleftrightarrow> avail f = num_entries f"

definition fifo_is_empty :: "'e sbi_fifo \<Rightarrow> bool" where
  "fifo_is_empty f \<longleftrightarrow> avail f = 0"

text \<open>A null pointer for the fifo, or for the data, is \<open>None\<close>.\<close>

definition sbi_fifo_avail :: "'e sbi_fifo option \<Rightarrow> nat" where
  "sbi_fifo_avail fo = (case fo of None \<Rightarrow> 0 | Some f \<Rightarrow> avail f)"

definition sbi_fifo_is_full :: "'e sbi_fifo \<Rightarrow> bool" where
  "sbi_fifo_is_full f = fifo_is_full f"

definition sbi_fifo_is_empty :: "'e sbi_fifo \<Rightarrow> bool" where
  "sbi_fifo_is_empty f = fifo_is_empty f"

definition fifo_enqueue :: "'e \<Rightarrow> 'e sbi_fifo \<Rightarrow> 'e sbi_fifo" where
  "fifo_enqueue d f =
     (let head = tail f + avail f;
          head = (if head \<ge> num_entries f then head - num_entries f else head)
      in f\<lparr>queue := (queue f)[head := d], avail := avail f + 1\<rparr>)"

definition fifo_reset :: "'e \<Rightarrow> 'e sbi_fifo \<Rightarrow> 'e sbi_fifo" where
  "fifo_reset z f = f\<lparr>avail := 0, tail := 0, queue := replicate (num_entries f) z\<rparr>"

definition sbi_fifo_reset :: "'e \<Rightarrow> 'e sbi_fifo option \<Rightarrow> bool \<times> 'e sbi_fifo option" where
  "sbi_fifo_reset z fo = (case fo of None \<Rightarrow> (False, None) | Some f \<Rightarrow> (True, Some (fifo_reset z f)))"

text \<open>The loop of \<open>sbi_fifo_inplace_update\<close>, at entry \<open>i\<close> with \<open>k\<close> entries left.\<close>

fun fifo_update_loop ::
  "('e \<Rightarrow> 'e \<Rightarrow> fifo_update \<times> 'e) \<Rightarrow> 'e \<Rightarrow> nat \<Rightarrow> nat \<Rightarrow> fifo_update \<Rightarrow> 'e sbi_fifo \<Rightarrow> fifo_update \<times> 'e sbi_fifo" where
  "fifo_update_loop fptr inp 0 i ret f = (ret, f)"
| "fifo_update_loop fptr inp (Suc k) i ret f =
     (let index = tail f + i;
          index = (if index \<ge> num_entries f then index - num_entries f else index);
          (ret, entry) = fptr inp (queue f ! index);
          f = f\<lparr>queue := (queue f)[index := entry]\<rparr>
      in if ret = SBI_FIFO_SKIP \<or> ret = SBI_FIFO_UPDATED then (ret, f)
         else fifo_update_loop fptr inp k (i + 1) ret f)"

definition sbi_fifo_inplace_update ::
  "('e \<Rightarrow> 'e \<Rightarrow> fifo_update \<times> 'e) \<Rightarrow> 'e option \<Rightarrow> 'e sbi_fifo option \<Rightarrow> fifo_update \<times> 'e sbi_fifo option" where
  "sbi_fifo_inplace_update fptr io fo =
     (case (io, fo) of
        (Some inp, Some f) \<Rightarrow>
          if fifo_is_empty f then (SBI_FIFO_UNCHANGED, fo)
          else (let (ret, f') = fifo_update_loop fptr inp (avail f) 0 SBI_FIFO_UNCHANGED f in (ret, Some f'))
      | _ \<Rightarrow> (SBI_FIFO_UNCHANGED, fo))"

definition sbi_fifo_enqueue :: "'e option \<Rightarrow> 'e sbi_fifo option \<Rightarrow> int \<times> 'e sbi_fifo option" where
  "sbi_fifo_enqueue do fo =
     (case (do, fo) of
        (Some d, Some f) \<Rightarrow> if fifo_is_full f then (- ENOSPC, fo) else (0, Some (fifo_enqueue d f))
      | _ \<Rightarrow> (- EINVAL, fo))"

text \<open>The dequeued entry is what is copied to \<open>data\<close>; \<open>out\<close> tells whether \<open>data\<close> is a pointer.\<close>

definition sbi_fifo_dequeue :: "bool \<Rightarrow> 'e sbi_fifo option \<Rightarrow> int \<times> 'e option \<times> 'e sbi_fifo option" where
  "sbi_fifo_dequeue out fo =
     (case fo of
        Some f \<Rightarrow>
          if \<not> out then (- EINVAL, None, fo)
          else if fifo_is_empty f then (- ENOENT, None, fo)
          else (0, Some (queue f ! tail f),
                Some (f\<lparr>avail := avail f - 1, tail := (if tail f + 1 \<ge> num_entries f then 0 else tail f + 1)\<rparr>))
      | None \<Rightarrow> (- EINVAL, None, None))"

section \<open>Invariant and abstraction\<close>

definition fifo_inv :: "'e sbi_fifo \<Rightarrow> bool" where
  "fifo_inv f \<longleftrightarrow> length (queue f) = num_entries f \<and> avail f \<le> num_entries f \<and>
     (if num_entries f = 0 then tail f = 0 else tail f < num_entries f)"

definition fifo_list :: "'e sbi_fifo \<Rightarrow> 'e list" where
  "fifo_list f = map (\<lambda>i. queue f ! ((tail f + i) mod num_entries f)) [0..<avail f]"

lemma wrap_mod: "a < n \<Longrightarrow> b \<le> n \<Longrightarrow> (if a + b \<ge> n then a + b - n else a + b) = (a + b) mod n" for a b n :: nat
  by (auto simp: mod_if)

lemma length_fifo_list [simp]: "length (fifo_list f) = avail f"
  by (simp add: fifo_list_def)

lemma ring_inj_le: "(t + i) mod n = (t + j) mod n \<Longrightarrow> i \<le> j \<Longrightarrow> j < n \<Longrightarrow> i = j" for t i j n :: nat
  using mod_eq_dvd_iff_nat [of "t + i" "t + j" n] dvd_imp_le [of n "j - i"] by (cases "i < j") auto

lemma ring_inj: "(t + i) mod n = (t + j) mod n \<Longrightarrow> i < n \<Longrightarrow> j < n \<Longrightarrow> i = j" for t i j n :: nat
  using ring_inj_le [of t i n j] ring_inj_le [of t j n i] by linarith

lemma fifo_enqueue_list:
  assumes "fifo_inv f" "\<not> fifo_is_full f"
  shows "fifo_inv (fifo_enqueue d f) \<and> fifo_list (fifo_enqueue d f) = fifo_list f @ [d]"
proof -
  let ?n = "num_entries f" let ?h = "(tail f + avail f) mod ?n"
  have n: "avail f < ?n" "tail f < ?n" "length (queue f) = ?n"
    using assms by (auto simp: fifo_inv_def fifo_is_full_def split: if_splits)
  have enq: "fifo_enqueue d f = f\<lparr>queue := (queue f)[?h := d], avail := avail f + 1\<rparr>"
    using wrap_mod [of "tail f" ?n "avail f"] n by (simp add: fifo_enqueue_def Let_def)
  have "(queue f)[?h := d] ! ((tail f + i) mod ?n) = queue f ! ((tail f + i) mod ?n)" if "i < avail f" for i
    using ring_inj [of "tail f" i ?n "avail f"] that n by (metis less_trans nat_neq_iff nth_list_update_neq)
  moreover have "(queue f)[?h := d] ! ?h = d" using n by (simp add: mod_less_divisor)
  ultimately show ?thesis using n unfolding enq by (auto simp: fifo_inv_def fifo_list_def)
qed

lemma fifo_dequeue_list:
  assumes "fifo_inv f" "\<not> fifo_is_empty f"
  shows "\<exists>f'. sbi_fifo_dequeue True (Some f) = (0, Some (hd (fifo_list f)), Some f') \<and>
    fifo_inv f' \<and> fifo_list f' = tl (fifo_list f) \<and> num_entries f' = num_entries f"
proof -
  let ?n = "num_entries f"
  have n: "0 < avail f" "avail f \<le> ?n" "tail f < ?n" "length (queue f) = ?n"
    using assms by (auto simp: fifo_inv_def fifo_is_empty_def split: if_splits)
  let ?t = "if tail f + 1 \<ge> ?n then 0 else tail f + 1"
  have t: "?t = (tail f + 1) mod ?n" using n by (auto simp: mod_if)
  let ?f = "f\<lparr>avail := avail f - 1, tail := ?t\<rparr>"
  have "[0..<avail f] = 0 # map Suc [0..<avail f - 1]"
    using n by (simp add: upt_conv_Cons map_Suc_upt)
  then have "fifo_list f = queue f ! tail f # fifo_list ?f"
    using n unfolding fifo_list_def t by (simp add: mod_simps o_def)
  moreover have "fifo_inv ?f" using n by (auto simp: fifo_inv_def)
  ultimately show ?thesis using assms(2) by (simp add: sbi_fifo_dequeue_def)
qed

text \<open>The in-place update as a scan of the list from its oldest entry.\<close>

fun list_update_scan :: "('e \<Rightarrow> 'e \<Rightarrow> fifo_update \<times> 'e) \<Rightarrow> 'e \<Rightarrow> fifo_update \<Rightarrow> 'e list \<Rightarrow> fifo_update \<times> 'e list" where
  "list_update_scan fptr inp ret [] = (ret, [])"
| "list_update_scan fptr inp ret (x # xs) =
     (let (ret, y) = fptr inp x
      in if ret \<noteq> SBI_FIFO_UNCHANGED then (ret, y # xs)
         else let (ret, ys) = list_update_scan fptr inp ret xs in (ret, y # ys))"

lemma fifo_list_nth: "i < avail f \<Longrightarrow> fifo_list f ! i = queue f ! ((tail f + i) mod num_entries f)"
  by (simp add: fifo_list_def)

lemma fifo_list_put:
  fixes e :: 'e
  assumes "fifo_inv f" "i < avail f"
  defines "f' \<equiv> f\<lparr>queue := (queue f)[(tail f + i) mod num_entries f := e]\<rparr>"
  shows "fifo_inv f'" and "fifo_list f' = (fifo_list f)[i := e]"
proof -
  have n: "avail f \<le> num_entries f" "length (queue f) = num_entries f" "0 < num_entries f"
    using assms by (auto simp: fifo_inv_def)
  show "fifo_inv f'" using assms by (simp add: fifo_inv_def f'_def)
  show "fifo_list f' = (fifo_list f)[i := e]"
  proof (rule nth_equalityI)
    fix j assume "j < length (fifo_list f')"
    then have j: "j < avail f" by (simp add: f'_def)
    then show "fifo_list f' ! j = (fifo_list f)[i := e] ! j"
      using assms(2) n ring_inj [of "tail f" i "num_entries f" j]
      by (cases "i = j") (auto simp: fifo_list_nth f'_def nth_list_update)
  qed (simp add: f'_def)
qed

lemma fifo_update_loop_list:
  assumes "fifo_inv f" "i + k = avail f" "ret = SBI_FIFO_UNCHANGED"
  shows "\<exists>f'. fifo_update_loop fptr inp k i ret f = (fst (list_update_scan fptr inp ret (drop i (fifo_list f))), f') \<and>
    fifo_inv f' \<and> num_entries f' = num_entries f \<and>
    fifo_list f' = take i (fifo_list f) @ snd (list_update_scan fptr inp ret (drop i (fifo_list f)))"
  using assms
proof (induction k arbitrary: i f ret)
  case (Suc k)
  let ?x = "fifo_list f ! i"
  have i: "i < avail f" using Suc.prems by simp
  have tn: "tail f < num_entries f" "i \<le> num_entries f" using Suc.prems i by (auto simp: fifo_inv_def split: if_splits)
  obtain r y where ry: "fptr inp ?x = (r, y)" by force
  let ?f = "f\<lparr>queue := (queue f)[(tail f + i) mod num_entries f := y]\<rparr>"
  note put = fifo_list_put [OF Suc.prems(1) i, of y]
  have dr: "drop i (fifo_list f) = ?x # drop (Suc i) (fifo_list f)" using i by (simp add: Cons_nth_drop_Suc)
  have step: "fifo_update_loop fptr inp (Suc k) i ret f =
    (if r \<noteq> SBI_FIFO_UNCHANGED then (r, ?f) else fifo_update_loop fptr inp k (Suc i) r ?f)"
    using ry wrap_mod [OF tn] i by (cases r) (simp_all add: Let_def fifo_list_nth)
  show ?case
  proof (cases "r = SBI_FIFO_UNCHANGED")
    case False
    then show ?thesis using put i
      by (simp add: step dr ry upd_conv_take_nth_drop del: fifo_update_loop.simps)
  next
    case True
    obtain f' where "fifo_update_loop fptr inp k (Suc i) r ?f =
        (fst (list_update_scan fptr inp r (drop (Suc i) (fifo_list ?f))), f')" "fifo_inv f'"
      "num_entries f' = num_entries ?f"
      "fifo_list f' = take (Suc i) (fifo_list ?f) @ snd (list_update_scan fptr inp r (drop (Suc i) (fifo_list ?f)))"
      using Suc.IH [OF put(1), of "Suc i" r] Suc.prems True by auto
    then show ?thesis using True put(2) i
      by (simp add: step dr ry case_prod_unfold take_Suc_conv_app_nth Let_def del: fifo_update_loop.simps)
  qed
qed simp

section \<open>The queue interface\<close>

text \<open>
  A bounded first-in first-out queue: \<open>cont\<close> is its content, oldest first, and \<open>cap\<close> its
  capacity. An operation gives the C return code with the new queue.
\<close>

locale bounded_queue =
  fixes inv :: "'q \<Rightarrow> bool" and cont :: "'q \<Rightarrow> 'e list" and cap :: "'q \<Rightarrow> nat"
    and enq :: "'e \<Rightarrow> 'q \<Rightarrow> int \<times> 'q" and deq :: "'q \<Rightarrow> int \<times> 'e option \<times> 'q"
  assumes bound: "inv q \<Longrightarrow> length (cont q) \<le> cap q"
    and enq_full: "inv q \<Longrightarrow> length (cont q) = cap q \<Longrightarrow> enq e q = (- ENOSPC, q)"
    and enq_ok: "inv q \<Longrightarrow> length (cont q) < cap q \<Longrightarrow>
      \<exists>q'. enq e q = (0, q') \<and> inv q' \<and> cont q' = cont q @ [e] \<and> cap q' = cap q"
    and deq_empty: "inv q \<Longrightarrow> cont q = [] \<Longrightarrow> deq q = (- ENOENT, None, q)"
    and deq_ok: "inv q \<Longrightarrow> cont q \<noteq> [] \<Longrightarrow>
      \<exists>q'. deq q = (0, Some (hd (cont q)), q') \<and> inv q' \<and> cont q' = tl (cont q) \<and> cap q' = cap q"
begin

text \<open>Entries enqueued into a queue with room for them come out in the same order.\<close>

fun enq_all :: "'e list \<Rightarrow> 'q \<Rightarrow> 'q" where
  "enq_all [] q = q"
| "enq_all (e # es) q = enq_all es (snd (enq e q))"

fun deq_n :: "nat \<Rightarrow> 'q \<Rightarrow> 'e list \<times> 'q" where
  "deq_n 0 q = ([], q)"
| "deq_n (Suc n) q =
     (case deq q of (_, Some e, q) \<Rightarrow> let (es, q) = deq_n n q in (e # es, q) | (_, None, q) \<Rightarrow> ([], q))"

lemma enq_all_cont:
  "inv q \<Longrightarrow> length (cont q) + length es \<le> cap q \<Longrightarrow>
    inv (enq_all es q) \<and> cont (enq_all es q) = cont q @ es \<and> cap (enq_all es q) = cap q"
proof (induction es arbitrary: q)
  case (Cons e es)
  then obtain q' where "enq e q = (0, q')" "inv q'" "cont q' = cont q @ [e]" "cap q' = cap q"
    using enq_ok [of q e] by auto
  then show ?case using Cons.IH [of q'] Cons.prems by simp
qed simp

lemma deq_n_cont:
  "inv q \<Longrightarrow> \<exists>q'. deq_n n q = (take n (cont q), q') \<and> inv q' \<and> cont q' = drop n (cont q) \<and> cap q' = cap q"
proof (induction n arbitrary: q)
  case (Suc n)
  show ?case
  proof (cases "cont q")
    case Nil
    then show ?thesis using deq_empty [OF Suc.prems] Suc.prems by simp
  next
    case (Cons e es)
    then obtain q1 where q1: "deq q = (0, Some e, q1)" "inv q1" "cont q1 = es" "cap q1 = cap q"
      using deq_ok [OF Suc.prems] by auto
    then show ?thesis using Suc.IH [OF q1(2)] Cons by auto
  qed
qed simp

lemma fifo_order:
  assumes "inv q" "cont q = []" "length es \<le> cap q"
  shows "fst (deq_n (length es) (enq_all es q)) = es"
  using enq_all_cont [OF assms(1), of es] deq_n_cont [of "enq_all es q" "length es"] assms by auto

end

interpretation fq: bounded_queue fifo_inv fifo_list num_entries
    "\<lambda>e f. map_prod id the (sbi_fifo_enqueue (Some e) (Some f))"
    "\<lambda>f. map_prod id (map_prod id the) (sbi_fifo_dequeue True (Some f))"
proof unfold_locales
  fix q :: "'e sbi_fifo" and e :: 'e
  assume inv: "fifo_inv q"
  show "length (fifo_list q) \<le> num_entries q" using inv by (simp add: fifo_inv_def)
  show "map_prod id the (sbi_fifo_enqueue (Some e) (Some q)) = (- ENOSPC, q)" if "length (fifo_list q) = num_entries q"
    using that by (simp add: sbi_fifo_enqueue_def fifo_is_full_def)
  show "\<exists>q'. map_prod id the (sbi_fifo_enqueue (Some e) (Some q)) = (0, q') \<and> fifo_inv q' \<and>
      fifo_list q' = fifo_list q @ [e] \<and> num_entries q' = num_entries q" if "length (fifo_list q) < num_entries q"
    using fifo_enqueue_list [OF inv, of e] that
    by (auto simp: sbi_fifo_enqueue_def fifo_is_full_def fifo_enqueue_def Let_def)
  show "map_prod id (map_prod id the) (sbi_fifo_dequeue True (Some q)) = (- ENOENT, None, q)" if "fifo_list q = []"
    using that length_fifo_list [of q] by (simp add: sbi_fifo_dequeue_def fifo_is_empty_def)
  show "\<exists>q'. map_prod id (map_prod id the) (sbi_fifo_dequeue True (Some q)) = (0, Some (hd (fifo_list q)), q') \<and>
      fifo_inv q' \<and> fifo_list q' = tl (fifo_list q) \<and> num_entries q' = num_entries q" if "fifo_list q \<noteq> []"
  proof -
    have "\<not> fifo_is_empty q" using that by (simp add: fifo_is_empty_def fifo_list_def)
    then show ?thesis using fifo_dequeue_list [OF inv] by force
  qed
qed

section \<open>Properties\<close>

text \<open>
  C29: The ring buffer refines a bounded list: on a well-formed fifo, enqueueing appends the entry
  or fails with \<open>-ENOSPC\<close> exactly when \<open>num_entries\<close> entries are queued, and dequeueing returns
  and removes the oldest entry or fails with \<open>-ENOENT\<close> exactly when there is none; the index
  arithmetic never leaves the buffer.
\<close>

theorem sbi_fifo_refines_list:
  assumes "fifo_inv f"
  shows "(case sbi_fifo_enqueue (Some d) (Some f) of (r, fo) \<Rightarrow>
      (if length (fifo_list f) = num_entries f then r = - ENOSPC \<and> fo = Some f
       else r = 0 \<and> (\<exists>f'. fo = Some f' \<and> fifo_inv f' \<and> fifo_list f' = fifo_list f @ [d]))) \<and>
    (case sbi_fifo_dequeue True (Some f) of (r, x, fo) \<Rightarrow>
      (case fifo_list f of
         [] \<Rightarrow> r = - ENOENT \<and> x = None \<and> fo = Some f
       | e # es \<Rightarrow> r = 0 \<and> x = Some e \<and> (\<exists>f'. fo = Some f' \<and> fifo_inv f' \<and> fifo_list f' = es)))"
proof (rule conjI)
  show "case sbi_fifo_enqueue (Some d) (Some f) of (r, fo) \<Rightarrow>
      (if length (fifo_list f) = num_entries f then r = - ENOSPC \<and> fo = Some f
       else r = 0 \<and> (\<exists>f'. fo = Some f' \<and> fifo_inv f' \<and> fifo_list f' = fifo_list f @ [d]))"
    using fifo_enqueue_list [OF assms, of d] by (simp add: sbi_fifo_enqueue_def fifo_is_full_def)
  show "case sbi_fifo_dequeue True (Some f) of (r, x, fo) \<Rightarrow>
      (case fifo_list f of
         [] \<Rightarrow> r = - ENOENT \<and> x = None \<and> fo = Some f
       | e # es \<Rightarrow> r = 0 \<and> x = Some e \<and> (\<exists>f'. fo = Some f' \<and> fifo_inv f' \<and> fifo_list f' = es))"
  proof (cases "fifo_is_empty f")
    case True
    then show ?thesis by (simp add: sbi_fifo_dequeue_def fifo_is_empty_def fifo_list_def)
  next
    case False
    then obtain e es where "fifo_list f = e # es" by (cases "fifo_list f") (auto simp: fifo_is_empty_def fifo_list_def)
    then show ?thesis using fifo_dequeue_list [OF assms False] by auto
  qed
qed

definition fifo_demo :: "nat sbi_fifo" where
  "fifo_demo = \<lparr>queue = [5, 0, 4], num_entries = 3, avail = 2, tail = 2\<rparr>"

theorem sbi_fifo_refines_list_witness:
  "fifo_inv fifo_demo \<and> fifo_list fifo_demo = [4, 5] \<and>
   (case sbi_fifo_enqueue (Some 6) (Some fifo_demo) of (r, fo) \<Rightarrow>
      r = 0 \<and> (\<exists>f'. fo = Some f' \<and> fifo_inv f' \<and> fifo_list f' = [4, 5, 6]))"
proof -
  have "fifo_inv fifo_demo" "fifo_list fifo_demo = [4, 5]" "num_entries fifo_demo = 3"
    by (simp_all add: fifo_inv_def fifo_demo_def fifo_list_def upt_rec)
  then show ?thesis using sbi_fifo_refines_list [of fifo_demo 6] by (auto split: prod.splits)
qed

text \<open>
  \<open>sbi_fifo_inplace_update\<close> offers the queued entries to the callback from the oldest on,
  stops at the first that it skips or updates, and changes nothing but that scan's entries.
\<close>

theorem sbi_fifo_inplace_update_scans:
  assumes "fifo_inv f"
  shows "\<exists>f'. sbi_fifo_inplace_update fptr (Some inp) (Some f) =
      (fst (list_update_scan fptr inp SBI_FIFO_UNCHANGED (fifo_list f)), Some f') \<and> fifo_inv f' \<and>
    fifo_list f' = snd (list_update_scan fptr inp SBI_FIFO_UNCHANGED (fifo_list f))"
proof (cases "fifo_is_empty f")
  case True
  then have "fifo_list f = []" by (simp add: fifo_is_empty_def fifo_list_def)
  then show ?thesis using True assms by (simp add: sbi_fifo_inplace_update_def)
next
  case False
  then show ?thesis
    using fifo_update_loop_list [OF assms, of 0 "avail f" SBI_FIFO_UNCHANGED fptr inp]
    by (auto simp: sbi_fifo_inplace_update_def)
qed

theorem sbi_fifo_inplace_update_scans_witness:
  "\<exists>f'. sbi_fifo_inplace_update (\<lambda>i e. if e = i then (SBI_FIFO_UPDATED, 9) else (SBI_FIFO_UNCHANGED, e)) (Some 5) (Some fifo_demo)
     = (SBI_FIFO_UPDATED, Some f') \<and> fifo_list f' = [4, 9]"
proof -
  have "fifo_inv fifo_demo" "fifo_list fifo_demo = [4, 5]"
    by (simp_all add: fifo_inv_def fifo_demo_def fifo_list_def upt_rec)
  then show ?thesis
    using sbi_fifo_inplace_update_scans [of fifo_demo "\<lambda>i e. if e = i then (SBI_FIFO_UPDATED, 9) else (SBI_FIFO_UNCHANGED, e)" 5]
    by auto
qed

end
