(* ===== verification/Sbi_Tlb.thy ===== *)
theory Sbi_Tlb
  imports Sbi_Fifo
begin

text \<open>
  Remote fences of the SBI runtime (\<open>arch/riscv/sbi/sbi_tlb.c\<close>): the local fence operations,
  the queueing of a request at another hart, and the handshake by which the requester waits for
  it. The hardware effects are a log of operations per hart. Harts run concurrently: a step of
  the system is one pass of one hart through a loop body of the code (one attempt to queue a
  request, one served entry, one successful exchange of the sync word), in any order.
\<close>

section \<open>Model\<close>

subsection \<open>Requests and hardware operations\<close>

datatype tlb_type = SBI_TLB_FLUSH_VMA | SBI_TLB_FLUSH_VMA_ASID | SBI_TLB_FLUSH_VMA_VMID | SBI_TLB_FLUSH_VVMA
  | SBI_TLB_FLUSH_GVMA | SBI_TLB_FLUSH_VVMA_ASID | SBI_TLB_FLUSH_GVMA_VMID | SBI_ITLB_FLUSH

record sbi_tlb_info =
  start :: u64
  sz :: u64
  asid :: u64
  type :: tlb_type
  vmid :: u64
  shart_mask :: u64

datatype tlb_op = FwCtr string | FlushAll | FlushPage u64 | FlushAsidAll u64 | FlushAsidPage u64 u64
  | GvmaAll | GvmaGpa u64 | GvmaVmid u64 | GvmaVmidGpa u64 u64
  | VvmaAll | VvmaVa u64 | VvmaAsid u64 | VvmaAsidVa u64 u64
  | SetHgatp u64 | FlushICache | BadType tlb_type

definition PAGE_SIZE :: u64 where "PAGE_SIZE = 4096"
definition SBI_TLB_FLUSH_ALL :: u64 where "SBI_TLB_FLUSH_ALL = - 1"
definition SBI_TLB_FLUSH_MAX_SIZE :: u64 where "SBI_TLB_FLUSH_MAX_SIZE = 2 ^ 30"
definition SBI_TLB_FIFO_NUM_ENTRIES :: nat where "SBI_TLB_FIFO_NUM_ENTRIES = 8"

definition ATP_VMID :: "u64 \<Rightarrow> u64" where
  "ATP_VMID v = push_bit 44 v AND 0x03FFF00000000000"

subsection \<open>Local fences\<close>

text \<open>The loop \<open>for (i = 0; i < size; i += PAGE_SIZE)\<close>; \<open>i\<close> wraps, so that it may not end.\<close>

partial_function (option) flush_loop :: "(u64 \<Rightarrow> tlb_op) \<Rightarrow> u64 \<Rightarrow> u64 \<Rightarrow> tlb_op list option" where
  "flush_loop op size' i =
     (if i < size'
      then Option.bind (flush_loop op size' (i + PAGE_SIZE)) (\<lambda>l. Some (op i # l))
      else Some [])"

definition sbi_tlb_fifo_sfence_vma :: "sbi_tlb_info \<Rightarrow> tlb_op list option" where
  "sbi_tlb_fifo_sfence_vma t =
     map_option ((#) (FwCtr ''SFENCE_VMA_RCVD''))
       (if start t = 0 \<and> sz t = 0 \<or> sz t = SBI_TLB_FLUSH_ALL then Some [FlushAll]
        else flush_loop (\<lambda>i. FlushPage (start t + i)) (sz t) 0)"

definition sbi_tlb_fifo_sfence_vma_asid :: "sbi_tlb_info \<Rightarrow> tlb_op list option" where
  "sbi_tlb_fifo_sfence_vma_asid t =
     map_option ((#) (FwCtr ''SFENCE_VMA_ASID_RCVD''))
       (if start t = 0 \<and> sz t = 0 then Some [FlushAll]
        else if sz t = SBI_TLB_FLUSH_ALL then Some [FlushAsidAll (asid t)]
        else flush_loop (\<lambda>i. FlushAsidPage (asid t) (start t + i)) (sz t) 0)"

definition sbi_tlb_fifo_hfence_gvma :: "sbi_tlb_info \<Rightarrow> tlb_op list option" where
  "sbi_tlb_fifo_hfence_gvma t =
     map_option ((#) (FwCtr ''HFENCE_GVMA_RCVD''))
       (if start t = 0 \<and> sz t = 0 \<or> sz t = SBI_TLB_FLUSH_ALL then Some [GvmaAll]
        else flush_loop (\<lambda>i. GvmaGpa (drop_bit 2 (start t + i))) (sz t) 0)"

definition sbi_tlb_fifo_hfence_gvma_vmid :: "sbi_tlb_info \<Rightarrow> tlb_op list option" where
  "sbi_tlb_fifo_hfence_gvma_vmid t =
     map_option ((#) (FwCtr ''HFENCE_GVMA_VMID_RCVD''))
       (if start t = 0 \<and> sz t = 0 then Some [GvmaAll]
        else if sz t = SBI_TLB_FLUSH_ALL then Some [GvmaVmid (vmid t)]
        else flush_loop (\<lambda>i. GvmaVmidGpa (drop_bit 2 (start t + i)) (vmid t)) (sz t) 0)"

text \<open>\<open>hgatp\<close> is the value of the register that the two functions save and restore.\<close>

definition sbi_tlb_fifo_hfence_vvma :: "u64 \<Rightarrow> sbi_tlb_info \<Rightarrow> tlb_op list option" where
  "sbi_tlb_fifo_hfence_vvma hgatp t =
     map_option (\<lambda>l. [FwCtr ''HFENCE_VVMA_RCVD'', SetHgatp (ATP_VMID (vmid t))] @ l @ [SetHgatp hgatp])
       (if start t = 0 \<and> sz t = 0 \<or> sz t = SBI_TLB_FLUSH_ALL then Some [VvmaAll]
        else flush_loop (\<lambda>i. VvmaVa (start t + i)) (sz t) 0)"

definition sbi_tlb_fifo_hfence_vvma_asid :: "u64 \<Rightarrow> sbi_tlb_info \<Rightarrow> tlb_op list option" where
  "sbi_tlb_fifo_hfence_vvma_asid hgatp t =
     map_option (\<lambda>l. [FwCtr ''HFENCE_VVMA_ASID_RCVD'', SetHgatp (ATP_VMID (vmid t))] @ l @ [SetHgatp hgatp])
       (if start t = 0 \<and> sz t = 0 then Some [VvmaAll]
        else if sz t = SBI_TLB_FLUSH_ALL then Some [VvmaAsid (asid t)]
        else flush_loop (\<lambda>i. VvmaAsidVa (start t + i) (asid t)) (sz t) 0)"

text \<open>The dispatch, in a build with the hypervisor extension.\<close>

definition sbi_tlb_local_flush :: "u64 \<Rightarrow> sbi_tlb_info \<Rightarrow> tlb_op list option" where
  "sbi_tlb_local_flush hgatp t =
     (case type t of
        SBI_TLB_FLUSH_VMA \<Rightarrow> sbi_tlb_fifo_sfence_vma t
      | SBI_TLB_FLUSH_VMA_ASID \<Rightarrow> sbi_tlb_fifo_sfence_vma_asid t
      | SBI_TLB_FLUSH_VVMA \<Rightarrow> sbi_tlb_fifo_hfence_vvma hgatp t
      | SBI_TLB_FLUSH_VVMA_ASID \<Rightarrow> sbi_tlb_fifo_hfence_vvma_asid hgatp t
      | SBI_TLB_FLUSH_GVMA \<Rightarrow> sbi_tlb_fifo_hfence_gvma t
      | SBI_TLB_FLUSH_GVMA_VMID \<Rightarrow> sbi_tlb_fifo_hfence_gvma_vmid t
      | SBI_ITLB_FLUSH \<Rightarrow> Some [FlushICache]
      | ty \<Rightarrow> Some [BadType ty])"

subsection \<open>Coalescing of queued requests\<close>

definition sbi_tlb_fifo_range_check :: "sbi_tlb_info \<Rightarrow> sbi_tlb_info \<Rightarrow> fifo_update \<times> sbi_tlb_info" where
  "sbi_tlb_fifo_range_check cur next =
     (let next_end = start next + sz next; curr_end = start cur + sz cur
      in if start next \<le> start cur \<and> next_end > curr_end
         then (SBI_FIFO_UPDATED, cur\<lparr>start := start next, sz := sz next, shart_mask := shart_mask cur OR shart_mask next\<rparr>)
         else if start next \<ge> start cur \<and> next_end \<le> curr_end
         then (SBI_FIFO_SKIP, cur\<lparr>shart_mask := shart_mask cur OR shart_mask next\<rparr>)
         else (SBI_FIFO_UNCHANGED, cur))"

text \<open>
  The callback's first test is \<open>if (!in || !!data) return ret;\<close>. \<open>data\<close> is the entry, which is
  there, so that the callback always returns at once.
\<close>

definition sbi_tlb_fifo_update_cb :: "sbi_tlb_info option \<Rightarrow> sbi_tlb_info option \<Rightarrow> fifo_update \<times> sbi_tlb_info option" where
  "sbi_tlb_fifo_update_cb inp data =
     (if inp = None \<or> data \<noteq> None then (SBI_FIFO_UNCHANGED, data)
      else case (data, inp) of
        (Some cur, Some next) \<Rightarrow>
          (if type next = SBI_TLB_FLUSH_VMA_ASID \<and> type cur = SBI_TLB_FLUSH_VMA_ASID
           then if asid next = asid cur then map_prod id Some (sbi_tlb_fifo_range_check cur next)
                else (SBI_FIFO_UNCHANGED, data)
           else if type next = SBI_TLB_FLUSH_VMA \<and> type cur = SBI_TLB_FLUSH_VMA
           then map_prod id Some (sbi_tlb_fifo_range_check cur next)
           else (SBI_FIFO_UNCHANGED, data))
      | _ \<Rightarrow> (SBI_FIFO_UNCHANGED, data))"

subsection \<open>Harts\<close>

text \<open>
  Per hart: its queue, its \<open>tlb_sync\<close> word (0 or 1), and whether it is inside
  \<open>sbi_tlb_fifo_sync\<close>, waiting for a request of its own. \<open>ops\<close> logs the operations of all harts.
\<close>

record tlb_sys =
  fifos :: "sbi_tlb_info sbi_fifo list"
  syncs :: "bool list"
  waiting :: "bool list"
  ops :: "(nat \<times> tlb_op) list"

text \<open>
  \<open>SBI_TLB_INFO_TYPE\<close> names the requesting hart in \<open>shart_mask\<close>.
\<close>

definition SBI_TLB_INFO_TYPE :: "u64 \<Rightarrow> u64 \<Rightarrow> u64 \<Rightarrow> u64 \<Rightarrow> tlb_type \<Rightarrow> nat \<Rightarrow> sbi_tlb_info" where
  "SBI_TLB_INFO_TYPE st size' as vm ty src =
     \<lparr>start = st, sz = size', asid = as, type = ty, vmid = vm, shart_mask = push_bit src 1\<rparr>"

text \<open>
  The requesters named by a mask, lowest first: the loop \<open>for (i = 0, m = mask; m; i++, m >>= 1)\<close>.
\<close>

function mask_harts :: "u64 \<Rightarrow> nat \<Rightarrow> nat list" where
  "mask_harts m i = (if m = 0 then [] else (if m AND 1 = 0 then [] else [i]) @ mask_harts (drop_bit 1 m) (i + 1))"
  by pat_completeness auto
termination
proof (relation "measure (\<lambda>(m, i). unat m)")
  fix m :: u64 and i :: nat
  assume "m \<noteq> 0"
  then have "unat m > 0" by (simp add: unat_gt_0)
  moreover have "unat (drop_bit 1 m) = unat m div 2" unfolding unat_drop_bit_eq by (simp add: drop_bit_eq_div)
  ultimately show "((drop_bit 1 m, i + 1), (m, i)) \<in> measure (\<lambda>(m, i). unat m)" by simp
qed simp

declare mask_harts.simps [simp del]

text \<open>
  \<open>while (xchg(rtlb_sync, 1));\<close> sets the word of each requester and spins while it is already
  set; \<open>None\<close> when it would spin.
\<close>

fun sync_set :: "nat list \<Rightarrow> bool list \<Rightarrow> bool list option" where
  "sync_set [] ss = Some ss"
| "sync_set (i # is) ss = (if i < length ss \<and> \<not> ss ! i then sync_set is (ss[i := True]) else None)"

definition sbi_tlb_entry_process :: "u64 \<Rightarrow> nat \<Rightarrow> sbi_tlb_info \<Rightarrow> tlb_sys \<Rightarrow> tlb_sys option" where
  "sbi_tlb_entry_process hgatp h t s =
     Option.bind (sbi_tlb_local_flush hgatp t) (\<lambda>l.
     Option.bind (sync_set (mask_harts (shart_mask t) 0) (syncs s)) (\<lambda>ss.
       Some (s\<lparr>ops := ops s @ map (Pair h) l, syncs := ss\<rparr>)))"

text \<open>
  The body of the loops that drain a queue: \<open>None\<close> when it would spin, otherwise whether an entry
  was found. \<open>sbi_tlb_fifo_process\<close> repeats it until there is none; \<open>process_count\<close> stops when
  \<open>deq_count > count\<close>, after \<open>count + 1\<close> entries.
\<close>

definition tlb_fifo_serve :: "u64 \<Rightarrow> nat \<Rightarrow> tlb_sys \<Rightarrow> (bool \<times> tlb_sys) option" where
  "tlb_fifo_serve hgatp h s =
     (case sbi_fifo_dequeue True (Some (fifos s ! h)) of
        (_, Some t, Some f) \<Rightarrow>
          map_option (Pair True) (sbi_tlb_entry_process hgatp h t (s\<lparr>fifos := (fifos s)[h := f]\<rparr>))
      | _ \<Rightarrow> Some (False, s))"

fun tlb_process_count :: "u64 \<Rightarrow> nat \<Rightarrow> nat \<Rightarrow> tlb_sys \<Rightarrow> tlb_sys option" where
  "tlb_process_count hgatp h 0 s =
     map_option snd (tlb_fifo_serve hgatp h s)"
| "tlb_process_count hgatp h (Suc count) s =
     Option.bind (tlb_fifo_serve hgatp h s) (\<lambda>(found, s).
       if found then tlb_process_count hgatp h count s else Some s)"

text \<open>
  \<open>sbi_tlb_fifo_update\<close> with one attempt to enqueue: the return code, or \<open>None\<close> in its place when
  the queue is full and the loop goes round again.
\<close>

definition tlb_upgrade :: "sbi_tlb_info \<Rightarrow> sbi_tlb_info" where
  "tlb_upgrade t = (if sz t \<ge> SBI_TLB_FLUSH_MAX_SIZE then t\<lparr>start := 0, sz := SBI_TLB_FLUSH_ALL\<rparr> else t)"

definition sbi_tlb_fifo_update ::
  "u64 \<Rightarrow> nat \<Rightarrow> nat \<Rightarrow> sbi_tlb_info \<Rightarrow> tlb_sys \<Rightarrow> (int option \<times> tlb_sys) option" where
  "sbi_tlb_fifo_update hgatp cur r t s =
     (let t = tlb_upgrade t
      in if r = cur
         then map_option (\<lambda>l. (Some (- 1), s\<lparr>ops := ops s @ map (Pair cur) l\<rparr>)) (sbi_tlb_local_flush hgatp t)
         else case sbi_fifo_inplace_update
                (\<lambda>inp e. map_prod id the (sbi_tlb_fifo_update_cb (Some inp) (Some e))) (Some t) (Some (fifos s ! r)) of
              (ret, fo) \<Rightarrow>
                let s = s\<lparr>fifos := (fifos s)[r := the fo]\<rparr>
                in if ret \<noteq> SBI_FIFO_UNCHANGED then Some (Some 1, s)
                   else case sbi_fifo_enqueue (Some t) (Some (fifos s ! r)) of
                     (e, fo) \<Rightarrow>
                       if e < 0 then map_option (Pair None) (tlb_process_count hgatp cur 1 s)
                       else Some (Some 0, s\<lparr>fifos := (fifos s)[r := the fo]\<rparr>))"

text \<open>The steps of the system of \<open>n\<close> harts.\<close>

inductive tlb_step :: "nat \<Rightarrow> tlb_sys \<Rightarrow> tlb_sys \<Rightarrow> bool" for n where
  send: "h < n \<Longrightarrow> r < n \<Longrightarrow> r \<noteq> h \<Longrightarrow> \<not> waiting s ! h \<Longrightarrow> t = SBI_TLB_INFO_TYPE st size' as vm ty h \<Longrightarrow>
    sbi_tlb_fifo_update hgatp h r t s = Some (Some ret, s') \<Longrightarrow> 0 \<le> ret \<Longrightarrow>
    tlb_step n s (s'\<lparr>waiting := (waiting s')[h := True]\<rparr>)"
| full: "h < n \<Longrightarrow> r < n \<Longrightarrow> r \<noteq> h \<Longrightarrow> \<not> waiting s ! h \<Longrightarrow> t = SBI_TLB_INFO_TYPE st size' as vm ty h \<Longrightarrow>
    sbi_tlb_fifo_update hgatp h r t s = Some (None, s') \<Longrightarrow> tlb_step n s s'"
| serve: "h < n \<Longrightarrow> tlb_fifo_serve hgatp h s = Some (True, s') \<Longrightarrow> tlb_step n s s'"
| synced: "h < n \<Longrightarrow> waiting s ! h \<Longrightarrow> syncs s ! h \<Longrightarrow>
    tlb_step n s (s\<lparr>syncs := (syncs s)[h := False], waiting := (waiting s)[h := False]\<rparr>)"

definition tlb_sys_init :: "nat \<Rightarrow> tlb_sys" where
  "tlb_sys_init n =
     \<lparr>fifos = replicate n (sbi_fifo_init \<lparr>start = 0, sz = 0, asid = 0, type = SBI_TLB_FLUSH_VMA, vmid = 0, shart_mask = 0\<rparr>
        SBI_TLB_FIFO_NUM_ENTRIES),
      syncs = replicate n False, waiting = replicate n False, ops = []\<rparr>"

section \<open>Local fences\<close>

lemma flush_loop_pages:
  assumes "unat i = 4096 * j" "unat size' \<le> 4096 * (j + k)" "4096 * (j + k) < 2 ^ 64" "k = 0 \<or> 4096 * (j + k - 1) < unat size'"
  shows "flush_loop op size' i = Some (map (\<lambda>m. op (of_nat (4096 * m))) [j..<j + k])"
  using assms
proof (induction k arbitrary: i j)
  case 0
  then show ?case by (simp add: flush_loop.simps [of op size' i] word_less_nat_alt)
next
  case (Suc k)
  have "4096 * j \<le> 4096 * (j + Suc k - 1)" by simp
  then have lt: "i < size'" using Suc.prems by (simp add: word_less_nat_alt)
  have i1: "unat (i + PAGE_SIZE) = 4096 * (j + 1)"
    using Suc.prems by (simp add: PAGE_SIZE_def unat_word_ariths)
  have "flush_loop op size' (i + PAGE_SIZE) = Some (map (\<lambda>m. op (of_nat (4096 * m))) [j + 1..<j + 1 + k])"
    using Suc.prems by (intro Suc.IH i1) auto
  then have "flush_loop op size' i = Some (op i # map (\<lambda>m. op (of_nat (4096 * m))) [j + 1..<j + 1 + k])"
    using lt by (subst flush_loop.simps) (simp del: of_nat_mult)
  moreover have "i = of_nat (4096 * j)" using arg_cong [OF Suc.prems(1), of "of_nat :: nat \<Rightarrow> u64"] by simp
  moreover have "[j..<j + Suc k] = j # [j + 1..<j + 1 + k]" by (simp add: upt_conv_Cons del: upt_Suc)
  ultimately show ?case by (simp only: list.map)
qed

lemma flush_loop_small:
  assumes "size' < SBI_TLB_FLUSH_MAX_SIZE"
  shows "flush_loop op size' 0 = Some (map (\<lambda>m. op (of_nat (4096 * m))) [0..<(unat size' + 4095) div 4096])"
proof -
  have "unat size' < 2 ^ 30" using assms by (simp add: SBI_TLB_FLUSH_MAX_SIZE_def word_less_nat_alt)
  moreover have "m \<le> 4096 * ((m + 4095) div 4096)" "m < 2 ^ 30 \<Longrightarrow> 4096 * ((m + 4095) div 4096) < 2 ^ 64"
    "(m + 4095) div 4096 = 0 \<or> 4096 * ((m + 4095) div 4096 - 1) < m" for m :: nat by simp_all linarith+
  ultimately show ?thesis
    using flush_loop_pages [of 0 0 size' "(unat size' + 4095) div 4096" op] by simp
qed

definition flushable :: "sbi_tlb_info \<Rightarrow> bool" where
  "flushable t \<longleftrightarrow> sz t < SBI_TLB_FLUSH_MAX_SIZE \<or> sz t = SBI_TLB_FLUSH_ALL"

lemma flushable_upgrade [simp]: "flushable (tlb_upgrade t)"
  by (auto simp: flushable_def tlb_upgrade_def)

lemmas fence_defs = sbi_tlb_fifo_sfence_vma_def sbi_tlb_fifo_sfence_vma_asid_def sbi_tlb_fifo_hfence_gvma_def
  sbi_tlb_fifo_hfence_gvma_vmid_def sbi_tlb_fifo_hfence_vvma_def sbi_tlb_fifo_hfence_vvma_asid_def

lemma local_flush_total: "flushable t \<Longrightarrow> \<exists>l. sbi_tlb_local_flush hgatp t = Some l"
  by (auto simp: sbi_tlb_local_flush_def fence_defs flushable_def flush_loop_small split: tlb_type.splits)

section \<open>The handshake\<close>

lemma mask_harts_single: "h < 64 \<Longrightarrow> mask_harts (push_bit h 1) i = [i + h]"
proof (induction h arbitrary: i)
  case 0
  have "mask_harts 0 (i + 1) = []" by (simp add: mask_harts.simps)
  then show ?case by (simp add: mask_harts.simps [of 1])
next
  case (Suc h)
  have "(2 :: u64) ^ Suc h \<noteq> 0" unfolding exp_eq_zero_iff using Suc.prems by simp
  then have "push_bit (Suc h) (1 :: u64) \<noteq> 0" by (simp only: push_bit_eq_mult mult_1 not_False_eq_True)
  moreover have "push_bit (Suc h) (1 :: u64) AND 1 = 0" by (rule bit_word_eqI) (auto simp: bit_simps)
  moreover have "drop_bit 1 (push_bit (Suc h) (1 :: u64)) = push_bit h 1"
    using Suc.prems by (intro bit_word_eqI) (auto simp: bit_simps)
  ultimately have "mask_harts (push_bit (Suc h) 1) i = [] @ mask_harts (push_bit h 1) (i + 1)"
    by (subst mask_harts.simps) (simp only: if_False if_True simp_thms)
  then show ?case using Suc.IH [of "i + 1"] Suc.prems by simp
qed

lemma push_bit_inj: "h < 64 \<Longrightarrow> g < 64 \<Longrightarrow> push_bit h (1 :: u64) = push_bit g 1 \<longleftrightarrow> h = g"
  by (metis bit_push_bit_iff bit_1_iff diff_is_0_eq diff_self_eq_0 le_antisym mask_harts_single add_0 list.inject)

lemma fifo_update_loop_id:
  assumes "\<And>i e. fptr i e = (SBI_FIFO_UNCHANGED, e)"
  shows "fifo_update_loop fptr inp k i SBI_FIFO_UNCHANGED f = (SBI_FIFO_UNCHANGED, f)"
  using assms by (induction k arbitrary: i) (simp_all add: Let_def)

lemma sbi_tlb_fifo_update_cb_id: "sbi_tlb_fifo_update_cb (Some inp) (Some e) = (SBI_FIFO_UNCHANGED, Some e)"
  by (simp add: sbi_tlb_fifo_update_cb_def)

lemma inplace_update_id:
  "sbi_fifo_inplace_update (\<lambda>inp e. map_prod id the (sbi_tlb_fifo_update_cb (Some inp) (Some e))) (Some t) (Some f) =
    (SBI_FIFO_UNCHANGED, Some f)"
  by (simp add: sbi_fifo_inplace_update_def sbi_tlb_fifo_update_cb_id fifo_update_loop_id)

definition entries_of :: "nat \<Rightarrow> nat \<Rightarrow> tlb_sys \<Rightarrow> nat" where
  "entries_of n h s = (\<Sum>r<n. length (filter (\<lambda>t. shart_mask t = push_bit h 1) (fifo_list (fifos s ! r))))"

definition fifo_good :: "nat \<Rightarrow> sbi_tlb_info sbi_fifo \<Rightarrow> bool" where
  "fifo_good n f \<longleftrightarrow> fifo_inv f \<and> num_entries f = SBI_TLB_FIFO_NUM_ENTRIES \<and>
     (\<forall>t\<in>set (fifo_list f). flushable t \<and> (\<exists>h<n. shart_mask t = push_bit h 1))"

definition tlb_inv :: "nat \<Rightarrow> tlb_sys \<Rightarrow> bool" where
  "tlb_inv n s \<longleftrightarrow> n \<le> 64 \<and> length (fifos s) = n \<and> length (syncs s) = n \<and> length (waiting s) = n \<and>
     (\<forall>r<n. fifo_good n (fifos s ! r)) \<and>
     (\<forall>h<n. entries_of n h s + of_bool (syncs s ! h) = of_bool (waiting s ! h))"

lemma sum_list_update:
  assumes "r < n" "length xs = n"
  shows "(\<Sum>i<n. g (xs[r := x] ! i)) + g (xs ! r) = (\<Sum>i<n. g (xs ! i)) + (g x :: nat)"
proof -
  have "(\<Sum>i<n. g (xs[r := x] ! i)) = g x + (\<Sum>i\<in>{..<n} - {r}. g (xs[r := x] ! i))"
    using assms by (subst sum.remove [of _ r]) auto
  also have "(\<Sum>i\<in>{..<n} - {r}. g (xs[r := x] ! i)) = (\<Sum>i\<in>{..<n} - {r}. g (xs ! i))"
    by (rule sum.cong) auto
  finally show ?thesis using assms by (subst (2) sum.remove [of _ r]) auto
qed

lemma entries_of_put:
  assumes "r < n" "length (fifos s) = n"
  shows "entries_of n h (s\<lparr>fifos := (fifos s)[r := f]\<rparr>) +
      length (filter (\<lambda>t. shart_mask t = push_bit h 1) (fifo_list (fifos s ! r))) =
    entries_of n h s + length (filter (\<lambda>t. shart_mask t = push_bit h 1) (fifo_list f))"
  unfolding entries_of_def
  using sum_list_update [OF assms, of "\<lambda>f. length (filter (\<lambda>t. shart_mask t = push_bit h 1) (fifo_list f))" f] by simp

lemma tlb_inv_init: "n \<le> 64 \<Longrightarrow> tlb_inv n (tlb_sys_init n)"
  by (simp add: tlb_inv_def tlb_sys_init_def fifo_good_def fifo_inv_def sbi_fifo_init_def fifo_list_def
      entries_of_def SBI_TLB_FIFO_NUM_ENTRIES_def)

lemma tlb_inv_dequeue:
  assumes inv: "tlb_inv n s" and h: "h < n" "fifo_list (fifos s ! h) = t # ts"
    and f': "fifo_inv f'" "fifo_list f' = ts" "num_entries f' = num_entries (fifos s ! h)"
    and g: "g < n" "shart_mask t = push_bit g 1"
  shows "\<not> syncs s ! g"
    and "tlb_inv n (s\<lparr>fifos := (fifos s)[h := f'], ops := l, syncs := (syncs s)[g := True]\<rparr>)"
proof -
  let ?s = "s\<lparr>fifos := (fifos s)[h := f']\<rparr>" let ?r = "s\<lparr>fifos := (fifos s)[h := f'], ops := l, syncs := (syncs s)[g := True]\<rparr>"
  have len: "n \<le> 64" "length (fifos s) = n" "length (syncs s) = n" "length (waiting s) = n"
    using inv by (auto simp: tlb_inv_def)
  have eq: "entries_of n k ?s + of_bool (k = g) = entries_of n k s" if "k < n" for k
    using entries_of_put [OF h(1) len(2), of k f'] h(2) f'(2) g push_bit_inj [of k g] that len(1) by (auto split: if_splits)
  have bal: "entries_of n k s + of_bool (syncs s ! k) = of_bool (waiting s ! k)" if "k < n" for k
    using inv that by (simp add: tlb_inv_def)
  show ns: "\<not> syncs s ! g" using eq [OF g(1)] bal [OF g(1)] by (cases "waiting s ! g") auto
  have "fifo_good n f'"
  proof -
    have "fifo_good n (fifos s ! h)" using inv h(1) by (simp add: tlb_inv_def)
    then show ?thesis using f' h(2) by (simp add: fifo_good_def)
  qed
  then have "\<forall>r<n. fifo_good n (fifos ?r ! r)" using inv h(1) by (simp add: tlb_inv_def nth_list_update)
  moreover have "entries_of n k ?r + of_bool (syncs ?r ! k) = of_bool (waiting ?r ! k)" if k: "k < n" for k
  proof -
    have "entries_of n k ?r = entries_of n k ?s" by (simp add: entries_of_def)
    then show ?thesis using eq [OF k] bal [OF k] ns k len(3) by (cases "k = g") (auto simp: nth_list_update)
  qed
  ultimately show "tlb_inv n ?r" using len by (simp add: tlb_inv_def)
qed

lemma tlb_serve_empty:
  assumes "tlb_inv n s" "h < n" "fifo_list (fifos s ! h) = []"
  shows "tlb_fifo_serve hgatp h s = Some (False, s)"
proof -
  have "fifo_inv (fifos s ! h)" using assms by (simp add: tlb_inv_def fifo_good_def)
  from fq.deq_empty [OF this assms(3)] show ?thesis by (auto simp: tlb_fifo_serve_def split: prod.splits option.splits)
qed

lemma tlb_serve_head:
  assumes inv: "tlb_inv n s" and h: "h < n" and tl: "fifo_list (fifos s ! h) = t # ts"
  shows "\<exists>g l s'. g < n \<and> shart_mask t = push_bit g 1 \<and> sbi_tlb_local_flush hgatp t = Some l \<and>
    tlb_fifo_serve hgatp h s = Some (True, s') \<and> tlb_inv n s' \<and> fifo_list (fifos s' ! h) = ts \<and>
    syncs s' = (syncs s)[g := True] \<and> ops s' = ops s @ map (Pair h) l"
proof -
  let ?f = "fifos s ! h"
  have good: "fifo_good n ?f" and len: "length (fifos s) = n" using inv h by (auto simp: tlb_inv_def)
  then have finv: "fifo_inv ?f" by (simp add: fifo_good_def)
  have "\<not> fifo_is_empty ?f" using tl by (cases "avail ?f") (simp_all add: fifo_is_empty_def fifo_list_def)
  then obtain f' where f': "sbi_fifo_dequeue True (Some ?f) = (0, Some t, Some f')" "fifo_inv f'"
    "fifo_list f' = ts" "num_entries f' = num_entries ?f"
    using fifo_dequeue_list [OF finv] tl by (metis list.sel(1,3))
  obtain g where g: "g < n" "shart_mask t = push_bit g 1"
    using good tl unfolding fifo_good_def by auto
  obtain l where l: "sbi_tlb_local_flush hgatp t = Some l"
    using local_flush_total good tl unfolding fifo_good_def by (metis list.set_intros(1))
  note deq = tlb_inv_dequeue(1) [OF inv h tl f'(2-4) g] tlb_inv_dequeue(2) [OF inv h tl f'(2-4) g, of "ops s @ map (Pair h) l"]
  have "g < 64" "g < length (syncs s)" using inv g(1) by (auto simp: tlb_inv_def)
  then have "sync_set (mask_harts (shart_mask t) 0) (syncs s) = Some ((syncs s)[g := True])"
    using deq(1) by (simp add: g(2) mask_harts_single del: push_bit_of_1)
  then have "tlb_fifo_serve hgatp h s =
      Some (True, s\<lparr>fifos := (fifos s)[h := f'], ops := ops s @ map (Pair h) l, syncs := (syncs s)[g := True]\<rparr>)"
    using f'(1) l by (simp add: tlb_fifo_serve_def sbi_tlb_entry_process_def)
  then show ?thesis using g l deq(2) f'(3) h len by (intro exI conjI) (assumption | simp)+
qed

lemma tlb_serve_keeps:
  assumes "tlb_inv n s" "h < n" "tlb_fifo_serve hgatp h s = Some (b, s')"
  shows "tlb_inv n s'"
proof (cases "fifo_list (fifos s ! h)")
  case Nil
  then show ?thesis using tlb_serve_empty [OF assms(1,2), of hgatp] assms by simp
next
  case (Cons t ts)
  then show ?thesis using tlb_serve_head [OF assms(1,2) Cons, of hgatp] assms(3) by auto
qed

lemma tlb_process_count_keeps:
  "tlb_inv n s \<Longrightarrow> h < n \<Longrightarrow> tlb_process_count hgatp h k s = Some s' \<Longrightarrow> tlb_inv n s'"
  by (induction k arbitrary: s) (auto simp: bind_eq_Some_conv split: if_splits dest: tlb_serve_keeps)

lemma tlb_inv_enqueue:
  assumes inv: "tlb_inv n s" and h: "h < n" "\<not> waiting s ! h" and r: "r < n" "\<not> fifo_is_full (fifos s ! r)"
    and t: "shart_mask t = push_bit h 1" "flushable t"
  shows "tlb_inv n (s\<lparr>fifos := (fifos s)[r := fifo_enqueue t (fifos s ! r)], waiting := (waiting s)[h := True]\<rparr>)"
proof -
  let ?f = "fifo_enqueue t (fifos s ! r)" let ?s = "s\<lparr>fifos := (fifos s)[r := ?f]\<rparr>"
  let ?r = "s\<lparr>fifos := (fifos s)[r := ?f], waiting := (waiting s)[h := True]\<rparr>"
  have len: "n \<le> 64" "length (fifos s) = n" "length (syncs s) = n" "length (waiting s) = n"
    using inv by (auto simp: tlb_inv_def)
  have good: "fifo_good n (fifos s ! r)" using inv r(1) by (simp add: tlb_inv_def)
  then have enq: "fifo_inv ?f" "fifo_list ?f = fifo_list (fifos s ! r) @ [t]"
    using fifo_enqueue_list [OF _ r(2)] by (auto simp: fifo_good_def)
  have eq: "entries_of n k ?s = entries_of n k s + of_bool (k = h)" if "k < n" for k
    using entries_of_put [OF r(1) len(2), of k ?f] enq(2) t(1) push_bit_inj [of k h] that h(1) len(1) by auto
  have bal: "entries_of n k s + of_bool (syncs s ! k) = of_bool (waiting s ! k)" if "k < n" for k
    using inv that by (simp add: tlb_inv_def)
  have "fifo_good n ?f" using good enq t h(1) by (auto simp: fifo_good_def fifo_enqueue_def Let_def)
  then have "\<forall>i<n. fifo_good n (fifos ?r ! i)" using inv r(1) by (simp add: tlb_inv_def nth_list_update)
  moreover have "entries_of n k ?r + of_bool (syncs ?r ! k) = of_bool (waiting ?r ! k)" if k: "k < n" for k
  proof -
    have "entries_of n k ?r = entries_of n k ?s" by (simp add: entries_of_def)
    then show ?thesis using eq [OF k] bal [OF k] h(2) k len(4) by (cases "k = h") (auto simp: nth_list_update)
  qed
  ultimately show ?thesis using len by (simp add: tlb_inv_def)
qed

lemma tlb_upgrade_mask [simp]: "shart_mask (tlb_upgrade t) = shart_mask t"
  by (simp add: tlb_upgrade_def)

text \<open>What \<open>sbi_tlb_fifo_update\<close> does for another hart: the callback never coalesces.\<close>

lemma tlb_update_remote:
  assumes "tlb_inv n s" "r < n" "r \<noteq> cur"
  shows "sbi_tlb_fifo_update hgatp cur r t s =
    (if fifo_is_full (fifos s ! r) then map_option (Pair None) (tlb_process_count hgatp cur 1 s)
     else Some (Some 0, s\<lparr>fifos := (fifos s)[r := fifo_enqueue (tlb_upgrade t) (fifos s ! r)]\<rparr>))"
proof -
  have "fifo_inv (fifos s ! r)" "r < length (fifos s)" using assms by (auto simp: tlb_inv_def fifo_good_def)
  then show ?thesis using assms(3)
    by (simp add: sbi_tlb_fifo_update_def Let_def inplace_update_id sbi_fifo_enqueue_def
        ENOSPC_def list_update_id del: tlb_process_count.simps)
qed

lemma tlb_step_keeps: "tlb_step n s s' \<Longrightarrow> tlb_inv n s \<Longrightarrow> tlb_inv n s'"
proof (induction rule: tlb_step.induct)
  case (send h r s t st size' as vm ty hgatp ret s')
  then show ?case
    using tlb_inv_enqueue [OF send.prems send(1,4,2), of "tlb_upgrade t"]
    by (auto simp: tlb_update_remote SBI_TLB_INFO_TYPE_def split: if_splits)
next
  case (full h r s t st size' as vm ty hgatp s')
  then show ?case
    by (auto simp: tlb_update_remote simp del: tlb_process_count.simps split: if_splits
        intro: tlb_process_count_keeps)
next
  case (serve h hgatp s s')
  then show ?case by (rule_tac tlb_serve_keeps)
next
  case (synced h s)
  let ?r = "s\<lparr>syncs := (syncs s)[h := False], waiting := (waiting s)[h := False]\<rparr>"
  have "entries_of n k ?r = entries_of n k s" for k by (simp add: entries_of_def)
  then show ?case using synced by (auto simp: tlb_inv_def nth_list_update)
qed

lemma tlb_reachable_inv: "(tlb_step n)\<^sup>*\<^sup>* s s' \<Longrightarrow> tlb_inv n s \<Longrightarrow> tlb_inv n s'"
  by (induction rule: rtranclp_induct) (auto intro: tlb_step_keeps)

text \<open>An entry at position \<open>k\<close> of a queue is served by \<open>process_count\<close> with count \<open>k\<close>.\<close>

lemma tlb_served_at:
  "tlb_inv n s \<Longrightarrow> r < n \<Longrightarrow> k < length (fifo_list (fifos s ! r)) \<Longrightarrow> h < n \<Longrightarrow>
   shart_mask (fifo_list (fifos s ! r) ! k) = push_bit h 1 \<Longrightarrow>
   \<exists>s'. tlb_process_count hgatp r k s = Some s' \<and> syncs s' ! h"
proof (induction k arbitrary: s)
  case 0
  then obtain t ts where ts: "fifo_list (fifos s ! r) = t # ts" by (cases "fifo_list (fifos s ! r)") auto
  from tlb_serve_head [OF 0(1,2) ts, of hgatp] obtain g l s' where s': "g < n" "shart_mask t = push_bit g 1"
    "tlb_fifo_serve hgatp r s = Some (True, s')" "syncs s' = (syncs s)[g := True]" by blast
  have "g = h" using push_bit_inj [of g h] s'(1,2) 0 ts by (auto simp: tlb_inv_def simp del: push_bit_of_1)
  then show ?case using s' 0 by (simp add: tlb_inv_def)
next
  case (Suc k)
  then obtain t ts where ts: "fifo_list (fifos s ! r) = t # ts" by (cases "fifo_list (fifos s ! r)") auto
  from tlb_serve_head [OF Suc.prems(1,2) ts, of hgatp] obtain s' where s':
    "tlb_fifo_serve hgatp r s = Some (True, s')" "tlb_inv n s'" "fifo_list (fifos s' ! r) = ts" by blast
  show ?case using Suc.IH [OF s'(2) Suc.prems(2)] Suc.prems ts s' by simp
qed

lemma tlb_waiting_entry:
  assumes "tlb_inv n s" "h < n" "waiting s ! h" "\<not> syncs s ! h"
  shows "\<exists>r<n. \<exists>k<length (fifo_list (fifos s ! r)). shart_mask (fifo_list (fifos s ! r) ! k) = push_bit h 1"
proof (rule ccontr)
  assume "\<not> ?thesis"
  then have "filter (\<lambda>t. shart_mask t = push_bit h 1) (fifo_list (fifos s ! r)) = []" if "r < n" for r
    using that by (auto simp: filter_empty_conv in_set_conv_nth simp del: push_bit_of_1)
  then have "entries_of n h s = 0" by (simp add: entries_of_def del: push_bit_of_1)
  moreover have "entries_of n h s + of_bool (syncs s ! h) = of_bool (waiting s ! h)"
    using assms(1,2) by (simp add: tlb_inv_def)
  ultimately show False using assms by simp
qed

section \<open>Correctness\<close>

lemma tlb_queue_bound: "tlb_inv n s \<Longrightarrow> r < n \<Longrightarrow> length (fifo_list (fifos s ! r)) \<le> 8"
  by (auto simp: tlb_inv_def fifo_good_def fifo_inv_def fifo_list_def SBI_TLB_FIFO_NUM_ENTRIES_def)

text \<open>
  C3: in every state that the harts can reach from the start (up to 64 harts, any interleaving of
  their requests), the handshake is balanced: a hart that waits has either its sync word set or
  exactly one request queued somewhere, never both, and a hart that does not wait has neither. If
  its word is not yet set, its request sits at some position \<open>k < 8\<close> of some queue and serving
  \<open>k + 1\<close> entries of that queue, which always succeeds, sets the word: no requester is lost.
\<close>

theorem tlb_handshake:
  assumes "n \<le> 64" "(tlb_step n)\<^sup>*\<^sup>* (tlb_sys_init n) s" "h < n"
  shows "entries_of n h s + of_bool (syncs s ! h) = of_bool (waiting s ! h) \<and>
    (waiting s ! h \<and> \<not> syncs s ! h \<longrightarrow>
      (\<exists>r<n. \<exists>k<8. shart_mask (fifo_list (fifos s ! r) ! k) = push_bit h 1 \<and>
        (\<exists>s'. tlb_process_count hgatp r k s = Some s' \<and> syncs s' ! h)))"
proof -
  have inv: "tlb_inv n s" by (rule tlb_reachable_inv [OF assms(2) tlb_inv_init [OF assms(1)]])
  then have "entries_of n h s + of_bool (syncs s ! h) = of_bool (waiting s ! h)" using assms(3) by (simp add: tlb_inv_def)
  then show ?thesis
    using tlb_waiting_entry [OF inv assms(3)] tlb_served_at [OF inv _ _ assms(3)] tlb_queue_bound [OF inv]
    by (meson order_less_le_trans)
qed

definition tlb_demo_info :: sbi_tlb_info where
  "tlb_demo_info = SBI_TLB_INFO_TYPE 0x80000000 0x2000 0 0 SBI_TLB_FLUSH_VMA 0"

definition tlb_demo :: tlb_sys where
  "tlb_demo = (tlb_sys_init 2)\<lparr>fifos := (fifos (tlb_sys_init 2))[1 := fifo_enqueue tlb_demo_info (fifos (tlb_sys_init 2) ! 1)],
     waiting := [True, False]\<rparr>"

lemma tlb_demo_step: "tlb_step 2 (tlb_sys_init 2) tlb_demo"
proof -
  have "tlb_upgrade tlb_demo_info = tlb_demo_info"
    by (simp add: tlb_upgrade_def tlb_demo_info_def SBI_TLB_INFO_TYPE_def SBI_TLB_FLUSH_MAX_SIZE_def)
  then have "sbi_tlb_fifo_update 0 0 1 tlb_demo_info (tlb_sys_init 2) = Some (Some 0, (tlb_sys_init 2)\<lparr>fifos :=
      (fifos (tlb_sys_init 2))[1 := fifo_enqueue tlb_demo_info (fifos (tlb_sys_init 2) ! 1)]\<rparr>)"
    using tlb_update_remote [OF tlb_inv_init, of 2 1 0 0 tlb_demo_info]
    by (simp add: fifo_is_full_def tlb_sys_init_def sbi_fifo_init_def SBI_TLB_FIFO_NUM_ENTRIES_def del: tlb_process_count.simps)
  from tlb_step.send [OF _ _ _ _ tlb_demo_info_def this] show ?thesis
    by (simp add: tlb_demo_def tlb_sys_init_def numeral_2_eq_2)
qed

theorem tlb_handshake_witness:
  "waiting tlb_demo ! 0 \<and> \<not> syncs tlb_demo ! 0 \<and> entries_of 2 0 tlb_demo = 1 \<and>
   (\<exists>r<2. \<exists>k<8. shart_mask (fifo_list (fifos tlb_demo ! r) ! k) = push_bit 0 1 \<and>
      (\<exists>s'. tlb_process_count 0 r k tlb_demo = Some s' \<and> syncs s' ! 0))"
proof -
  have "waiting tlb_demo ! 0" "\<not> syncs tlb_demo ! 0" by (simp_all add: tlb_demo_def tlb_sys_init_def)
  then show ?thesis
    using tlb_handshake [of 2 tlb_demo 0 0, OF _ r_into_rtranclp [of "tlb_step 2", OF tlb_demo_step]] by simp
qed

subsection \<open>Coverage of a flush\<close>

fun op_all :: "tlb_op \<Rightarrow> bool" where
  "op_all FlushAll = True"
| "op_all (FlushAsidAll _) = True"
| "op_all GvmaAll = True"
| "op_all (GvmaVmid _) = True"
| "op_all VvmaAll = True"
| "op_all (VvmaAsid _) = True"
| "op_all _ = False"

fun op_page :: "tlb_op \<Rightarrow> u64 option" where
  "op_page (FlushPage p) = Some p"
| "op_page (FlushAsidPage _ p) = Some p"
| "op_page (GvmaGpa g) = Some (push_bit 2 g)"
| "op_page (GvmaVmidGpa g _) = Some (push_bit 2 g)"
| "op_page (VvmaVa p) = Some p"
| "op_page (VvmaAsidVa p _) = Some p"
| "op_page _ = None"

definition flushes :: "u64 \<Rightarrow> tlb_op \<Rightarrow> bool" where
  "flushes a x \<longleftrightarrow> op_all x \<or> (\<exists>p. op_page x = Some p \<and> drop_bit 12 p = drop_bit 12 a)"



lemma page_gpa: "drop_bit 12 (push_bit 2 (drop_bit 2 p)) = drop_bit 12 (p :: u64)"
  by (rule bit_word_eqI) (auto simp: bit_simps dest: bit_imp_le_length)


lemma flushes_simps [simp]:
  "flushes a FlushAll" "flushes a GvmaAll" "flushes a VvmaAll"
  "flushes a (FlushAsidAll as)" "flushes a (GvmaVmid vm)" "flushes a (VvmaAsid as)"
  "flushes a (FlushPage p) \<longleftrightarrow> drop_bit 12 p = drop_bit 12 a"
  "flushes a (FlushAsidPage as p) \<longleftrightarrow> drop_bit 12 p = drop_bit 12 a"
  "flushes a (VvmaVa p) \<longleftrightarrow> drop_bit 12 p = drop_bit 12 a"
  "flushes a (VvmaAsidVa p as) \<longleftrightarrow> drop_bit 12 p = drop_bit 12 a"
  "flushes a (GvmaGpa (drop_bit 2 p)) \<longleftrightarrow> drop_bit 12 p = drop_bit 12 a"
  "flushes a (GvmaVmidGpa (drop_bit 2 p) vm) \<longleftrightarrow> drop_bit 12 p = drop_bit 12 a"
  by (simp_all add: flushes_def page_gpa)



end
