(* ===== verification/Sbi_Hsm.thy ===== *)
theory Sbi_Hsm
  imports Prelude
begin

text \<open>
  Hart state management of the SBI runtime (\<open>arch/riscv/sbi/sbi_hsm.c\<close>,
  \<open>arch/riscv/sbi/sbi_ecall_hsm.c\<close>): the state word of each hart, changed by compare-and-exchange
  only, the calls that a supervisor makes on it, and the boot path of \<open>sbi_init.c\<close> that waits on it.
  The platform operations and the PMP check are parameters.
\<close>

section \<open>Model\<close>

subsection \<open>State\<close>

definition SBI_HART_STOPPED :: int where "SBI_HART_STOPPED = 0"
definition SBI_HART_STOPPING :: int where "SBI_HART_STOPPING = 1"
definition SBI_HART_STARTING :: int where "SBI_HART_STARTING = 2"
definition SBI_HART_STARTED :: int where "SBI_HART_STARTED = 3"

lemmas hart_states = SBI_HART_STOPPED_def SBI_HART_STOPPING_def SBI_HART_STARTING_def SBI_HART_STARTED_def

definition SBI_ENOTSUPP :: int where "SBI_ENOTSUPP = - 2"
definition SBI_EINVAL :: int where "SBI_EINVAL = - 3"
definition SBI_ERR_DENIED :: int where "SBI_ERR_DENIED = - 4"
definition SBI_EALREADY_STARTED :: int where "SBI_EALREADY_STARTED = - 7"
definition SBI_ENOMEM :: int where "SBI_ENOMEM = - 1006"

lemmas sbi_errors = SBI_ENOTSUPP_def SBI_EINVAL_def SBI_ERR_DENIED_def SBI_EALREADY_STARTED_def SBI_ENOMEM_def

text \<open>
  What the functions ask of the platform, and what they do to the hardware. \<open>pmp_check\<close> is
  \<open>sbi_hart_pmp_check_addr\<close> for execution, \<open>init_count\<close> how often a hart has booted.
\<close>

record sbi_platform =
  hart_count :: nat
  hart_disabled :: "nat \<Rightarrow> bool"
  has_hotplug :: bool
  has_secondary_boot :: bool
  hart_start :: "nat \<Rightarrow> int"
  hart_stop_returns :: bool
  pmp_check :: "u64 \<Rightarrow> int"
  init_count :: "nat \<Rightarrow> nat"
  hart_cpu :: "nat \<Rightarrow> nat"
  cpu_hart :: "nat \<Rightarrow> nat"

datatype hsm_op = MieSetMsi nat | MieRestore nat | IpiClear nat | IpiSend nat | HartStart nat | HartStop nat | Warmboot nat

text \<open>Where a hart is: in \<open>sbi_hsm_hart_wait\<close>, between it and the jump, or in supervisor mode.\<close>

datatype hart_pc = Waiting | Booting | Running

record hsm_sys =
  hstates :: "int list"
  next_arg1 :: "u64 list"
  next_addr :: "u64 list"
  pcs :: "hart_pc list"
  hsm_log :: "hsm_op list"

definition hsm_cmpxchg :: "nat \<Rightarrow> int \<Rightarrow> int \<Rightarrow> hsm_sys \<Rightarrow> int \<times> hsm_sys" where
  "hsm_cmpxchg h old new s =
     (hstates s ! h, if hstates s ! h = old then s\<lparr>hstates := (hstates s)[h := new]\<rparr> else s)"

subsection \<open>Operations\<close>

definition sbi_hsm_hart_state_to_status :: "int \<Rightarrow> int" where
  "sbi_hsm_hart_state_to_status st =
     (if st = SBI_HART_STOPPED then 1
      else if st = SBI_HART_STOPPING then 3
      else if st = SBI_HART_STARTING then 2
      else if st = SBI_HART_STARTED then 0
      else SBI_EINVAL)"

text \<open>No function checks the hart number; a number without a scratch area is an invalid access.\<close>

definition sbi_hsm_hart_get_state :: "nat \<Rightarrow> hsm_sys \<Rightarrow> int res" where
  "sbi_hsm_hart_get_state hartid s = (if hartid < length (hstates s) then Inr (hstates s ! hartid) else Inl Oob)"

definition sbi_hsm_hart_started :: "nat \<Rightarrow> hsm_sys \<Rightarrow> bool res" where
  "sbi_hsm_hart_started hartid s = bindR (sbi_hsm_hart_get_state hartid s) (\<lambda>st. Inr (st = SBI_HART_STARTED))"

definition sbi_hsm_prepare_next_jump :: "nat \<Rightarrow> hsm_sys \<Rightarrow> hsm_sys res" where
  "sbi_hsm_prepare_next_jump h s =
     (let (oldstate, s) = hsm_cmpxchg h SBI_HART_STARTING SBI_HART_STARTED s
      in if oldstate \<noteq> SBI_HART_STARTING then Inl Bug else Inr s)"

text \<open>\<open>None\<close> while the loop waits.\<close>

definition sbi_hsm_hart_wait :: "nat \<Rightarrow> hsm_sys \<Rightarrow> hsm_sys option" where
  "sbi_hsm_hart_wait h s =
     (if hstates s ! h \<noteq> SBI_HART_STARTING then None
      else Some (s\<lparr>hsm_log := hsm_log s @ [MieSetMsi h, MieRestore h, IpiClear h]\<rparr>))"

text \<open>
  The cold boot branch, with \<open>offset\<close> what \<open>sbi_scratch_alloc_offset\<close> returned. Every other hart is
  in \<open>sbi_hsm_hart_wait\<close>, the warm boot branch, or on its way there.
\<close>

definition sbi_hsm_init :: "sbi_platform \<Rightarrow> u64 \<Rightarrow> nat \<Rightarrow> hsm_sys \<Rightarrow> int \<times> hsm_sys" where
  "sbi_hsm_init plat offset hartid s =
     (if offset = 0 then (SBI_ENOMEM, s)
      else (0, s\<lparr>hstates := map (\<lambda>i. if i = hartid then SBI_HART_STARTING else SBI_HART_STOPPED) [0..<hart_count plat]\<rparr>))"

text \<open>
  It never returns: \<open>Inr\<close> is the jump to the warm boot path or the hart stopped by its platform, a
  fault the panic.
\<close>

definition sbi_hsm_exit :: "sbi_platform \<Rightarrow> nat \<Rightarrow> hsm_sys \<Rightarrow> hsm_sys res" where
  "sbi_hsm_exit plat h s =
     (let (hstate, s) = hsm_cmpxchg h SBI_HART_STOPPING SBI_HART_STOPPED s
      in if hstate \<noteq> SBI_HART_STOPPING then Inl Bug
         else if has_hotplug plat
         then if hart_stop_returns plat then Inl Bug else Inr (s\<lparr>hsm_log := hsm_log s @ [HartStop h]\<rparr>)
         else Inr (s\<lparr>hsm_log := hsm_log s @ [Warmboot h]\<rparr>))"

definition sbi_hsm_hart_start :: "sbi_platform \<Rightarrow> nat \<Rightarrow> u64 \<Rightarrow> u64 \<Rightarrow> hsm_sys \<Rightarrow> (int \<times> hsm_sys) res" where
  "sbi_hsm_hart_start plat hartid saddr priv s =
     (if hart_disabled plat hartid then Inr (SBI_EINVAL, s)
      else if \<not> hartid < length (hstates s) then Inl Oob
      else let (hstate, s) = hsm_cmpxchg hartid SBI_HART_STOPPED SBI_HART_STARTING s
      in if hstate = SBI_HART_STARTED then Inr (SBI_EALREADY_STARTED, s)
         else if hstate \<noteq> SBI_HART_STOPPED then Inr (SBI_EINVAL, s)
         else let rc = pmp_check plat saddr
         in if rc \<noteq> 0 then Inr (rc, s)
            else let s = s\<lparr>next_arg1 := (next_arg1 s)[hartid := priv], next_addr := (next_addr s)[hartid := saddr]\<rparr>
            in if has_hotplug plat \<or> has_secondary_boot plat \<and> init_count plat hartid = 0
               then Inr (hart_start plat hartid, s\<lparr>hsm_log := hsm_log s @ [HartStart hartid]\<rparr>)
               else Inr (0, s\<lparr>hsm_log := hsm_log s @ [IpiSend (hart_cpu plat hartid)]\<rparr>))"

definition sbi_hsm_hart_stop :: "sbi_platform \<Rightarrow> nat \<Rightarrow> bool \<Rightarrow> hsm_sys \<Rightarrow> (int \<times> hsm_sys) res" where
  "sbi_hsm_hart_stop plat cur exitnow s =
     (if hart_disabled plat cur then Inr (SBI_EINVAL, s)
      else bindR (sbi_hsm_hart_started cur s) (\<lambda>started.
        if \<not> started then Inr (SBI_EINVAL, s)
        else let (oldstate, s) = hsm_cmpxchg cur SBI_HART_STARTED SBI_HART_STOPPING s
        in if oldstate \<noteq> SBI_HART_STARTED then Inr (SBI_ERR_DENIED, s) else Inr (0, s)))"

text \<open>The environment call: its return code, the value it writes for the caller, the new state.\<close>

definition sbi_ecall_hsm_handler ::
  "sbi_platform \<Rightarrow> nat \<Rightarrow> u64 \<Rightarrow> u64 \<Rightarrow> u64 \<Rightarrow> u64 \<Rightarrow> hsm_sys \<Rightarrow> (int \<times> int option \<times> hsm_sys) res" where
  "sbi_ecall_hsm_handler plat cur funcid a0 a1 a2 s =
     bindR (if funcid = 0 then sbi_hsm_hart_start plat (unat (ucast a0 :: u32)) a1 a2 s
            else if funcid = 1 then sbi_hsm_hart_stop plat cur True s
            else if funcid = 2
            then bindR (sbi_hsm_hart_get_state (unat (ucast a0 :: u32)) s)
              (\<lambda>hstate. Inr (sbi_hsm_hart_state_to_status hstate, s))
            else Inr (SBI_ENOTSUPP, s))
       (\<lambda>(ret, s). if ret \<ge> 0 then Inr (0, Some ret, s) else Inr (ret, None, s))"

subsection \<open>Harts\<close>

text \<open>
  A hart leaves the wait, finishes its boot, or makes a call from supervisor mode. Nothing in the
  sources calls \<open>sbi_hsm_exit\<close>.
\<close>

inductive hsm_step :: "sbi_platform \<Rightarrow> hsm_sys \<Rightarrow> hsm_sys \<Rightarrow> bool" for plat where
  wake: "h < hart_count plat \<Longrightarrow> pcs s ! h = Waiting \<Longrightarrow> sbi_hsm_hart_wait h s = Some s' \<Longrightarrow>
    hsm_step plat s (s'\<lparr>pcs := (pcs s')[h := Booting]\<rparr>)"
| jump: "h < hart_count plat \<Longrightarrow> pcs s ! h = Booting \<Longrightarrow> sbi_hsm_prepare_next_jump h s = Inr s' \<Longrightarrow>
    hsm_step plat s (s'\<lparr>pcs := (pcs s')[h := Running]\<rparr>)"
| ecall: "h < hart_count plat \<Longrightarrow> pcs s ! h = Running \<Longrightarrow>
    sbi_ecall_hsm_handler plat h funcid a0 a1 a2 s = Inr (ret, out, s') \<Longrightarrow> hsm_step plat s s'"

definition hsm_boot :: "sbi_platform \<Rightarrow> nat \<Rightarrow> hsm_sys" where
  "hsm_boot plat cold =
     snd (sbi_hsm_init plat 1 cold
       \<lparr>hstates = [], next_arg1 = replicate (hart_count plat) 0, next_addr = replicate (hart_count plat) 0,
        pcs = map (\<lambda>i. if i = cold then Booting else Waiting) [0..<hart_count plat], hsm_log = []\<rparr>)"

section \<open>Lemmas\<close>

definition hsm_trans :: "int \<Rightarrow> int \<Rightarrow> bool" where
  "hsm_trans a b \<longleftrightarrow> a = SBI_HART_STOPPED \<and> b = SBI_HART_STARTING \<or> a = SBI_HART_STARTING \<and> b = SBI_HART_STARTED \<or>
     a = SBI_HART_STARTED \<and> b = SBI_HART_STOPPING"

fun pc_state :: "hart_pc \<Rightarrow> int \<Rightarrow> bool" where
  "pc_state Waiting st \<longleftrightarrow> st = SBI_HART_STOPPED \<or> st = SBI_HART_STARTING"
| "pc_state Booting st \<longleftrightarrow> st = SBI_HART_STARTING"
| "pc_state Running st \<longleftrightarrow> st = SBI_HART_STARTED \<or> st = SBI_HART_STOPPING"

definition hsm_inv :: "sbi_platform \<Rightarrow> hsm_sys \<Rightarrow> bool" where
  "hsm_inv plat s \<longleftrightarrow> length (hstates s) = hart_count plat \<and> length (pcs s) = hart_count plat \<and>
     (\<forall>h<hart_count plat. pc_state (pcs s ! h) (hstates s ! h))"

lemma hsm_inv_boot: "hsm_inv plat (hsm_boot plat cold)"
  by (simp add: hsm_inv_def hsm_boot_def sbi_hsm_init_def)

lemma start_effect:
  "sbi_hsm_hart_start plat h saddr priv s = Inr (ret, s') \<Longrightarrow>
   pcs s' = pcs s \<and> (hstates s' = hstates s \<or>
     h < length (hstates s) \<and> hstates s ! h = SBI_HART_STOPPED \<and> hstates s' = (hstates s)[h := SBI_HART_STARTING])"
  by (auto simp: sbi_hsm_hart_start_def hsm_cmpxchg_def Let_def split: if_splits)

lemma stop_effect:
  "sbi_hsm_hart_stop plat h e s = Inr (ret, s') \<Longrightarrow>
   pcs s' = pcs s \<and> (hstates s' = hstates s \<or>
     h < length (hstates s) \<and> hstates s ! h = SBI_HART_STARTED \<and> hstates s' = (hstates s)[h := SBI_HART_STOPPING])"
  by (auto simp: sbi_hsm_hart_stop_def sbi_hsm_hart_started_def sbi_hsm_hart_get_state_def hsm_cmpxchg_def Let_def
      split: if_splits)

lemma ecall_effect:
  assumes "sbi_ecall_hsm_handler plat h funcid a0 a1 a2 s = Inr (ret, out, s')"
  shows "pcs s' = pcs s \<and> (hstates s' = hstates s \<or>
    (\<exists>k<length (hstates s). hstates s ! k = SBI_HART_STOPPED \<and> hstates s' = (hstates s)[k := SBI_HART_STARTING]) \<or>
    h < length (hstates s) \<and> hstates s ! h = SBI_HART_STARTED \<and> hstates s' = (hstates s)[h := SBI_HART_STOPPING])"
  using assms unfolding sbi_ecall_hsm_handler_def
  by (auto simp: bindR_eq_Inr_iff split: if_splits dest: start_effect stop_effect)

lemma hsm_step_effect:
  assumes "hsm_step plat s s'" "hsm_inv plat s"
  shows "hsm_inv plat s' \<and> (hstates s' = hstates s \<or>
    (\<exists>k<hart_count plat. \<exists>st. hsm_trans (hstates s ! k) st \<and> hstates s' = (hstates s)[k := st]))"
  using assms
proof (induction rule: hsm_step.induct)
  case (wake h s s')
  then show ?case by (auto simp: sbi_hsm_hart_wait_def hsm_inv_def nth_list_update split: if_splits)
next
  case (jump h s s')
  then have "hstates s ! h = SBI_HART_STARTING" "hstates s' = (hstates s)[h := SBI_HART_STARTED]" "pcs s' = pcs s"
    by (auto simp: sbi_hsm_prepare_next_jump_def hsm_cmpxchg_def Let_def split: if_splits)
  then show ?case using jump by (auto simp: hsm_inv_def nth_list_update hsm_trans_def)
next
  case (ecall h s funcid a0 a1 a2 ret out s')
  have pc: "pc_state (pcs s ! k) (hstates s ! k)" if "k < hart_count plat" for k using ecall that by (simp add: hsm_inv_def)
  from ecall_effect [OF ecall(3)] show ?case
  proof (elim conjE disjE exE)
    fix k assume k: "pcs s' = pcs s" "k < length (hstates s)" "hstates s ! k = SBI_HART_STOPPED"
      "hstates s' = (hstates s)[k := SBI_HART_STARTING]"
    then have "pcs s ! k = Waiting" using pc [of k] ecall.prems
      by (cases "pcs s ! k") (auto simp: hsm_inv_def hart_states)
    then show ?thesis using k ecall.prems by (auto simp: hsm_inv_def nth_list_update hsm_trans_def)
  qed (use ecall in \<open>auto simp: hsm_inv_def nth_list_update hsm_trans_def\<close>)
qed

lemma hsm_reachable_inv: "(hsm_step plat)\<^sup>*\<^sup>* (hsm_boot plat cold) s \<Longrightarrow> hsm_inv plat s"
  by (induction rule: rtranclp_induct) (auto simp: hsm_inv_boot dest: hsm_step_effect)

lemma stopping_stays:
  "(hsm_step plat)\<^sup>*\<^sup>* s s' \<Longrightarrow> hsm_inv plat s \<Longrightarrow> h < hart_count plat \<Longrightarrow> hstates s ! h = SBI_HART_STOPPING \<Longrightarrow>
   hsm_inv plat s' \<and> hstates s' ! h = SBI_HART_STOPPING"
proof (induction rule: rtranclp_induct)
  case (step y z)
  then have y: "hsm_inv plat y" "hstates y ! h = SBI_HART_STOPPING" by auto
  then show ?case using hsm_step_effect [OF step(2) y(1)] step.prems(2)
    by (auto simp: hsm_inv_def nth_list_update hsm_trans_def hart_states)
qed simp

section \<open>Correctness\<close>

text \<open>
  C5: in every state that the harts can reach from a cold boot, whatever they call and in whatever
  order, the state word of a hart agrees with where the hart is: it waits while stopped or starting,
  boots while starting, and runs while started or stopping. So the check before the jump to the
  next stage never panics, and every step changes at most one hart, along the edges stopped to
  starting to started to stopping.
\<close>

theorem hsm_state_machine:
  assumes "(hsm_step plat)\<^sup>*\<^sup>* (hsm_boot plat cold) s" "h < hart_count plat"
  shows "pc_state (pcs s ! h) (hstates s ! h) \<and>
    (pcs s ! h = Booting \<longrightarrow>
      sbi_hsm_prepare_next_jump h s = Inr (s\<lparr>hstates := (hstates s)[h := SBI_HART_STARTED]\<rparr>)) \<and>
    (\<forall>s'. hsm_step plat s s' \<longrightarrow> hstates s' = hstates s \<or>
      (\<exists>k<hart_count plat. \<exists>st. hsm_trans (hstates s ! k) st \<and> hstates s' = (hstates s)[k := st]))"
proof -
  have inv: "hsm_inv plat s" by (rule hsm_reachable_inv [OF assms(1)])
  then have "pc_state (pcs s ! h) (hstates s ! h)" using assms(2) by (simp add: hsm_inv_def)
  then show ?thesis using hsm_step_effect [OF _ inv]
    by (auto simp: sbi_hsm_prepare_next_jump_def hsm_cmpxchg_def)
qed

definition hsm_plat :: sbi_platform where
  "hsm_plat = \<lparr>hart_count = 2, hart_disabled = (\<lambda>_. False), has_hotplug = False, has_secondary_boot = False,
     hart_start = (\<lambda>_. 0), hart_stop_returns = False, pmp_check = (\<lambda>a. if a < 0x80000000 then - 5 else 0),
     init_count = (\<lambda>_. 0), hart_cpu = id, cpu_hart = id\<rparr>"

lemma hsm_plat_simps [simp]:
  "hart_count hsm_plat = 2" "\<not> hart_disabled hsm_plat h" "\<not> has_hotplug hsm_plat" "\<not> has_secondary_boot hsm_plat"
  "pmp_check hsm_plat a = (if a < 0x80000000 then - 5 else 0)" "hart_cpu hsm_plat h = h"
  by (simp_all add: hsm_plat_def)

lemma hsm_boot_demo:
  "hsm_boot hsm_plat 0 = \<lparr>hstates = [2, 0], next_arg1 = [0, 0], next_addr = [0, 0], pcs = [Booting, Waiting], hsm_log = []\<rparr>"
  by (simp add: hsm_boot_def sbi_hsm_init_def hart_states numeral_2_eq_2)

theorem hsm_state_machine_witness:
  "sbi_hsm_prepare_next_jump 0 (hsm_boot hsm_plat 0) =
     Inr (hsm_boot hsm_plat 0\<lparr>hstates := (hstates (hsm_boot hsm_plat 0))[0 := SBI_HART_STARTED]\<rparr>)"
  using hsm_state_machine [of hsm_plat 0 "hsm_boot hsm_plat 0" 0, OF rtranclp.rtrancl_refl]
  by (simp add: hsm_boot_demo hart_states)

text \<open>
  The start call on an enabled hart, case by case. A stopped hart with an address that may be
  executed gets its entry point and argument, becomes starting, and is started through the platform
  or woken by an interrupt; a started one is refused as already started, one in transition as
  invalid, without a change. So of several starts exactly the first takes effect.
\<close>

theorem hsm_hart_start_exact:
  assumes "\<not> hart_disabled plat h" "h < length (hstates s)" "pmp_check plat saddr = 0"
  shows "sbi_hsm_hart_start plat h saddr priv s =
    (if hstates s ! h = SBI_HART_STOPPED
     then let s' = s\<lparr>hstates := (hstates s)[h := SBI_HART_STARTING], next_arg1 := (next_arg1 s)[h := priv],
                    next_addr := (next_addr s)[h := saddr]\<rparr>
       in if has_hotplug plat \<or> has_secondary_boot plat \<and> init_count plat h = 0
          then Inr (hart_start plat h, s'\<lparr>hsm_log := hsm_log s @ [HartStart h]\<rparr>)
          else Inr (0, s'\<lparr>hsm_log := hsm_log s @ [IpiSend (hart_cpu plat h)]\<rparr>)
     else Inr (if hstates s ! h = SBI_HART_STARTED then SBI_EALREADY_STARTED else SBI_EINVAL, s)) \<and>
    (\<forall>r s' saddr' priv'. sbi_hsm_hart_start plat h saddr priv s = Inr (r, s') \<longrightarrow> hstates s ! h = SBI_HART_STOPPED \<longrightarrow>
      sbi_hsm_hart_start plat h saddr' priv' s' = Inr (SBI_EINVAL, s'))"
  using assms by (auto simp: sbi_hsm_hart_start_def hsm_cmpxchg_def Let_def hart_states)

theorem hsm_hart_start_exact_witness:
  "sbi_hsm_hart_start hsm_plat 1 0x80200000 7 (hsm_boot hsm_plat 0) =
     Inr (0, \<lparr>hstates = [2, 2], next_arg1 = [0, 7], next_addr = [0, 0x80200000], pcs = [Booting, Waiting],
       hsm_log = [IpiSend 1]\<rparr>)"
  using hsm_hart_start_exact [of hsm_plat 1 "hsm_boot hsm_plat 0" "0x80200000" 7]
  by (simp add: hsm_boot_demo hart_states)

text \<open>
  A start with an address that the PMP check refuses returns the error but leaves the hart
  starting: every later start is refused as invalid, and the hart leaves its wait loop and boots
  into the entry point it had before.
\<close>

theorem hsm_start_refused_boots:
  assumes "\<not> hart_disabled plat h" "h < length (hstates s)" "hstates s ! h = SBI_HART_STOPPED" "pmp_check plat saddr \<noteq> 0"
  shows "\<exists>s'. sbi_hsm_hart_start plat h saddr priv s = Inr (pmp_check plat saddr, s') \<and>
    next_addr s' = next_addr s \<and> next_arg1 s' = next_arg1 s \<and> sbi_hsm_hart_wait h s' \<noteq> None \<and>
    (\<forall>saddr' priv'. sbi_hsm_hart_start plat h saddr' priv' s' = Inr (SBI_EINVAL, s'))"
  using assms by (auto simp: sbi_hsm_hart_start_def sbi_hsm_hart_wait_def hsm_cmpxchg_def Let_def hart_states)

theorem hsm_start_refused_boots_witness:
  "\<exists>s'. sbi_hsm_hart_start hsm_plat 1 0x1000 7 (hsm_boot hsm_plat 0) = Inr (- 5, s') \<and>
    next_addr s' = [0, 0] \<and> sbi_hsm_hart_wait 1 s' \<noteq> None"
  using hsm_start_refused_boots [of hsm_plat 1 "hsm_boot hsm_plat 0" "0x1000" 7]
  by (auto simp: hsm_boot_demo hart_states)

text \<open>
  A hart that stops itself gets success back and stays in the stopping state for ever: its status
  is stop-pending in every later state, and no start of it is accepted.
\<close>

theorem hsm_stop_never_stops:
  assumes "(hsm_step plat)\<^sup>*\<^sup>* (hsm_boot plat cold) s" "h < hart_count plat" "\<not> hart_disabled plat h" "hstates s ! h = SBI_HART_STARTED"
  shows "\<exists>s1. sbi_hsm_hart_stop plat h True s = Inr (0, s1) \<and>
    (\<forall>s2 saddr priv. (hsm_step plat)\<^sup>*\<^sup>* s1 s2 \<longrightarrow>
      sbi_hsm_hart_state_to_status (hstates s2 ! h) = 3 \<and>
      sbi_hsm_hart_start plat h saddr priv s2 = Inr (SBI_EINVAL, s2))"
proof -
  have inv: "hsm_inv plat s" by (rule hsm_reachable_inv [OF assms(1)])
  let ?s = "s\<lparr>hstates := (hstates s)[h := SBI_HART_STOPPING]\<rparr>"
  have len: "h < length (hstates s)" using inv assms(2) by (simp add: hsm_inv_def)
  have "sbi_hsm_hart_stop plat h True s = Inr (0, ?s)" using assms(3,4) len
    by (simp add: sbi_hsm_hart_stop_def sbi_hsm_hart_started_def sbi_hsm_hart_get_state_def hsm_cmpxchg_def)
  moreover have "pc_state (pcs s ! h) (hstates s ! h)" using inv assms(2) by (simp add: hsm_inv_def)
  then have "pcs s ! h = Running" using assms(4) by (cases "pcs s ! h") (auto simp: hart_states)
  then have "hsm_inv plat ?s" using inv len by (auto simp: hsm_inv_def nth_list_update)
  then have "hsm_inv plat s2 \<and> hstates s2 ! h = SBI_HART_STOPPING" if "(hsm_step plat)\<^sup>*\<^sup>* ?s s2" for s2
    using stopping_stays [OF that _ assms(2)] len by simp
  moreover have "sbi_hsm_hart_start plat h saddr priv s2 = Inr (SBI_EINVAL, s2)"
    if "hsm_inv plat s2" "hstates s2 ! h = SBI_HART_STOPPING" for s2 saddr priv
    using that assms(2,3) by (simp add: sbi_hsm_hart_start_def hsm_cmpxchg_def hsm_inv_def hart_states)
  ultimately show ?thesis
    by (intro exI [of _ ?s]) (auto simp: sbi_hsm_hart_state_to_status_def hart_states)
qed

lemma hsm_demo_started: "hsm_step hsm_plat (hsm_boot hsm_plat 0)
    \<lparr>hstates = [3, 0], next_arg1 = [0, 0], next_addr = [0, 0], pcs = [Running, Waiting], hsm_log = []\<rparr>"
  using hsm_step.jump [of 0 hsm_plat "hsm_boot hsm_plat 0"]
  by (simp add: hsm_boot_demo sbi_hsm_prepare_next_jump_def hsm_cmpxchg_def hart_states)

theorem hsm_stop_never_stops_witness:
  "\<exists>s1. sbi_hsm_hart_stop hsm_plat 0 True
      \<lparr>hstates = [3, 0], next_arg1 = [0, 0], next_addr = [0, 0], pcs = [Running, Waiting], hsm_log = []\<rparr> = Inr (0, s1) \<and>
    sbi_hsm_hart_state_to_status (hstates s1 ! 0) = 3"
  using hsm_stop_never_stops [of hsm_plat 0, OF r_into_rtranclp [of "hsm_step hsm_plat", OF hsm_demo_started], of 0]
  by (auto simp: hart_states)

end
