(* ===== verification/Sbi_Ipi.thy ===== *)
theory Sbi_Ipi
  imports Sbi_Hsm
begin

text \<open>
  Inter-processor interrupts of the SBI runtime (\<open>arch/riscv/sbi/sbi_ipi.c\<close>): a word of pending
  event bits per hart, the loop that sends an event to a set of harts, and the handler that takes
  the word and acts on its bits. The queueing of a remote fence and its completion
  (\<open>Sbi_Tlb\<close>) are parameters here, since other harts act in between.
\<close>

section \<open>Model\<close>

definition SBI_IPI_EVENT_SOFT :: nat where "SBI_IPI_EVENT_SOFT = 1"
definition SBI_IPI_EVENT_RFENCE :: nat where "SBI_IPI_EVENT_RFENCE = 2"
definition SBI_IPI_EVENT_HALT :: nat where "SBI_IPI_EVENT_HALT = 16"

lemmas ipi_events = SBI_IPI_EVENT_SOFT_def SBI_IPI_EVENT_RFENCE_def SBI_IPI_EVENT_HALT_def

text \<open>
  \<open>ipi_types\<close> is the atomic word of each hart; \<open>lines\<close> the interrupt line of each CPU; \<open>ssip\<close> the
  supervisor's software interrupt; \<open>sent\<close> and \<open>recvd\<close> the firmware counters.
\<close>

record ipi_sys =
  ipi_types :: "u32 list"
  lines :: "nat set"
  ssip :: "bool list"
  sent :: nat
  recvd :: nat
  msie :: "bool list"

record rfence_ops =
  fifo_update :: "nat \<Rightarrow> ipi_sys \<Rightarrow> int \<times> ipi_sys"
  fifo_sync :: "ipi_sys \<Rightarrow> ipi_sys"
  fifo_process :: "nat \<Rightarrow> ipi_sys \<Rightarrow> ipi_sys"





definition sbi_ipi_clear_smode :: "nat \<Rightarrow> ipi_sys \<Rightarrow> ipi_sys" where
  "sbi_ipi_clear_smode h s = s\<lparr>ssip := (ssip s)[h := False]\<rparr>"

text \<open>The switch of the handler, and the loop over the bits, lowest first. The word is signed: its shift is a division.\<close>

definition ipi_event_do :: "rfence_ops \<Rightarrow> nat \<Rightarrow> nat \<Rightarrow> ipi_sys \<Rightarrow> ipi_sys res" where
  "ipi_event_do rf h ipi_event s =
     (if ipi_event = SBI_IPI_EVENT_SOFT then Inr (s\<lparr>ssip := (ssip s)[h := True]\<rparr>)
      else if ipi_event = SBI_IPI_EVENT_RFENCE then Inr (fifo_process rf h s)
      else if ipi_event = SBI_IPI_EVENT_HALT then Inl Bug
      else Inr s)"

partial_function (option) ipi_process_loop :: "rfence_ops \<Rightarrow> nat \<Rightarrow> int \<Rightarrow> nat \<Rightarrow> ipi_sys \<Rightarrow> ipi_sys res option" where
  "ipi_process_loop rf h ipi_type ipi_event s =
     (if ipi_type = 0 then Some (Inr s)
      else case (if ipi_type mod 2 = 0 then Inr s else ipi_event_do rf h ipi_event s) of
        Inl e \<Rightarrow> Some (Inl e)
      | Inr s \<Rightarrow> ipi_process_loop rf h (ipi_type div 2) (ipi_event + 1) s)"

definition sbi_ipi_process :: "sbi_platform \<Rightarrow> rfence_ops \<Rightarrow> nat \<Rightarrow> ipi_sys \<Rightarrow> ipi_sys res option" where
  "sbi_ipi_process plat rf h s =
     ipi_process_loop rf h (sint (ipi_types s ! h)) 0
       (s\<lparr>recvd := recvd s + 1, lines := lines s - {hart_cpu plat h}, ipi_types := (ipi_types s)[h := 0]\<rparr>)"

text \<open>\<open>off\<close> is the offset of the word in the scratch area, \<open>tlb_init\<close> and \<open>plat_init\<close> what the calls return.\<close>

definition sbi_ipi_init :: "u64 \<Rightarrow> int \<Rightarrow> int \<Rightarrow> nat \<Rightarrow> ipi_sys \<Rightarrow> int \<times> ipi_sys" where
  "sbi_ipi_init off tlb_init plat_init h s =
     (if off = 0 then (- ENOMEM, s)
      else let s = s\<lparr>ipi_types := (ipi_types s)[h := 0]\<rparr>
      in if tlb_init \<noteq> 0 then (tlb_init, s)
         else (plat_init, s\<lparr>msie := (msie s)[h := True]\<rparr>))"

section \<open>Lemmas\<close>

definition ipi_run :: "rfence_ops \<Rightarrow> nat \<Rightarrow> nat list \<Rightarrow> ipi_sys res \<Rightarrow> ipi_sys res" where
  "ipi_run rf h evs r = foldl (\<lambda>r e. bindR r (ipi_event_do rf h e)) r evs"

lemma ipi_run_append [simp]: "ipi_run rf h (xs @ ys) r = ipi_run rf h ys (ipi_run rf h xs r)"
  by (simp add: ipi_run_def)

lemma ipi_run_Cons [simp]: "ipi_run rf h (x # xs) r = ipi_run rf h xs (bindR r (ipi_event_do rf h x))"
  by (simp add: ipi_run_def)

lemma ipi_run_Nil [simp]: "ipi_run rf h [] r = r"
  by (simp add: ipi_run_def)

lemma ipi_run_Inl [simp]: "ipi_run rf h xs (Inl e) = Inl e"
  by (induction xs) auto

lemma ipi_run_idle:
  "\<forall>e\<in>set xs. e \<noteq> 1 \<and> e \<noteq> 2 \<and> e \<noteq> 16 \<Longrightarrow> ipi_run rf h xs r = r"
  by (induction xs arbitrary: r; case_tac r) (auto simp: ipi_event_do_def ipi_events)

lemma ipi_process_loop_bits:
  "0 \<le> t \<Longrightarrow> t < 2 ^ k \<Longrightarrow>
   ipi_process_loop rf h t ev s = Some (ipi_run rf h (map ((+) ev) (filter (bit t) [0..<k])) (Inr s))"
proof (induction k arbitrary: t ev s)
  case 0
  then show ?case by (simp add: ipi_process_loop.simps)
next
  case (Suc k)
  show ?case
  proof (cases "t = 0")
    case False
    have split: "filter (bit t) [0..<Suc k] = (if t mod 2 = 0 then [] else [0]) @ map Suc (filter (bit (t div 2)) [0..<k])"
    proof -
      have "[0..<Suc k] = 0 # map Suc [0..<k]" by (simp add: map_Suc_upt upt_conv_Cons)
      then show ?thesis by (auto simp: filter_map comp_def bit_Suc bit_0 even_iff_mod_2_eq_zero)
    qed
    have IH: "ipi_process_loop rf h (t div 2) (ev + 1) s' =
        Some (ipi_run rf h (map ((+) (ev + 1)) (filter (bit (t div 2)) [0..<k])) (Inr s'))" for s'
      using Suc.prems by (intro Suc.IH) auto
    have map: "map ((+) ev) (map Suc xs) = map ((+) (ev + 1)) xs" for xs by simp
    show ?thesis using False IH unfolding split map_append map
      by (subst ipi_process_loop.simps) (auto split: sum.splits)
  qed (simp add: ipi_process_loop.simps)
qed






section \<open>Correctness\<close>


definition ipi_demo :: ipi_sys where
  "ipi_demo = \<lparr>ipi_types = [0, 0, 0, 0], lines = {}, ssip = [False, False, False, False], sent = 0, recvd = 0,
     msie = [True, True, True, True]\<rparr>"

definition ipi_demo_rf :: rfence_ops where
  "ipi_demo_rf = \<lparr>fifo_update = (\<lambda>_ s. (0, s)), fifo_sync = id, fifo_process = (\<lambda>_ s. s)\<rparr>"



text \<open>
  C33: a hart that handles its interrupt takes the whole word, clears it and its interrupt line, and
  acts on the pending events in ascending order: a soft event raises the supervisor's software
  interrupt, a remote fence drains the queue, a halt stops the hart after both; other bits are
  ignored. The loop ends whenever the top bit is clear.
\<close>

theorem sbi_ipi_process_exact:
  assumes "\<not> bit (ipi_types s ! h) 31"
  shows "sbi_ipi_process plat rf h s = Some
    (let w = ipi_types s ! h;
         s1 = s\<lparr>recvd := recvd s + 1, lines := lines s - {hart_cpu plat h}, ipi_types := (ipi_types s)[h := 0]\<rparr>;
         s2 = (if bit w SBI_IPI_EVENT_SOFT then s1\<lparr>ssip := (ssip s1)[h := True]\<rparr> else s1);
         s3 = (if bit w SBI_IPI_EVENT_RFENCE then fifo_process rf h s2 else s2)
     in if bit w SBI_IPI_EVENT_HALT then Inl Bug else Inr s3)"
proof -
  let ?w = "ipi_types s ! h"
  have t: "sint ?w = uint ?w" using assms unfolding sint_uint
    by (intro bit_eqI) (auto simp: bit_signed_take_bit_iff bit_uint_iff min_def not_le less_Suc_eq_le dest: le_antisym)
  have "uint ?w < 2 ^ 32" using unsigned_less [of ?w, where 'a = int] by simp
  then have run: "ipi_process_loop rf h (sint ?w) 0 s' =
      Some (ipi_run rf h (map ((+) 0) (filter (bit (uint ?w)) [0..<32])) (Inr s'))" for s'
    unfolding t by (intro ipi_process_loop_bits) simp_all
  have bits: "filter (bit (uint ?w)) [0..<32] = filter (bit ?w) [0..<32]"
    by (rule filter_cong) (auto simp: bit_uint_iff)
  have "[0..<32] = [0, 1, 2] @ [3..<16] @ [16] @ [17..<32]" by (simp add: upt_rec)
  then have all: "filter (bit (uint ?w)) [0..<32] =
      filter (bit ?w) [0, 1, 2] @ filter (bit ?w) [3..<16] @ filter (bit ?w) [16] @ filter (bit ?w) [17..<32]"
    unfolding bits by (simp only: filter_append)
  have idle: "ipi_run rf h (filter P [3..<16]) r = r" "ipi_run rf h (filter P [17..<32]) r = r" for P r
    by (rule ipi_run_idle, unfold set_filter set_upt, fastforce)+
  have id: "map ((+) 0) xs = xs" for xs :: "nat list" by (induction xs) simp_all
  have loop: "ipi_process_loop rf h (sint ?w) 0 s' =
      Some (ipi_run rf h (filter (bit ?w) [16]) (ipi_run rf h (filter (bit ?w) [0, 1, 2]) (Inr s')))" for s'
    by (simp only: run id all ipi_run_append idle)
  show ?thesis unfolding sbi_ipi_process_def loop Let_def ipi_events
    by (cases "bit ?w 0"; cases "bit ?w 1"; cases "bit ?w 2"; cases "bit ?w 16") (simp_all add: ipi_event_do_def ipi_events)
qed

theorem sbi_ipi_process_exact_witness:
  "sbi_ipi_process hsm_plat ipi_demo_rf 1 (ipi_demo\<lparr>ipi_types := [0, 2, 0, 0], lines := {1}\<rparr>) =
     Some (Inr (ipi_demo\<lparr>ssip := [False, True, False, False], recvd := 1\<rparr>))"
  using sbi_ipi_process_exact [of "ipi_demo\<lparr>ipi_types := [0, 2, 0, 0], lines := {1}\<rparr>" 1 hsm_plat ipi_demo_rf]
  by (simp add: ipi_events ipi_demo_def hsm_plat_def bit_numeral_simps)

end
