(* ===== verification/Mem_Regions.thy ===== *)
theory Mem_Regions
  imports Prelude
begin

text \<open>
  The region tables of the boot-time memory manager (\<open>kernel/mem.c\<close>): arrays of regions in
  ascending order, one for the memory of the machine and one for what is reserved. Addresses are
  natural numbers below \<open>2 ^ 64\<close>; additions and subtractions wrap as \<open>phys_addr_t\<close> does. A table that
  is full stops the CPU, as in a build without \<open>CONFIG_MEM_RESIZE\<close>.
\<close>

section \<open>Model\<close>

definition padd :: "nat \<Rightarrow> nat \<Rightarrow> nat" where
  "padd a b = (a + b) mod 2 ^ 64"

definition psub :: "nat \<Rightarrow> nat \<Rightarrow> nat" where
  "psub a b = (a + (2 ^ 64 - b mod 2 ^ 64)) mod 2 ^ 64"

text \<open>
  A region is its base and its size. \<open>regions\<close> holds the \<open>cnt\<close> live entries of the array, \<open>maxr\<close>
  its length. An empty table has one entry of size 0.
\<close>

type_synonym region = "nat \<times> nat"

record mem_type =
  regions :: "region list"
  maxr :: nat
  total_size :: nat

definition mem_type_init :: "nat \<Rightarrow> mem_type" where
  "mem_type_init mx = \<lparr>regions = [(0, 0)], maxr = mx, total_size = 0\<rparr>"

subsection \<open>Insertion and merging\<close>

definition mem_insert_region :: "nat \<Rightarrow> nat \<Rightarrow> nat \<Rightarrow> mem_type \<Rightarrow> mem_type" where
  "mem_insert_region idx b s t =
     t\<lparr>regions := take idx (regions t) @ (b, s) # drop idx (regions t), total_size := padd (total_size t) s\<rparr>"

function mem_merge_loop :: "nat \<Rightarrow> region list \<Rightarrow> region list res" where
  "mem_merge_loop i rs =
     (if i + 1 < length rs
      then let (tb, ts) = rs ! i; (nb, ns) = rs ! (i + 1)
           in if padd tb ts \<noteq> nb
              then if padd tb ts > nb then Inl Bug else mem_merge_loop (i + 1) rs
              else mem_merge_loop i (take i rs @ (tb, padd ts ns) # drop (i + 2) rs)
      else Inr rs)"
  by pat_completeness auto
termination by (relation "measure (\<lambda>(i, rs). length rs - i)") auto

declare mem_merge_loop.simps [simp del]

definition mem_merge_regions :: "mem_type \<Rightarrow> mem_type res" where
  "mem_merge_regions t = bindR (mem_merge_loop 0 (regions t)) (\<lambda>rs. Inr (t\<lparr>regions := rs\<rparr>))"

text \<open>
  One pass of \<open>mem_add_range\<close>: the table, how many regions the new area needs, the part of it that
  is still to be inserted, and where. With \<open>insert\<close> false nothing is changed.
\<close>

function mem_add_loop :: "bool \<Rightarrow> nat \<Rightarrow> nat \<Rightarrow> nat \<Rightarrow> nat \<Rightarrow> mem_type \<Rightarrow> nat \<times> nat \<times> nat \<times> mem_type" where
  "mem_add_loop ins end' idx b nr_new t =
     (if idx < length (regions t)
      then let (rbase, rsize) = regions t ! idx; rend = padd rbase rsize
           in if rbase \<ge> end' then (idx, b, nr_new, t)
              else if rend \<le> b then mem_add_loop ins end' (idx + 1) b nr_new t
              else if rbase > b
              then if ins
                   then mem_add_loop ins end' (idx + 2) (min rend end') (nr_new + 1) (mem_insert_region idx b (psub rbase b) t)
                   else mem_add_loop ins end' (idx + 1) (min rend end') (nr_new + 1) t
              else mem_add_loop ins end' (idx + 1) (min rend end') nr_new t
      else (idx, b, nr_new, t))"
  by pat_completeness auto
termination
  by (relation "measure (\<lambda>(ins, end', idx, b, nr_new, t). length (regions t) - idx)")
    (auto simp: mem_insert_region_def)

declare mem_add_loop.simps [simp del]

definition mem_add_pass :: "bool \<Rightarrow> nat \<Rightarrow> nat \<Rightarrow> mem_type \<Rightarrow> nat \<times> mem_type" where
  "mem_add_pass ins obase end' t =
     (let (idx, b, nr_new, t) = mem_add_loop ins end' 0 obase 0 t
      in if b < end' then (nr_new + 1, if ins then mem_insert_region idx b (psub end' b) t else t) else (nr_new, t))"

definition mem_add_range :: "nat \<Rightarrow> nat \<Rightarrow> mem_type \<Rightarrow> mem_type res" where
  "mem_add_range b s t =
     (let end' = padd b s
      in if s = 0 then Inr t
         else if snd (regions t ! 0) = 0 then Inr (t\<lparr>regions := (regions t)[0 := (b, s)], total_size := s\<rparr>)
         else let nr_new = fst (mem_add_pass False b end' t)
         in if length (regions t) + nr_new > maxr t then Inl Bug
            else mem_merge_regions (snd (mem_add_pass True b end' t)))"

subsection \<open>Isolation and removal\<close>

text \<open>
  The loop of \<open>mem_isolate_range\<close> splits the regions that cross an end of the range and records
  the indices of those inside it.
\<close>

partial_function (option) mem_isolate_loop ::
  "nat \<Rightarrow> nat \<Rightarrow> nat \<Rightarrow> nat \<Rightarrow> nat \<Rightarrow> mem_type \<Rightarrow> (nat \<times> nat \<times> mem_type) option" where
  "mem_isolate_loop b end' idx start_rgn end_rgn t =
     (if idx < length (regions t)
      then case regions t ! idx of (rbase, rsize) \<Rightarrow>
        if rbase \<ge> end' then Some (start_rgn, end_rgn, t)
        else if padd rbase rsize \<le> b then mem_isolate_loop b end' (idx + 1) start_rgn end_rgn t
        else if rbase < b
        then mem_isolate_loop b end' (idx + 1) start_rgn end_rgn
          (mem_insert_region idx rbase (psub b rbase)
            (t\<lparr>regions := (regions t)[idx := (b, psub rsize (psub b rbase))],
               total_size := psub (total_size t) (psub b rbase)\<rparr>))
        else if padd rbase rsize > end'
        then mem_isolate_loop b end' idx start_rgn end_rgn
          (mem_insert_region idx rbase (psub end' rbase)
            (t\<lparr>regions := (regions t)[idx := (end', psub rsize (psub end' rbase))],
               total_size := psub (total_size t) (psub end' rbase)\<rparr>))
        else mem_isolate_loop b end' (idx + 1) (if end_rgn = 0 then idx else start_rgn) (idx + 1) t
      else Some (start_rgn, end_rgn, t))"

definition mem_isolate_range :: "nat \<Rightarrow> nat \<Rightarrow> mem_type \<Rightarrow> (nat \<times> nat \<times> mem_type) res" where
  "mem_isolate_range b s t =
     (if s = 0 then Inr (0, 0, t)
      else if length (regions t) + 2 > maxr t then Inl Bug
      else case mem_isolate_loop b (padd b s) 0 0 0 t of None \<Rightarrow> Inl Stuck | Some r \<Rightarrow> Inr r)"

definition mem_remove_region :: "nat \<Rightarrow> mem_type \<Rightarrow> mem_type res" where
  "mem_remove_region r t =
     (let t = t\<lparr>regions := take r (regions t) @ drop (r + 1) (regions t),
               total_size := psub (total_size t) (snd (regions t ! r))\<rparr>
      in if regions t = [] then if total_size t \<noteq> 0 then Inl Bug else Inr (t\<lparr>regions := [(0, 0)]\<rparr>)
         else Inr t)"

text \<open>The loop from \<open>end_rgn - 1\<close> down to \<open>start_rgn\<close>; \<open>k\<close> is how many are left.\<close>

fun mem_remove_loop :: "nat \<Rightarrow> nat \<Rightarrow> mem_type \<Rightarrow> mem_type res" where
  "mem_remove_loop start_rgn 0 t = Inr t"
| "mem_remove_loop start_rgn (Suc k) t = bindR (mem_remove_region (start_rgn + k) t) (mem_remove_loop start_rgn k)"

definition mem_remove_range :: "nat \<Rightarrow> nat \<Rightarrow> mem_type \<Rightarrow> mem_type res" where
  "mem_remove_range b s t =
     bindR (mem_isolate_range b s t) (\<lambda>(start_rgn, end_rgn, t). mem_remove_loop start_rgn (end_rgn - start_rgn) t)"

section \<open>Region lists\<close>

definition rset :: "region list \<Rightarrow> nat set" where
  "rset rs = (\<Union>(b, s)\<in>set rs. {b..<b + s})"

definition region_ok :: "region \<Rightarrow> bool" where
  "region_ok r \<longleftrightarrow> 0 < snd r \<and> fst r + snd r < 2 ^ 64"

text \<open>Ascending and disjoint; with \<open>gapped\<close> no two regions touch.\<close>

definition ordered :: "region list \<Rightarrow> bool" where
  "ordered rs \<longleftrightarrow> (\<forall>r\<in>set rs. region_ok r) \<and> sorted_wrt (\<lambda>r q. fst r + snd r \<le> fst q) rs"

definition gapped :: "region list \<Rightarrow> bool" where
  "gapped rs \<longleftrightarrow> (\<forall>r\<in>set rs. region_ok r) \<and> sorted_wrt (\<lambda>r q. fst r + snd r < fst q) rs"

abbreviation rsum :: "region list \<Rightarrow> nat" where
  "rsum rs \<equiv> sum_list (map snd rs)"

lemma rset_simps [simp]:
  "rset [] = {}" "rset (r # rs) = {fst r..<fst r + snd r} \<union> rset rs" "rset (rs @ qs) = rset rs \<union> rset qs"
  by (auto simp: rset_def)

lemma ordered_simps [simp]:
  "ordered []"
  "ordered (r # rs) \<longleftrightarrow> region_ok r \<and> (\<forall>q\<in>set rs. fst r + snd r \<le> fst q) \<and> ordered rs"
  "ordered (rs @ qs) \<longleftrightarrow> ordered rs \<and> ordered qs \<and> (\<forall>r\<in>set rs. \<forall>q\<in>set qs. fst r + snd r \<le> fst q)"
  by (auto simp: ordered_def sorted_wrt_append)

lemma gapped_simps [simp]:
  "gapped []"
  "gapped (r # rs) \<longleftrightarrow> region_ok r \<and> (\<forall>q\<in>set rs. fst r + snd r < fst q) \<and> gapped rs"
  "gapped (rs @ qs) \<longleftrightarrow> gapped rs \<and> gapped qs \<and> (\<forall>r\<in>set rs. \<forall>q\<in>set qs. fst r + snd r < fst q)"
  by (auto simp: gapped_def sorted_wrt_append)

lemma gapped_ordered: "gapped rs \<Longrightarrow> ordered rs"
  by (induction rs) auto

lemma padd_small [simp]: "a + b < 2 ^ 64 \<Longrightarrow> padd a b = a + b"
  by (simp add: padd_def)

lemma psub_small [simp]: "b \<le> a \<Longrightarrow> a < 2 ^ 64 \<Longrightarrow> psub a b = a - b"
proof -
  assume "b \<le> a" "a < 2 ^ 64"
  then have "a + (2 ^ 64 - b mod 2 ^ 64) = (a - b) + 2 ^ 64" by simp
  then show "psub a b = a - b" using \<open>a < 2 ^ 64\<close> unfolding psub_def by simp
qed

lemma padd_mod: "padd (x mod 2 ^ 64) s = (x + s) mod 2 ^ 64"
  by (simp add: padd_def mod_add_left_eq)

lemma add_diff_mod: "0 < n \<Longrightarrow> s + (n - s mod n) = n * (s div n + 1)" for s n :: nat
proof -
  assume "0 < n"
  then have "s mod n < n" by simp
  moreover have "s = n * (s div n) + s mod n" by simp
  ultimately have "s + (n - s mod n) = n * (s div n) + n" by linarith
  then show ?thesis by simp
qed

lemma psub_mod: "psub ((x + s) mod 2 ^ 64) s = x mod 2 ^ 64"
proof -
  have "s + (2 ^ 64 - s mod 2 ^ 64) = 2 ^ 64 * (s div 2 ^ 64 + 1)" by (rule add_diff_mod) simp
  then have "(x + s) + (2 ^ 64 - s mod 2 ^ 64) = x + 2 ^ 64 * (s div 2 ^ 64 + 1)" by (simp only: add.assoc)
  then show ?thesis unfolding psub_def mod_add_left_eq by (simp only: mod_mult_self2)
qed

subsection \<open>Merging\<close>

fun merge :: "region list \<Rightarrow> region list" where
  "merge (a # b # rs) = (if fst a + snd a = fst b then merge ((fst a, snd a + snd b) # rs) else a # merge (b # rs))"
| "merge rs = rs"

lemma merge_loop_step:
  assumes "fst a + snd a < 2 ^ 64" "fst b + snd b < 2 ^ 64" "fst a + snd a \<le> fst b"
  shows "mem_merge_loop (length pre) (pre @ a # b # rs) =
    (if fst a + snd a = fst b then mem_merge_loop (length pre) (pre @ (fst a, snd a + snd b) # rs)
     else mem_merge_loop (length pre + 1) (pre @ a # b # rs))"
  using assms by (subst mem_merge_loop.simps) (simp add: nth_append split_beta Let_def)

lemma merge_loop: "ordered rs \<Longrightarrow> mem_merge_loop (length pre) (pre @ rs) = Inr (pre @ merge rs)"
proof (induction rs arbitrary: pre rule: merge.induct)
  case (1 a b rs)
  have step: "mem_merge_loop (length pre) (pre @ a # b # rs) =
    (if fst a + snd a = fst b then mem_merge_loop (length pre) (pre @ (fst a, snd a + snd b) # rs)
     else mem_merge_loop (length pre + 1) (pre @ a # b # rs))"
    using "1.prems" by (intro merge_loop_step) (auto simp: region_ok_def)
  show ?case
  proof (cases "fst a + snd a = fst b")
    case True
    then have "ordered ((fst a, snd a + snd b) # rs)" using "1.prems" by (auto simp: region_ok_def add.assoc [symmetric])
    then show ?thesis using "1.IH"(1) [OF True, of pre] True step by simp
  next
    case False
    then show ?thesis using "1.IH"(2) [OF False, of "pre @ [a]"] "1.prems" step by simp
  qed
qed (simp_all add: mem_merge_loop.simps)

lemma ivl_join: "{a..<a + (s + t)} = {a..<a + s} \<union> {a + s..<a + s + t}" for a :: nat
  by auto

lemma merge_rset: "rset (merge rs) = rset rs"
proof (induction rs rule: merge.induct)
  case (1 a b rs)
  then show ?case by (cases "fst a + snd a = fst b") (simp_all add: ivl_join Un_assoc)
qed simp_all

lemma merge_rsum [simp]: "rsum (merge rs) = rsum rs"
  by (induction rs rule: merge.induct) auto

lemma merge_bases: "fst ` set (merge rs) \<subseteq> fst ` set rs"
  by (induction rs rule: merge.induct) auto

lemma merge_gapped: "ordered rs \<Longrightarrow> gapped (merge rs)"
proof (induction rs rule: merge.induct)
  case (1 a b rs)
  show ?case
  proof (cases "fst a + snd a = fst b")
    case True
    then have "ordered ((fst a, snd a + snd b) # rs)" using 1(3) by (auto simp: region_ok_def add.assoc [symmetric])
    from 1(1) [OF True this] show ?thesis unfolding merge.simps if_P [OF True] .
  next
    case False
    have "fst a + snd a < fst q" if q: "q \<in> set (merge (b # rs))" for q
    proof -
      obtain r where "fst q = fst r" "r \<in> set (b # rs)" using subsetD [OF merge_bases imageI [OF q]] by (rule imageE)
      moreover have "fst a + snd a < fst b" using 1(3) False by simp
      moreover have "fst b \<le> fst r" if "r \<in> set rs" using 1(3) that by (auto dest!: bspec [where x = r])
      ultimately show ?thesis by fastforce
    qed
    moreover have "gapped (merge (b # rs))" using 1(2) [OF False] 1(3) by simp
    ultimately show ?thesis using 1(3) False by simp
  qed
qed auto

lemma merge_length: "length (merge rs) \<le> length rs" and merge_ne: "rs \<noteq> [] \<Longrightarrow> merge rs \<noteq> []"
  by (induction rs rule: merge.induct) auto

subsection \<open>Filling a range\<close>

fun fill :: "nat \<Rightarrow> nat \<Rightarrow> region list \<Rightarrow> region list" where
  "fill b e [] = (if b < e then [(b, e - b)] else [])"
| "fill b e (r # rs) =
     (if e \<le> fst r then (if b < e then [(b, e - b)] else []) @ r # rs
      else if fst r + snd r \<le> b then r # fill b e rs
      else (if b < fst r then [(b, fst r - b)] else []) @ r # fill (min (fst r + snd r) e) e rs)"

lemma fill_rset: "ordered rs \<Longrightarrow> rset (fill b e rs) = rset rs \<union> {b..<e}"
proof (induction rs arbitrary: b)
  case (Cons r rs)
  have IH: "rset (fill b' e rs) = rset rs \<union> {b'..<e}" for b' using Cons by simp
  have pos: "0 < snd r" using Cons.prems by (simp add: region_ok_def)
  show ?case
  proof (cases "e \<le> fst r \<or> fst r + snd r \<le> b")
    case False
    then have "(if b < fst r then {b..<fst r} else {}) \<union> {fst r..<fst r + snd r} \<union> {min (fst r + snd r) e..<e} =
        {fst r..<fst r + snd r} \<union> {b..<e}" by (auto simp: min_def)
    then show ?thesis using False IH by (auto simp: min_def split: if_splits)
  qed (use IH in auto)
qed auto

lemma fill_bounds:
  "q \<in> set (fill b e rs) \<Longrightarrow> q \<in> set rs \<or> b \<le> fst q \<and> 0 < snd q \<and> fst q + snd q \<le> e"
proof (induction rs arbitrary: b)
  case (Cons r rs)
  consider "e \<le> fst r" | "\<not> e \<le> fst r" "fst r + snd r \<le> b" | "\<not> e \<le> fst r" "\<not> fst r + snd r \<le> b" by blast
  then show ?case
  proof cases
    case 3
    then consider "q = r" | "b < fst r" "q = (b, fst r - b)" | "q \<in> set (fill (min (fst r + snd r) e) e rs)"
      using Cons.prems by (auto split: if_splits)
    then show ?thesis
    proof cases
      case third: 3
      then show ?thesis using Cons.IH [OF third] 3 by auto
    qed (use 3 in auto)
  qed (use Cons in \<open>auto split: if_splits\<close>)
qed (auto split: if_splits)

lemma fill_ordered: "ordered rs \<Longrightarrow> e < 2 ^ 64 \<Longrightarrow> ordered (fill b e rs)"
proof (induction rs arbitrary: b)
  case Nil
  then show ?case by (simp add: region_ok_def)
next
  case (Cons r rs)
  then have IH: "ordered (fill b' e rs)" for b' by simp
  show ?case
  proof (cases "e \<le> fst r")
    case True
    then show ?thesis using Cons.prems by (auto simp: region_ok_def)
  next
    case False
    have r: "region_ok r" "\<forall>q\<in>set rs. fst r + snd r \<le> fst q" using Cons.prems by auto
    show ?thesis
    proof (cases "fst r + snd r \<le> b")
      case True
      then have "\<forall>q\<in>set (fill b e rs). fst r + snd r \<le> fst q" using r(2) fill_bounds by fastforce
      then show ?thesis using IH r True False by simp
    next
      case below: False
      let ?m = "min (fst r + snd r) e"
      have "\<forall>q\<in>set (fill ?m e rs). fst r + snd r \<le> fst q"
      proof
        fix q assume q: "q \<in> set (fill ?m e rs)"
        then show "fst r + snd r \<le> fst q" using fill_bounds [OF q] r(2) by (auto simp: min_def split: if_splits)
      qed
      then show ?thesis using IH r False below by (auto simp: region_ok_def)
    qed
  qed
qed

text \<open>The two passes of \<open>mem_add_range\<close> against \<open>fill\<close>.\<close>

definition add_rest :: "nat \<Rightarrow> nat \<times> nat \<times> nat \<times> mem_type \<Rightarrow> nat \<times> mem_type" where
  "add_rest e = (\<lambda>(idx, b, nr, t). if b < e then (nr + 1, mem_insert_region idx b (psub e b) t) else (nr, t))"

lemma add_loop_step:
  assumes "regions t = pre @ r # rs" "region_ok r"
  shows "mem_add_loop ins e (length pre) b nr t =
    (if e \<le> fst r then (length pre, b, nr, t)
     else if fst r + snd r \<le> b then mem_add_loop ins e (length (pre @ [r])) b nr t
     else if b < fst r
     then if ins then mem_add_loop ins e (length (pre @ [(b, fst r - b), r])) (min (fst r + snd r) e) (nr + 1)
                        (mem_insert_region (length pre) b (fst r - b) t)
          else mem_add_loop ins e (length (pre @ [r])) (min (fst r + snd r) e) (nr + 1) t
     else mem_add_loop ins e (length (pre @ [r])) (min (fst r + snd r) e) nr t)"
  using assms by (subst mem_add_loop.simps) (simp add: region_ok_def split_beta Let_def nth_append)

lemma add_loop_end: "regions t = pre \<Longrightarrow> mem_add_loop ins e (length pre) b nr t = (length pre, b, nr, t)"
  by (simp add: mem_add_loop.simps)

lemma insert_at:
  "regions t = pre @ post \<Longrightarrow> total_size t = y mod 2 ^ 64 \<Longrightarrow>
   mem_insert_region (length pre) b s t = t\<lparr>regions := pre @ (b, s) # post, total_size := (y + s) mod 2 ^ 64\<rparr>"
  by (simp add: mem_insert_region_def padd_mod [simplified])

lemma add_loop_insert:
  assumes "e < 2 ^ 64"
  shows "ordered rs \<Longrightarrow> regions t = pre @ rs \<Longrightarrow> total_size t = (y + rsum rs) mod 2 ^ 64 \<Longrightarrow>
    \<exists>n. add_rest e (mem_add_loop True e (length pre) b nr t) =
      (n, t\<lparr>regions := pre @ fill b e rs, total_size := (y + rsum (fill b e rs)) mod 2 ^ 64\<rparr>)"
proof (induction rs arbitrary: pre b nr y t)
  case Nil
  then show ?case using assms by (auto simp: add_loop_end add_rest_def insert_at)
next
  case (Cons r rs)
  note step = add_loop_step [OF Cons.prems(2), of True e b nr]
  have r: "region_ok r" "ordered rs" using Cons.prems(1) by auto
  consider "e \<le> fst r" | "\<not> e \<le> fst r" "fst r + snd r \<le> b" | "\<not> e \<le> fst r" "\<not> fst r + snd r \<le> b" "b < fst r"
    | "\<not> e \<le> fst r" "\<not> fst r + snd r \<le> b" "\<not> b < fst r" by blast
  then show ?case
  proof cases
    case 1
    then show ?thesis using step [OF r(1)] assms Cons.prems
      by (auto simp: add_rest_def insert_at [OF Cons.prems(2,3)] algebra_simps)
  next
    case 2
    then show ?thesis using step [OF r(1)] Cons.IH [OF r(2), of t "pre @ [r]" "y + snd r" b nr] Cons.prems
      by (simp add: algebra_simps)
  next
    case 3
    let ?t = "t\<lparr>regions := pre @ (b, fst r - b) # r # rs, total_size := (y + rsum (r # rs) + (fst r - b)) mod 2 ^ 64\<rparr>"
    have t: "mem_insert_region (length pre) b (fst r - b) t = ?t" using insert_at [OF Cons.prems(2,3)] .
    show ?thesis using 3 step [OF r(1)]
        Cons.IH [OF r(2), of ?t "pre @ [(b, fst r - b), r]" "y + snd r + (fst r - b)" "min (fst r + snd r) e" "nr + 1"]
      unfolding t by (simp add: algebra_simps)
  next
    case 4
    then show ?thesis
      using step [OF r(1)] Cons.IH [OF r(2), of t "pre @ [r]" "y + snd r" "min (fst r + snd r) e" nr] Cons.prems
      by (simp add: algebra_simps)
  qed
qed

lemma add_loop_count:
  "ordered rs \<Longrightarrow> regions t = pre @ rs \<Longrightarrow>
   \<exists>idx b' n. mem_add_loop False e (length pre) b nr t = (idx, b', n, t) \<and>
     (if b' < e then n + 1 else n) + length rs = nr + length (fill b e rs)"
proof (induction rs arbitrary: pre b nr)
  case Nil
  then show ?case by (auto simp: add_loop_end)
next
  case (Cons r rs)
  note step = add_loop_step [OF Cons.prems(2), of False e b nr]
  have r: "region_ok r" "ordered rs" using Cons.prems(1) by auto
  show ?case
    using step [OF r(1)] Cons.IH [OF r(2), of "pre @ [r]" b nr] Cons.prems
      Cons.IH [OF r(2), of "pre @ [r]" "min (fst r + snd r) e" "nr + 1"]
      Cons.IH [OF r(2), of "pre @ [r]" "min (fst r + snd r) e" nr]
    by (auto split: if_splits)
qed

subsection \<open>Cutting out a range\<close>

fun cut_out :: "nat \<Rightarrow> nat \<Rightarrow> region \<Rightarrow> region list" where
  "cut_out b e r =
     (if fst r + snd r \<le> b \<or> e \<le> fst r then [r]
      else (if fst r < b then [(fst r, b - fst r)] else []) @
        (if e < fst r + snd r then [(e, fst r + snd r - e)] else []))"

lemma cut_rset1: "rset (cut_out b e r) = {fst r..<fst r + snd r} - {b..<e}"
  by (cases "fst r + snd r \<le> b \<or> e \<le> fst r"; cases "fst r < b"; cases "e < fst r + snd r") (simp_all, auto)

lemma cut_rset: "rset (concat (map (cut_out b e) rs)) = rset rs - {b..<e}"
  by (induction rs) (simp_all add: cut_rset1 Un_Diff del: cut_out.simps)

lemma cut_within: "q \<in> set (cut_out b e r) \<Longrightarrow> fst r \<le> fst q \<and> fst q + snd q \<le> fst r + snd r"
  by (auto split: if_splits)

lemma cut_gapped: "b < e \<Longrightarrow> gapped rs \<Longrightarrow> gapped (concat (map (cut_out b e) rs))"
proof (induction rs)
  case (Cons r rs)
  have "gapped (cut_out b e r)" using Cons.prems by (auto simp: region_ok_def)
  moreover have "fst p + snd p < fst q" if "p \<in> set (cut_out b e r)" "q \<in> set (cut_out b e q')" "q' \<in> set rs" for p q q'
    using cut_within [OF that(1)] cut_within [OF that(2)] Cons.prems(2) that(3) by fastforce
  ultimately show ?case using Cons by (auto simp del: cut_out.simps)
qed simp

lemma cut_above: "ordered rs \<Longrightarrow> \<forall>q\<in>set rs. e \<le> fst q \<Longrightarrow> concat (map (cut_out b e) rs) = rs"
  by (induction rs) auto

lemma padd_psub: "v < 2 ^ 64 \<Longrightarrow> padd (psub v x) x = v"
proof -
  assume "v < 2 ^ 64"
  have "x + (2 ^ 64 - x mod 2 ^ 64) = 2 ^ 64 * (x div 2 ^ 64 + 1)" by (rule add_diff_mod) simp
  then have "v + (2 ^ 64 - x mod 2 ^ 64) + x = v + 2 ^ 64 * (x div 2 ^ 64 + 1)" by (simp only: add.assoc add.commute)
  then show ?thesis using \<open>v < 2 ^ 64\<close> unfolding padd_def psub_def mod_add_left_eq by (simp only: mod_mult_self2 mod_less)
qed

lemma isolate_step:
  assumes "regions t = pre @ r # rs" "region_ok r" "e < 2 ^ 64" "total_size t < 2 ^ 64"
  shows "mem_isolate_loop b e (length pre) sr er t =
    (if e \<le> fst r then Some (sr, er, t)
     else if fst r + snd r \<le> b then mem_isolate_loop b e (length (pre @ [r])) sr er t
     else if fst r < b
     then mem_isolate_loop b e (length (pre @ [(fst r, b - fst r)])) sr er
       (t\<lparr>regions := pre @ (fst r, b - fst r) # (b, fst r + snd r - b) # rs\<rparr>)
     else if e < fst r + snd r
     then mem_isolate_loop b e (length pre) sr er (t\<lparr>regions := pre @ (fst r, e - fst r) # (e, fst r + snd r - e) # rs\<rparr>)
     else mem_isolate_loop b e (length (pre @ [r])) (if er = 0 then length pre else sr) (length pre + 1) t)"
proof -
  have r: "fst r + snd r < 2 ^ 64" using assms(2) by (simp add: region_ok_def)
  have ins: "mem_insert_region (length pre) (fst r) x (t\<lparr>regions := (pre @ r # rs)[length pre := q],
      total_size := psub (total_size t) x\<rparr>) = t\<lparr>regions := pre @ (fst r, x) # q # rs\<rparr>" for x q
    using padd_psub [OF assms(4)] by (simp add: mem_insert_region_def)
  consider "e \<le> fst r" | "\<not> e \<le> fst r" "fst r + snd r \<le> b" | "\<not> e \<le> fst r" "\<not> fst r + snd r \<le> b" "fst r < b"
    | "\<not> e \<le> fst r" "\<not> fst r + snd r \<le> b" "\<not> fst r < b" by blast
  then show ?thesis
  proof cases
    case 3
    then have "psub b (fst r) = b - fst r" "psub (snd r) (b - fst r) = fst r + snd r - b" using r by auto
    then show ?thesis using 3 assms(1) r ins by (subst mem_isolate_loop.simps) (simp add: split_beta)
  next
    case 4
    then have "psub e (fst r) = e - fst r" "e < fst r + snd r \<Longrightarrow> psub (snd r) (e - fst r) = fst r + snd r - e"
      using r assms(3) by auto
    then show ?thesis using 4 assms(1) r ins by (subst mem_isolate_loop.simps) (simp add: split_beta)
  qed (use assms(1) r in \<open>subst mem_isolate_loop.simps, simp add: split_beta\<close>)+
qed

text \<open>A region that reaches past the range is split and ends the loop.\<close>

lemma isolate_last:
  assumes "regions t = pre @ r # rs" "region_ok r" "e < 2 ^ 64" "total_size t < 2 ^ 64" "b \<le> fst r" "fst r < e" "e < fst r + snd r"
  shows "mem_isolate_loop b e (length pre) sr er t = Some (if er = 0 then length pre else sr, length pre + 1,
    t\<lparr>regions := pre @ (fst r, e - fst r) # (e, fst r + snd r - e) # rs\<rparr>)"
proof -
  let ?q = "(fst r, e - fst r)" let ?u = "(e, fst r + snd r - e)" let ?t = "t\<lparr>regions := pre @ ?q # ?u # rs\<rparr>"
  have ok: "region_ok ?q" "region_ok ?u" using assms by (auto simp: region_ok_def)
  have "mem_isolate_loop b e (length pre) sr er t = mem_isolate_loop b e (length pre) sr er ?t"
    using isolate_step [OF assms(1-4), of b sr er] assms(5-7) by simp
  also have "\<dots> = mem_isolate_loop b e (length (pre @ [?q])) (if er = 0 then length pre else sr) (length pre + 1) ?t"
    using isolate_step [of ?t pre ?q "?u # rs", OF _ ok(1) assms(3)] assms(4-7) by simp
  also have "\<dots> = Some (if er = 0 then length pre else sr, length pre + 1, ?t)"
    using isolate_step [of ?t "pre @ [?q]" ?u rs, OF _ ok(2) assms(3)] assms(4) by simp
  finally show ?thesis .
qed

definition iso_ok :: "region list \<Rightarrow> region list \<Rightarrow> nat \<Rightarrow> nat \<Rightarrow> bool" where
  "iso_ok pre mid sr er \<longleftrightarrow> (if mid = [] then sr = 0 \<and> er = 0 else sr = length pre \<and> er = length (pre @ mid))"

definition iso_post :: "nat \<Rightarrow> nat \<Rightarrow> region list \<Rightarrow> region list \<Rightarrow> region list \<Rightarrow> mem_type \<Rightarrow> (nat \<times> nat \<times> mem_type) option \<Rightarrow> bool" where
  "iso_post b e pre mid rs t res \<longleftrightarrow> (\<exists>pre' mid' post sr er. res = Some (sr, er, t\<lparr>regions := pre' @ mid' @ post\<rparr>) \<and>
     iso_ok pre' mid' sr er \<and> pre' @ post = pre @ concat (map (cut_out b e) rs) \<and>
     rsum mid' + rsum (pre' @ post) = rsum (pre @ mid @ rs))"

lemma isolate_inside:
  assumes IH: "\<And>mid t sr er. regions t = pre @ mid @ rs \<Longrightarrow> total_size t < 2 ^ 64 \<Longrightarrow> iso_ok pre mid sr er \<Longrightarrow> mid \<noteq> [] \<Longrightarrow>
      iso_post b e pre mid rs t (mem_isolate_loop b e (length (pre @ mid)) sr er t)"
    and t: "regions t = pre @ mid @ r # rs" "total_size t < 2 ^ 64" "e < 2 ^ 64" "ordered (r # rs)" "iso_ok pre mid sr er"
    and r: "b \<le> fst r" "fst r < e"
  shows "iso_post b e pre mid (r # rs) t (mem_isolate_loop b e (length (pre @ mid)) sr er t)"
proof -
  have ok: "region_ok r" using t(4) by simp
  have t': "regions t = (pre @ mid) @ r # rs" using t(1) by simp
  have iso: "iso_ok pre (mid @ [q]) (if er = 0 then length (pre @ mid) else sr) (length (pre @ mid) + 1)" for q
    using t(5) by (auto simp: iso_ok_def split: if_splits)
  show ?thesis
  proof (cases "e < fst r + snd r")
    case True
    have "concat (map (cut_out b e) rs) = rs" using t(4) True by (intro cut_above) auto
    then show ?thesis using isolate_last [OF t' ok t(3,2) r True, of sr er] iso [of "(fst r, e - fst r)"] True r
      unfolding iso_post_def
      by (intro exI [of _ pre] exI [of _ "mid @ [(fst r, e - fst r)]"] exI [of _ "(e, fst r + snd r - e) # rs"] exI) auto
  next
    case False
    then have step: "mem_isolate_loop b e (length (pre @ mid)) sr er t =
        mem_isolate_loop b e (length (pre @ mid @ [r])) (if er = 0 then length (pre @ mid) else sr) (length (pre @ mid) + 1) t"
      using isolate_step [OF t' ok t(3,2), of b sr er] r ok by (simp add: region_ok_def)
    have "cut_out b e r = []" using r False ok by (simp add: region_ok_def)
    then show ?thesis using IH [of t "mid @ [r]", OF _ t(2) iso] t(1) step unfolding iso_post_def by simp
  qed
qed

lemma iso_post_done:
  assumes "regions t = pre @ mid @ rs" "iso_ok pre mid sr er" "concat (map (cut_out b e) rs) = rs"
  shows "iso_post b e pre mid rs t (Some (sr, er, t))"
proof -
  have "t = t\<lparr>regions := pre @ mid @ rs\<rparr>" using assms(1) by simp
  then show ?thesis using assms unfolding iso_post_def
    by (intro exI [of _ pre] exI [of _ mid] exI [of _ rs] exI [of _ sr] exI [of _ er]) simp
qed

lemma isolate_loop:
  assumes "e < 2 ^ 64" "b < e"
  shows "ordered rs \<Longrightarrow> regions t = pre @ mid @ rs \<Longrightarrow> total_size t < 2 ^ 64 \<Longrightarrow> iso_ok pre mid sr er \<Longrightarrow>
    mid \<noteq> [] \<longrightarrow> (\<forall>q\<in>set rs. b \<le> fst q) \<Longrightarrow>
    iso_post b e pre mid rs t (mem_isolate_loop b e (length (pre @ mid)) sr er t)"
proof (induction rs arbitrary: pre mid t sr er)
  case Nil
  have "mem_isolate_loop b e (length (pre @ mid)) sr er t = Some (sr, er, t)"
    using Nil.prems(2) by (subst mem_isolate_loop.simps) simp
  then show ?case using Nil.prems by (simp only: iso_post_done concat.simps list.map)
next
  case (Cons r rs)
  have ok: "region_ok r" "ordered rs" "\<forall>q\<in>set rs. fst r + snd r \<le> fst q" using Cons.prems(1) by auto
  have t': "regions t = (pre @ mid) @ r # rs" using Cons.prems(2) by simp
  note step = isolate_step [OF t' ok(1) assms(1) Cons.prems(3), of b sr er]
  consider "e \<le> fst r" | "\<not> e \<le> fst r" "fst r + snd r \<le> b" | "\<not> e \<le> fst r" "\<not> fst r + snd r \<le> b" "fst r < b"
    | "\<not> e \<le> fst r" "b \<le> fst r" by linarith
  then show ?case
  proof cases
    case 1
    then have "concat (map (cut_out b e) (r # rs)) = r # rs" using Cons.prems(1) ok by (intro cut_above) auto
    then show ?thesis using iso_post_done [OF Cons.prems(2,4)] 1 step by simp
  next
    case 2
    then have mid: "mid = []" using Cons.prems(5) ok(1) by (auto simp: region_ok_def)
    show ?thesis using Cons.IH [OF ok(2), of t "pre @ [r]" "[]" sr er] 2 step Cons.prems mid
      unfolding iso_post_def by (simp add: iso_ok_def)
  next
    case 3
    let ?l = "(fst r, b - fst r)" let ?u = "(b, fst r + snd r - b)" let ?t = "t\<lparr>regions := pre @ ?l # ?u # rs\<rparr>"
    have mid: "mid = []" "sr = 0" "er = 0" using Cons.prems(4,5) 3(3) by (auto simp: iso_ok_def split: if_splits)
    have loop: "mem_isolate_loop b e (length (pre @ mid)) sr er t = mem_isolate_loop b e (length ((pre @ [?l]) @ [])) 0 0 ?t"
      using 3 step mid by simp
    have "iso_post b e (pre @ [?l]) [] (?u # rs) ?t (mem_isolate_loop b e (length ((pre @ [?l]) @ [])) 0 0 ?t)"
    proof (rule isolate_inside)
      show "ordered (?u # rs)" using ok 3 by (auto simp: region_ok_def)
      show "iso_post b e (pre @ [?l]) m rs t' (mem_isolate_loop b e (length ((pre @ [?l]) @ m)) sr' er' t')"
        if "regions t' = (pre @ [?l]) @ m @ rs" "total_size t' < 2 ^ 64" "iso_ok (pre @ [?l]) m sr' er'" "m \<noteq> []" for m t' sr' er'
        using that ok(3) 3(2) by (intro Cons.IH ok(2)) auto
    qed (use Cons.prems(3) assms 3 in \<open>auto simp: iso_ok_def\<close>)
    moreover have "cut_out b e r = ?l # cut_out b e ?u" using 3 assms(2) by auto
    moreover have "snd ?l + snd ?u = snd r" using 3 by simp
    ultimately show ?thesis unfolding loop unfolding mid(1) by (simp add: iso_post_def del: cut_out.simps)
  next
    case 4
    show ?thesis
    proof (rule isolate_inside)
      show "iso_post b e pre m rs t' (mem_isolate_loop b e (length (pre @ m)) sr' er' t')"
        if "regions t' = pre @ m @ rs" "total_size t' < 2 ^ 64" "iso_ok pre m sr' er'" for m t' sr' er'
        using that ok(3) 4(2) by (intro Cons.IH ok(2)) auto
    qed (use Cons.prems assms 4 in auto)
  qed
qed

lemma remove_loop:
  "regions t = pre @ mid @ post \<Longrightarrow> total_size t = rsum (pre @ mid @ post) \<Longrightarrow> total_size t < 2 ^ 64 \<Longrightarrow>
   mem_remove_loop (length pre) (length mid) t =
     Inr (if mid = [] then t else t\<lparr>regions := if pre @ post = [] then [(0, 0)] else pre @ post, total_size := rsum (pre @ post)\<rparr>)"
proof (induction mid arbitrary: t rule: rev_induct)
  case (snoc x mid)
  let ?t = "t\<lparr>regions := pre @ mid @ post, total_size := rsum (pre @ mid @ post)\<rparr>"
  have "mem_remove_region (length pre + length mid) t =
      (if pre @ mid @ post = [] then Inr (?t\<lparr>regions := [(0, 0)]\<rparr>) else Inr ?t)"
    using snoc.prems by (auto simp: mem_remove_region_def Let_def nth_append)
  then show ?case using snoc.IH [of ?t] snoc.prems by (auto simp: nth_append)
qed simp

subsection \<open>Tables\<close>

definition mem_inv :: "mem_type \<Rightarrow> bool" where
  "mem_inv t \<longleftrightarrow> (regions t = [(0, 0)] \<or> regions t \<noteq> [] \<and> gapped (regions t)) \<and> length (regions t) \<le> maxr t \<and>
     total_size t = rsum (regions t)"

definition mem_set :: "mem_type \<Rightarrow> nat set" where
  "mem_set t = rset (regions t)"

lemma rsum_bound: "ordered rs \<Longrightarrow> \<forall>r\<in>set rs. lo \<le> fst r \<Longrightarrow> lo < 2 ^ 64 \<Longrightarrow> lo + rsum rs < 2 ^ 64"
proof (induction rs arbitrary: lo)
  case (Cons r rs)
  then have "(fst r + snd r) + rsum rs < 2 ^ 64" by (intro Cons.IH) (auto simp: region_ok_def)
  then show ?case using Cons.prems(2) by simp
qed simp

lemma ordered_rsum: "ordered rs \<Longrightarrow> rsum rs < 2 ^ 64"
  using rsum_bound [of rs 0] by simp

lemma mem_add_range_eq:
  assumes "regions t \<noteq> []" "gapped (regions t)" "total_size t = rsum (regions t)" "0 < s" "b + s < 2 ^ 64"
  shows "mem_add_range b s t =
    (if length (fill b (b + s) (regions t)) > maxr t then Inl Bug
     else let rs = merge (fill b (b + s) (regions t)) in Inr (t\<lparr>regions := rs, total_size := rsum rs\<rparr>))"
proof -
  let ?e = "b + s" let ?rs = "regions t"
  have ord: "ordered ?rs" by (rule gapped_ordered [OF assms(2)])
  have e: "?e < 2 ^ 64" by (rule assms(5))
  have ne: "snd (?rs ! 0) \<noteq> 0" using assms(1,2) by (cases ?rs) (auto simp: region_ok_def)
  have ford: "ordered (fill b ?e ?rs)" by (rule fill_ordered [OF ord e])
  obtain idx b' n where cnt: "mem_add_loop False ?e 0 b 0 t = (idx, b', n, t)"
    "(if b' < ?e then n + 1 else n) + length ?rs = length (fill b ?e ?rs)"
    using add_loop_count [OF ord, of t "[]" ?e b 0] by auto
  have "total_size t = (0 + rsum ?rs) mod 2 ^ 64" using ordered_rsum [OF ord] assms(3) by simp
  from add_loop_insert [OF e ord _ this, of "[]" b 0]
  obtain m where ins: "add_rest ?e (mem_add_loop True ?e 0 b 0 t) =
      (m, t\<lparr>regions := fill b ?e ?rs, total_size := rsum (fill b ?e ?rs)\<rparr>)"
    using ordered_rsum [OF ford] by auto
  have "snd (mem_add_pass True b ?e t) = t\<lparr>regions := fill b ?e ?rs, total_size := rsum (fill b ?e ?rs)\<rparr>"
    using ins by (auto simp: mem_add_pass_def add_rest_def split: prod.splits if_splits)
  moreover have "fst (mem_add_pass False b ?e t) + length ?rs = length (fill b ?e ?rs)"
    using cnt by (auto simp: mem_add_pass_def)
  moreover have "mem_merge_loop 0 (fill b ?e ?rs) = Inr (merge (fill b ?e ?rs))" using merge_loop [OF ford, of "[]"] by simp
  ultimately show ?thesis using assms(4) ne e
    by (auto simp: mem_add_range_def mem_merge_regions_def Let_def add.commute)
qed

lemma cut_length: "ordered rs \<Longrightarrow> length (concat (map (cut_out b e) rs)) \<le> length rs + 1"
proof (induction rs)
  case (Cons r rs)
  show ?case
  proof (cases "fst r < b \<and> e < fst r + snd r")
    case True
    then have "concat (map (cut_out b e) rs) = rs" using Cons.prems by (intro cut_above) auto
    moreover have "length (cut_out b e r) \<le> 2" by simp
    ultimately show ?thesis by (simp del: cut_out.simps)
  next
    case False
    then have "length (cut_out b e r) \<le> 1" by auto
    then show ?thesis using Cons by (simp del: cut_out.simps)
  qed
qed simp

lemma mem_remove_range_eq:
  assumes inv: "mem_inv t" and s: "0 < s" "b + s < 2 ^ 64" and room: "length (regions t) + 2 \<le> maxr t"
  shows "\<exists>t'. mem_remove_range b s t = Inr t' \<and> mem_inv t' \<and> mem_set t' = mem_set t - {b..<b + s} \<and> maxr t' = maxr t"
proof (cases "regions t = [(0, 0)]")
  case True
  have "mem_isolate_loop b (b + s) 0 0 0 t = Some (0, 0, t)"
    using True s by (simp add: mem_isolate_loop.simps)
  then have "mem_remove_range b s t = Inr t" using s room by (simp add: mem_remove_range_def mem_isolate_range_def)
  then show ?thesis using inv True by (simp add: mem_set_def)
next
  case False
  define cs where cs: "cs = concat (map (cut_out b (b + s)) (regions t))"
  have gap: "gapped (regions t)" "total_size t = rsum (regions t)" using inv False by (auto simp: mem_inv_def)
  note ord = gapped_ordered [OF gap(1)]
  have tot: "total_size t < 2 ^ 64" using ordered_rsum [OF ord] gap(2) by simp
  have "iso_post b (b + s) [] [] (regions t) t (mem_isolate_loop b (b + s) 0 0 0 t)"
    using isolate_loop [of "b + s" b "regions t" t "[]" "[]" 0 0] s ord tot by (simp add: iso_ok_def)
  then obtain pre mid post sr er where iso: "mem_isolate_loop b (b + s) 0 0 0 t = Some (sr, er, t\<lparr>regions := pre @ mid @ post\<rparr>)"
    "iso_ok pre mid sr er" "pre @ post = cs" "rsum mid + rsum (pre @ post) = rsum (regions t)"
    unfolding iso_post_def append_Nil cs by blast
  let ?t = "t\<lparr>regions := pre @ mid @ post\<rparr>"
  have er: "er - sr = length mid" "mid \<noteq> [] \<Longrightarrow> sr = length pre" using iso(2) by (auto simp: iso_ok_def split: if_splits)
  have rm: "mem_remove_loop sr (length mid) ?t = mem_remove_loop (length pre) (length mid) ?t"
    using er(2) by (cases mid) auto
  have "mem_remove_range b s t = mem_remove_loop (length pre) (length mid) ?t"
    using s room iso(1) er(1) rm by (simp add: mem_remove_range_def mem_isolate_range_def)
  also have "\<dots> = Inr (if mid = [] then ?t
      else ?t\<lparr>regions := if pre @ post = [] then [(0, 0)] else pre @ post, total_size := rsum (pre @ post)\<rparr>)"
    using tot iso(4) gap(2) by (intro remove_loop) (auto simp: algebra_simps)
  also have "\<dots> = Inr (t\<lparr>regions := if cs = [] then [(0, 0)] else cs, total_size := rsum cs\<rparr>)"
  proof (cases "mid = []")
    case True
    then have "rsum cs = rsum (regions t)" using iso(3,4) by simp
    moreover have "cs \<noteq> []"
    proof
      assume "cs = []"
      then have "rsum cs = 0" by (simp only: list.map sum_list.Nil)
      then have "rsum (regions t) = 0" using \<open>rsum cs = rsum (regions t)\<close> by (simp only:)
      then show False using gap(1) False inv by (cases "regions t") (auto simp: region_ok_def mem_inv_def)
    qed
    ultimately show ?thesis using True iso(3) gap(2) by simp
  qed (use iso(3) in simp)
  finally show ?thesis
    using cut_gapped [OF _ gap(1), of b "b + s"] cut_rset [of b "b + s" "regions t"] cut_length [OF ord, of b "b + s"] s room
    unfolding cs [symmetric] by (cases "cs = []") (simp_all add: mem_inv_def mem_set_def)
qed

lemma mem_add_range_inv:
  assumes inv: "mem_inv t" and s: "b + s < 2 ^ 64" and res: "mem_add_range b s t = Inr t'"
  shows "mem_inv t' \<and> mem_set t' = mem_set t \<union> {b..<b + s} \<and> maxr t' = maxr t"
proof -
  consider "s = 0" | "0 < s" "regions t = [(0, 0)]" | "0 < s" "regions t \<noteq> [(0, 0)]" by blast
  then show ?thesis
  proof cases
    case 2
    then show ?thesis using assms by (auto simp: mem_add_range_def mem_inv_def mem_set_def region_ok_def)
  next
    case 3
    then have g: "regions t \<noteq> []" "gapped (regions t)" "total_size t = rsum (regions t)" using inv by (auto simp: mem_inv_def)
    let ?f = "fill b (b + s) (regions t)"
    have f: "ordered ?f" by (rule fill_ordered [OF gapped_ordered [OF g(2)] s])
    have "?f \<noteq> []" using g(1) by (cases "regions t") auto
    then show ?thesis using mem_add_range_eq [OF g 3(1) s] res merge_gapped [OF f] merge_ne [of ?f] merge_length [of ?f]
        merge_rset [of ?f] fill_rset [OF gapped_ordered [OF g(2)], of b "b + s"]
      by (auto simp: mem_inv_def mem_set_def Let_def split: if_splits)
  qed (use assms in \<open>simp add: mem_add_range_def\<close>)
qed

lemma mem_add_range_fault:
  assumes "mem_inv t" "b + s < 2 ^ 64" "mem_add_range b s t = Inl f"
  shows "f = Bug"
proof -
  have s: "0 < s" "regions t \<noteq> [(0, 0)]" using assms(3) by (auto simp: mem_add_range_def Let_def split: if_splits)
  then have g: "regions t \<noteq> []" "gapped (regions t)" "total_size t = rsum (regions t)" using assms(1) by (auto simp: mem_inv_def)
  show ?thesis using mem_add_range_eq [OF g s(1) assms(2)] assms(3) by (simp add: Let_def split: if_splits)
qed

lemma mem_remove_range_inv:
  assumes "mem_inv t" "b + s < 2 ^ 64" "mem_remove_range b s t = Inr t'"
  shows "mem_inv t' \<and> mem_set t' = mem_set t - {b..<b + s} \<and> maxr t' = maxr t"
proof (cases "s = 0")
  case False
  then have "length (regions t) + 2 \<le> maxr t"
    using assms(3) by (auto simp: mem_remove_range_def mem_isolate_range_def split: if_splits)
  then show ?thesis using mem_remove_range_eq [OF assms(1) _ assms(2)] False assms(3) by auto
qed (use assms in \<open>simp add: mem_remove_range_def mem_isolate_range_def\<close>)

section \<open>The interface of a table\<close>

text \<open>
  What the allocator relies on: a table stands for a set of addresses, to which ranges are added
  and from which they are removed.
\<close>

locale range_set =
  fixes invar :: "'t \<Rightarrow> bool" and addrs :: "'t \<Rightarrow> nat set"
    and add :: "nat \<Rightarrow> nat \<Rightarrow> 't \<Rightarrow> 't res" and del :: "nat \<Rightarrow> nat \<Rightarrow> 't \<Rightarrow> 't res"
  assumes add_ok: "invar t \<Longrightarrow> b + s < 2 ^ 64 \<Longrightarrow> add b s t = Inr t' \<Longrightarrow> invar t' \<and> addrs t' = addrs t \<union> {b..<b + s}"
    and del_ok: "invar t \<Longrightarrow> b + s < 2 ^ 64 \<Longrightarrow> del b s t = Inr t' \<Longrightarrow> invar t' \<and> addrs t' = addrs t - {b..<b + s}"
begin

lemma add_del:
  assumes "invar t" "b + s < 2 ^ 64" "{b..<b + s} \<inter> addrs t = {}" "bindR (add b s t) (del b s) = Inr t'"
  shows "invar t' \<and> addrs t' = addrs t"
proof -
  obtain x where x: "add b s t = Inr x" "del b s x = Inr t'" using assms(4) by (auto simp: bindR_eq_Inr_iff)
  have "invar x" "addrs x = addrs t \<union> {b..<b + s}" using add_ok [OF assms(1,2) x(1)] by auto
  then show ?thesis using del_ok [OF _ assms(2) x(2)] assms(3) by blast
qed

end

interpretation mr: range_set mem_inv mem_set mem_add_range mem_remove_range
  by unfold_locales (auto dest: mem_add_range_inv mem_remove_range_inv)

section \<open>Correctness\<close>

text \<open>
  C9: adding a range to a well-formed table either stops the CPU, exactly when the pieces of the
  range that are not yet covered do not fit into the array, or returns a well-formed table
  (ascending regions with gaps between them, their sizes summed up) for the union of the addresses.
\<close>

theorem mem_add_range_exact:
  assumes "mem_inv t" "b + s < 2 ^ 64"
  shows "if 0 < s \<and> regions t \<noteq> [(0, 0)] \<and> maxr t < length (fill b (b + s) (regions t)) then mem_add_range b s t = Inl Bug
    else \<exists>t'. mem_add_range b s t = Inr t' \<and> mem_inv t' \<and> mem_set t' = mem_set t \<union> {b..<b + s} \<and> maxr t' = maxr t"
proof (cases "0 < s \<and> regions t \<noteq> [(0, 0)]")
  case True
  then have g: "regions t \<noteq> []" "gapped (regions t)" "total_size t = rsum (regions t)" using assms(1) by (auto simp: mem_inv_def)
  note eq = mem_add_range_eq [OF g _ assms(2)]
  show ?thesis
  proof (cases "maxr t < length (fill b (b + s) (regions t))")
    case full: True
    then show ?thesis using eq True by simp
  next
    case room: False
    then obtain t' where t': "mem_add_range b s t = Inr t'" using eq True by (simp add: Let_def)
    show ?thesis using mem_add_range_inv [OF assms t'] t' room by simp
  qed
next
  case False
  then have "\<exists>t'. mem_add_range b s t = Inr t'" by (cases "s = 0") (simp_all add: mem_add_range_def Let_def)
  then obtain t' where t': "mem_add_range b s t = Inr t'" by (rule exE)
  have "\<not> (0 < s \<and> regions t \<noteq> [(0, 0)] \<and> maxr t < length (fill b (b + s) (regions t)))" using False by blast
  then show ?thesis using mem_add_range_inv [OF assms t'] t' by (simp only: if_False) simp
qed

definition mem_demo :: mem_type where
  "mem_demo = \<lparr>regions = [(0x1000, 0x1000), (0x4000, 0x2000)], maxr = 4, total_size = 0x3000\<rparr>"

lemma mem_demo_inv: "mem_inv mem_demo"
  by (simp add: mem_inv_def mem_demo_def region_ok_def)

theorem mem_add_range_exact_witness:
  "\<exists>t'. mem_add_range 0x2000 0x3000 mem_demo = Inr t' \<and> mem_inv t' \<and> mem_set t' = {0x1000..<0x6000}"
proof -
  have "\<exists>t'. mem_add_range 0x2000 0x3000 mem_demo = Inr t' \<and> mem_inv t' \<and> mem_set t' = mem_set mem_demo \<union> {0x2000..<0x2000 + 0x3000} \<and>
      maxr t' = maxr mem_demo"
    using mem_add_range_exact [OF mem_demo_inv, of "0x2000" "0x3000"] by (simp add: mem_demo_def)
  moreover have "mem_set mem_demo \<union> {0x2000..<0x2000 + 0x3000} = {0x1000..<0x6000}"
    by (auto simp: mem_set_def mem_demo_def)
  ultimately show ?thesis by auto
qed

text \<open>
  C10: removing a non-empty range from a well-formed table stops the CPU exactly when the array has
  fewer than two free entries, even where no region is split, and otherwise returns a well-formed
  table for the difference. The splitting loop always ends.
\<close>

theorem mem_remove_range_exact:
  assumes "mem_inv t" "b + s < 2 ^ 64" "0 < s"
  shows "if maxr t < length (regions t) + 2 then mem_remove_range b s t = Inl Bug
    else \<exists>t'. mem_remove_range b s t = Inr t' \<and> mem_inv t' \<and> mem_set t' = mem_set t - {b..<b + s} \<and> maxr t' = maxr t"
  using mem_remove_range_eq [OF assms(1,3,2)] assms(3) by (auto simp: mem_remove_range_def mem_isolate_range_def)

theorem mem_remove_range_exact_witness:
  "\<exists>t'. mem_remove_range 0x4800 0x800 mem_demo = Inr t' \<and> mem_inv t' \<and> mem_set t' = mem_set mem_demo - {0x4800..<0x5000}"
  using mem_remove_range_exact [OF mem_demo_inv, of "0x4800" "0x800"] by (auto simp: mem_demo_def)

text \<open>
  Reserving a range that is free and giving it back restores the set of addresses.
\<close>

theorem mem_add_remove_roundtrip:
  assumes "mem_inv t" "b + s < 2 ^ 64" "{b..<b + s} \<inter> mem_set t = {}" "bindR (mem_add_range b s t) (mem_remove_range b s) = Inr t'"
  shows "mem_inv t' \<and> mem_set t' = mem_set t"
  using assms by (rule mr.add_del)

theorem mem_add_remove_roundtrip_witness:
  "\<exists>t'. bindR (mem_add_range 0x2800 0x400 (mem_demo\<lparr>maxr := 8\<rparr>)) (mem_remove_range 0x2800 0x400) = Inr t' \<and>
    mem_inv t' \<and> mem_set t' = mem_set mem_demo"
proof -
  let ?t = "mem_demo\<lparr>maxr := 8\<rparr>"
  have inv: "mem_inv ?t" by (simp add: mem_inv_def mem_demo_def region_ok_def)
  let ?t1 = "?t\<lparr>regions := [(0x1000, 0x1000), (0x2800, 0x400), (0x4000, 0x2000)], total_size := 0x3400\<rparr>"
  have add: "mem_add_range 0x2800 0x400 ?t = Inr ?t1"
    by (subst mem_add_range_eq) (simp_all add: mem_demo_def region_ok_def)
  have "mem_inv ?t1" by (simp add: mem_inv_def mem_demo_def region_ok_def)
  from mem_remove_range_eq [OF this, of "0x400" "0x2800"] obtain t' where t': "bindR (mem_add_range 0x2800 0x400 ?t) (mem_remove_range 0x2800 0x400) = Inr t'"
    using add by (auto simp: mem_demo_def)
  have "{0x2800..<0x2800 + 0x400} \<inter> mem_set ?t = {}" by (auto simp: mem_set_def mem_demo_def)
  from mem_add_remove_roundtrip [OF inv _ this t'] show ?thesis using t' by (simp add: mem_set_def)
qed

end
