(* ===== verification/Mem_Alloc.thy ===== *)
theory Mem_Alloc
  imports Mem_Regions Bitops
begin

text \<open>
  The allocator on top of the region tables (\<open>kernel/mem.c\<close>): the two iterators over the memory
  that is not reserved, the search for a free range from either end, reservation and release.
  The iterators are modelled for the way they are called, with both tables given.
\<close>

section \<open>Model\<close>

record mem_sys =
  memory :: mem_type
  reserved :: mem_type
  current_limit :: nat
  bottom_up :: bool
  kernel_end :: nat

subsection \<open>Iteration over free ranges\<close>

text \<open>
  The state of an iterator is two signed indices packed into 64 bits. \<open>ULLONG_MAX\<close> is the start of
  the descending and the end of both iterations.
\<close>

definition ULLONG_MAX :: int where "ULLONG_MAX = 2 ^ 64 - 1"

definition mem_pack :: "int \<Rightarrow> int \<Rightarrow> int" where
  "mem_pack a b = a mod 2 ^ 32 + 2 ^ 32 * (b mod 2 ^ 32)"

definition mem_unpack :: "int \<Rightarrow> int \<times> int" where
  "mem_unpack idx = (s32 (idx mod 2 ^ 32), s32 (idx div 2 ^ 32))"

text \<open>Bounds of the area before reservation \<open>j\<close>, or behind the last one.\<close>

definition r_start :: "region list \<Rightarrow> nat \<Rightarrow> nat" where
  "r_start rs j = (if j = 0 then 0 else padd (fst (rs ! (j - 1))) (snd (rs ! (j - 1))))"

definition r_end :: "region list \<Rightarrow> nat \<Rightarrow> nat" where
  "r_end rs j = (if j < length rs then fst (rs ! j) else 2 ^ 64 - 1)"

definition m_end :: "region list \<Rightarrow> nat \<Rightarrow> nat" where
  "m_end ms i = padd (fst (ms ! i)) (snd (ms ! i))"

function next_loop :: "region list \<Rightarrow> region list \<Rightarrow> nat \<Rightarrow> nat \<Rightarrow> (nat \<times> nat \<times> nat \<times> nat) option" where
  "next_loop ms rs a b =
     (if a \<ge> length ms then None
      else if b \<ge> length rs + 1 then next_loop ms rs (a + 1) b
      else if r_start rs b \<ge> m_end ms a then next_loop ms rs (a + 1) b
      else if fst (ms ! a) < r_end rs b
      then Some (if m_end ms a \<le> r_end rs b then a + 1 else a, if m_end ms a \<le> r_end rs b then b else b + 1,
                 max (fst (ms ! a)) (r_start rs b), min (m_end ms a) (r_end rs b))
      else next_loop ms rs a (b + 1))"
  by pat_completeness auto
termination by (relation "measure (\<lambda>(ms, rs, a, b). (length ms - a) + (length rs + 1 - b))") auto

declare next_loop.simps [simp del]

definition next_mem_range :: "region list \<Rightarrow> region list \<Rightarrow> int \<Rightarrow> nat \<times> nat \<Rightarrow> int \<times> nat \<times> nat" where
  "next_mem_range ms rs idx out =
     (let (a, b) = mem_unpack idx
      in case next_loop ms rs (nat a) (nat b) of
           None \<Rightarrow> (ULLONG_MAX, out)
         | Some (a, b, s, e) \<Rightarrow> (mem_pack (int a) (int b), s, e))"

function next_rev_loop :: "region list \<Rightarrow> region list \<Rightarrow> int \<Rightarrow> int \<Rightarrow> (int \<times> int \<times> nat \<times> nat) option" where
  "next_rev_loop ms rs a b =
     (if a < 0 then None
      else if b < 0 then next_rev_loop ms rs (a - 1) b
      else if r_end rs (nat b) \<le> fst (ms ! nat a) then next_rev_loop ms rs (a - 1) b
      else if m_end ms (nat a) > r_start rs (nat b)
      then Some (if fst (ms ! nat a) \<ge> r_start rs (nat b) then a - 1 else a,
                 if fst (ms ! nat a) \<ge> r_start rs (nat b) then b else b - 1,
                 max (fst (ms ! nat a)) (r_start rs (nat b)), min (m_end ms (nat a)) (r_end rs (nat b)))
      else next_rev_loop ms rs a (b - 1))"
  by pat_completeness auto
termination by (relation "measure (\<lambda>(ms, rs, a, b). nat (a + 1) + nat (b + 1))") auto

declare next_rev_loop.simps [simp del]

definition next_mem_range_rev :: "region list \<Rightarrow> region list \<Rightarrow> int \<Rightarrow> nat \<times> nat \<Rightarrow> int \<times> nat \<times> nat" where
  "next_mem_range_rev ms rs idx out =
     (let (a, b) = if idx = ULLONG_MAX then (int (length ms) - 1, int (length rs)) else mem_unpack idx
      in case next_rev_loop ms rs a b of
           None \<Rightarrow> (ULLONG_MAX, out)
         | Some (a, b, s, e) \<Rightarrow> (mem_pack a b, s, e))"

subsection \<open>Search\<close>

definition clamp :: "nat \<Rightarrow> nat \<Rightarrow> nat \<Rightarrow> nat" where
  "clamp v lo hi = min (max v lo) hi"

definition addr_round_down :: "nat \<Rightarrow> nat \<Rightarrow> nat" where
  "addr_round_down x align = unat (round_down (of_nat x :: u64) (of_nat align))"

definition addr_round_up :: "nat \<Rightarrow> nat \<Rightarrow> nat" where
  "addr_round_up x align = unat (round_up (of_nat x :: u64) (of_nat align))"

text \<open>The bodies of the two search loops: the address they return, if they do.\<close>

definition bottom_up_cand :: "nat \<Rightarrow> nat \<Rightarrow> nat \<Rightarrow> nat \<Rightarrow> nat \<times> nat \<Rightarrow> nat option" where
  "bottom_up_cand start end' size' align = (\<lambda>(this_start, this_end).
     let this_start = clamp this_start start end'; this_end = clamp this_end start end';
         cand = addr_round_up this_start align
     in if cand < this_end \<and> psub this_end cand \<ge> size' then Some cand else None)"

definition top_down_cand :: "nat \<Rightarrow> nat \<Rightarrow> nat \<Rightarrow> nat \<Rightarrow> nat \<times> nat \<Rightarrow> nat option" where
  "top_down_cand start end' size' align = (\<lambda>(this_start, this_end).
     let this_start = clamp this_start start end'; this_end = clamp this_end start end'
     in if this_end < size' then None
        else let cand = addr_round_down (psub this_end size') align
        in if cand \<ge> this_start then Some cand else None)"

partial_function (option) search_loop ::
  "(int \<Rightarrow> nat \<times> nat \<Rightarrow> int \<times> nat \<times> nat) \<Rightarrow> (nat \<times> nat \<Rightarrow> nat option) \<Rightarrow> int \<Rightarrow> nat \<times> nat \<Rightarrow> nat option" where
  "search_loop next cand i this =
     (if i = ULLONG_MAX then Some 0
      else case cand this of
        Some c \<Rightarrow> Some c
      | None \<Rightarrow> case next i this of (i, this) \<Rightarrow> search_loop next cand i this)"

definition mem_find_range_bottom_up :: "mem_sys \<Rightarrow> nat \<Rightarrow> nat \<Rightarrow> nat \<Rightarrow> nat \<Rightarrow> nat option" where
  "mem_find_range_bottom_up s start end' size' align =
     (let next = next_mem_range (regions (memory s)) (regions (reserved s)); (i, this) = next 0 (0, 0)
      in search_loop next (bottom_up_cand start end' size' align) i this)"

definition mem_find_range_top_down :: "mem_sys \<Rightarrow> nat \<Rightarrow> nat \<Rightarrow> nat \<Rightarrow> nat \<Rightarrow> nat option" where
  "mem_find_range_top_down s start end' size' align =
     (let next = next_mem_range_rev (regions (memory s)) (regions (reserved s)); (i, this) = next ULLONG_MAX (0, 0)
      in search_loop next (top_down_cand start end' size' align) i this)"

definition MEM_PAGE_SIZE :: nat where "MEM_PAGE_SIZE = 4096"

definition mem_find_in_range :: "mem_sys \<Rightarrow> nat \<Rightarrow> nat \<Rightarrow> nat \<Rightarrow> nat \<Rightarrow> nat option" where
  "mem_find_in_range s size' align start end' =
     (let end' = (if end' = 0 then current_limit s else end'); start = max start MEM_PAGE_SIZE; end' = max start end'
      in Option.bind
           (if bottom_up s \<and> end' > kernel_end s
            then mem_find_range_bottom_up s (max start (kernel_end s)) end' size' align else Some 0)
           (\<lambda>ret. if ret \<noteq> 0 then Some ret else mem_find_range_top_down s start end' size' align))"

subsection \<open>Operations\<close>

definition mem_add :: "nat \<Rightarrow> nat \<Rightarrow> mem_sys \<Rightarrow> mem_sys res" where
  "mem_add b s m = bindR (mem_add_range b s (memory m)) (\<lambda>t. Inr (m\<lparr>memory := t\<rparr>))"

definition mem_reserve :: "nat \<Rightarrow> nat \<Rightarrow> mem_sys \<Rightarrow> mem_sys res" where
  "mem_reserve b s m = bindR (mem_add_range b s (reserved m)) (\<lambda>t. Inr (m\<lparr>reserved := t\<rparr>))"

definition mem_free :: "nat \<Rightarrow> nat \<Rightarrow> mem_sys \<Rightarrow> mem_sys res" where
  "mem_free b s m = bindR (mem_remove_range b s (reserved m)) (\<lambda>t. Inr (m\<lparr>reserved := t\<rparr>))"

text \<open>\<open>mem_remove\<close> is the counterpart of \<open>mem_add\<close> by its name; it works on the reserved regions.\<close>

definition mem_remove :: "nat \<Rightarrow> nat \<Rightarrow> mem_sys \<Rightarrow> mem_sys res" where
  "mem_remove b s m = bindR (mem_remove_range b s (reserved m)) (\<lambda>t. Inr (m\<lparr>reserved := t\<rparr>))"

text \<open>\<open>cache_bytes\<close> is the alignment used when none is asked for.\<close>

definition mem_alloc_range :: "nat \<Rightarrow> nat \<Rightarrow> nat \<Rightarrow> nat \<Rightarrow> nat \<Rightarrow> mem_sys \<Rightarrow> (nat \<times> mem_sys) res" where
  "mem_alloc_range cache_bytes size' align start end' m =
     (let align = (if align = 0 then cache_bytes else align)
      in case mem_find_in_range m size' align start end' of
           None \<Rightarrow> Inl Stuck
         | Some found \<Rightarrow>
             if found \<noteq> 0 then bindR (mem_reserve found size' m) (\<lambda>m. Inr (found, m)) else Inr (0, m))"

definition mem_alloc :: "nat \<Rightarrow> nat \<Rightarrow> nat \<Rightarrow> mem_sys \<Rightarrow> (nat \<times> mem_sys) res" where
  "mem_alloc cache_bytes size' align m = mem_alloc_range cache_bytes size' align 0 0 m"

definition mem_start :: "mem_sys \<Rightarrow> nat" where
  "mem_start m = fst (regions (memory m) ! 0)"

definition mem_end :: "mem_sys \<Rightarrow> nat" where
  "mem_end m = m_end (regions (memory m)) (length (regions (memory m)) - 1)"

text \<open>The ranges that \<open>mem_free_all\<close> hands to the page allocator, as base and size.\<close>

partial_function (option) free_all_loop :: "(int \<Rightarrow> nat \<times> nat \<Rightarrow> int \<times> nat \<times> nat) \<Rightarrow> int \<Rightarrow> nat \<times> nat \<Rightarrow> region list option" where
  "free_all_loop next i this =
     (if i = ULLONG_MAX then Some []
      else case next i this of (i', this') \<Rightarrow>
        Option.bind (free_all_loop next i' this') (\<lambda>l. Some ((fst this, psub (snd this) (fst this)) # l)))"

definition mem_free_all :: "mem_sys \<Rightarrow> region list option" where
  "mem_free_all m =
     (let next = next_mem_range (regions (memory m)) (regions (reserved m)); (i, this) = next 0 (0, 0)
      in free_all_loop next i this)"

text \<open>\<open>hw_range_init\<close> is what the machine adds; the image of the firmware is reserved.\<close>

definition mem_init :: "(mem_sys \<Rightarrow> mem_sys res) \<Rightarrow> nat \<Rightarrow> nat \<Rightarrow> mem_sys \<Rightarrow> mem_sys res" where
  "mem_init hw_range_init sdfirm_start sdfirm_end m =
     (let pa_start = addr_round_down sdfirm_start MEM_PAGE_SIZE; pa_end = addr_round_up sdfirm_end MEM_PAGE_SIZE
      in bindR (hw_range_init m) (mem_reserve pa_start (psub pa_end pa_start)))"

section \<open>Iterators\<close>

lemma mem_unpack_pack:
  assumes "- 1 \<le> a" "a < 2 ^ 31" "- 1 \<le> b" "b < 2 ^ 31"
  shows "mem_unpack (mem_pack a b) = (a, b)"
proof -
  have m: "(x :: int) mod 2 ^ 32 < 2 ^ 32" "0 \<le> x mod 2 ^ 32" for x by simp_all
  have "mem_pack a b mod 2 ^ 32 = a mod 2 ^ 32" by (simp add: mem_pack_def)
  moreover have "mem_pack a b div 2 ^ 32 = b mod 2 ^ 32" using m [of a] by (simp add: mem_pack_def)
  moreover have "s32 (x mod 2 ^ 32) = x" if "- 1 \<le> x" "x < 2 ^ 31" for x
  proof (cases "x = - 1")
    case False
    then show ?thesis using that by (simp add: s32_def)
  qed (simp add: s32_def)
  ultimately show ?thesis using assms by (simp add: mem_unpack_def)
qed

lemma mem_pack_not_max:
  assumes "0 \<le> b" "b < 2 ^ 31"
  shows "mem_pack a b \<noteq> ULLONG_MAX"
proof -
  have "a mod 2 ^ 32 < 2 ^ 32" by simp
  then have "mem_pack a b < 2 ^ 32 + 2 ^ 32 * b" using assms by (simp add: mem_pack_def)
  also have "\<dots> \<le> 2 ^ 32 + 2 ^ 32 * (2 ^ 31)" using assms by simp
  finally show ?thesis by (simp add: ULLONG_MAX_def)
qed

text \<open>The ranges that an iterator delivers from a pair of indices on.\<close>

function frees :: "region list \<Rightarrow> region list \<Rightarrow> nat \<Rightarrow> nat \<Rightarrow> (nat \<times> nat) list" where
  "frees ms rs a b =
     (if a \<ge> length ms then []
      else if b \<ge> length rs + 1 then frees ms rs (a + 1) b
      else if r_start rs b \<ge> m_end ms a then frees ms rs (a + 1) b
      else if fst (ms ! a) < r_end rs b
      then (max (fst (ms ! a)) (r_start rs b), min (m_end ms a) (r_end rs b)) #
        (if m_end ms a \<le> r_end rs b then frees ms rs (a + 1) b else frees ms rs a (b + 1))
      else frees ms rs a (b + 1))"
  by pat_completeness auto
termination by (relation "measure (\<lambda>(ms, rs, a, b). (length ms - a) + (length rs + 1 - b))") auto

declare frees.simps [simp del]

function frees_rev :: "region list \<Rightarrow> region list \<Rightarrow> int \<Rightarrow> int \<Rightarrow> (nat \<times> nat) list" where
  "frees_rev ms rs a b =
     (if a < 0 then []
      else if b < 0 then frees_rev ms rs (a - 1) b
      else if r_end rs (nat b) \<le> fst (ms ! nat a) then frees_rev ms rs (a - 1) b
      else if m_end ms (nat a) > r_start rs (nat b)
      then (max (fst (ms ! nat a)) (r_start rs (nat b)), min (m_end ms (nat a)) (r_end rs (nat b))) #
        (if fst (ms ! nat a) \<ge> r_start rs (nat b) then frees_rev ms rs (a - 1) b else frees_rev ms rs a (b - 1))
      else frees_rev ms rs a (b - 1))"
  by pat_completeness auto
termination by (relation "measure (\<lambda>(ms, rs, a, b). nat (a + 1) + nat (b + 1))") auto

declare frees_rev.simps [simp del]

lemma next_loop_frees:
  "case next_loop ms rs a b of None \<Rightarrow> frees ms rs a b = []
   | Some (a', b', s, e) \<Rightarrow> frees ms rs a b = (s, e) # frees ms rs a' b' \<and> a' \<le> length ms \<and> b' \<le> max b (length rs + 1)"
proof (induction ms rs a b rule: next_loop.induct)
  case (1 ms rs a b)
  note eqs = next_loop.simps [of ms rs a b] frees.simps [of ms rs a b]
  consider "a \<ge> length ms" | "a < length ms" "b \<ge> length rs + 1"
    | "a < length ms" "b < length rs + 1" "r_start rs b \<ge> m_end ms a"
    | "a < length ms" "b < length rs + 1" "r_start rs b < m_end ms a" "fst (ms ! a) < r_end rs b"
    | "a < length ms" "b < length rs + 1" "r_start rs b < m_end ms a" "\<not> fst (ms ! a) < r_end rs b" by linarith
  then show ?case
  proof cases
    case 1
    then show ?thesis by (simp add: eqs)
  next
    case 2
    then show ?thesis using "1.IH"(1) by (simp add: eqs split: option.splits prod.splits)
  next
    case 3
    then show ?thesis using "1.IH"(2) by (simp add: eqs split: option.splits prod.splits)
  next
    case 4
    then show ?thesis by (simp add: eqs)
  next
    case 5
    then show ?thesis using "1.IH"(3) by (simp add: eqs split: option.splits prod.splits)
  qed
qed

lemma next_rev_loop_frees:
  "case next_rev_loop ms rs a b of None \<Rightarrow> frees_rev ms rs a b = []
   | Some (a', b', s, e) \<Rightarrow> frees_rev ms rs a b = (s, e) # frees_rev ms rs a' b' \<and> - 1 \<le> a' \<and> a' \<le> a \<and> 0 \<le> b' \<and> b' \<le> b"
proof (induction ms rs a b rule: next_rev_loop.induct)
  case (1 ms rs a b)
  note eqs = next_rev_loop.simps [of ms rs a b] frees_rev.simps [of ms rs a b]
  consider "a < 0" | "a \<ge> 0" "b < 0"
    | "a \<ge> 0" "b \<ge> 0" "r_end rs (nat b) \<le> fst (ms ! nat a)"
    | "a \<ge> 0" "b \<ge> 0" "fst (ms ! nat a) < r_end rs (nat b)" "r_start rs (nat b) < m_end ms (nat a)"
    | "a \<ge> 0" "b \<ge> 0" "fst (ms ! nat a) < r_end rs (nat b)" "\<not> r_start rs (nat b) < m_end ms (nat a)" by linarith
  then show ?case
  proof cases
    case 1
    then show ?thesis by (simp add: eqs)
  next
    case 2
    then show ?thesis using "1.IH"(1) by (simp add: eqs split: option.splits prod.splits)
  next
    case 3
    then show ?thesis using "1.IH"(2) by (simp add: eqs split: option.splits prod.splits)
  next
    case 4
    have "1 \<le> b" if "\<not> r_start rs (nat b) \<le> fst (ms ! nat a)" using that 4(2) by (cases "b = 0") (auto simp: r_start_def)
    then show ?thesis using 4 by (cases "r_start rs (nat b) \<le> fst (ms ! nat a)") (simp_all add: eqs)
  next
    case 5
    then show ?thesis using "1.IH"(3) by (simp add: eqs split: option.splits prod.splits)
  qed
qed

text \<open>
  What the loops need of an iterator: from a state that has the ranges \<open>L\<close> left it delivers them one
  by one and then ends.
\<close>

fun first_some :: "(nat \<times> nat \<Rightarrow> nat option) \<Rightarrow> (nat \<times> nat) list \<Rightarrow> nat" where
  "first_some cand [] = 0"
| "first_some cand (x # xs) = (case cand x of Some c \<Rightarrow> c | None \<Rightarrow> first_some cand xs)"

locale range_iter =
  fixes nxt :: "int \<Rightarrow> nat \<times> nat \<Rightarrow> int \<times> nat \<times> nat" and at :: "int \<Rightarrow> (nat \<times> nat) list \<Rightarrow> bool"
  assumes running: "at i L \<Longrightarrow> i \<noteq> ULLONG_MAX"
    and finish: "at i [] \<Longrightarrow> fst (nxt i this) = ULLONG_MAX"
    and deliver: "at i (x # L) \<Longrightarrow> snd (nxt i this) = x \<and> at (fst (nxt i this)) L"
begin

lemma search: "at i L \<Longrightarrow> search_loop nxt cand i this = Some (first_some cand (this # L))"
proof (induction L arbitrary: i this)
  case Nil
  obtain y where y: "nxt i this = (ULLONG_MAX, y)" using finish [OF Nil, of this] by (cases "nxt i this") simp
  show ?case using running [OF Nil]
    by (subst search_loop.simps) (simp add: y search_loop.simps [of nxt cand ULLONG_MAX] split: option.split)
next
  case (Cons x L)
  obtain j where j: "nxt i this = (j, x)" "at j L" using deliver [OF Cons.prems, of this] by (cases "nxt i this") simp
  show ?case using running [OF Cons.prems] Cons.IH [OF j(2), of x]
    by (subst search_loop.simps) (simp add: j(1) split: option.split)
qed

lemma search_start: "at i L \<Longrightarrow> (case nxt i this of (j, x) \<Rightarrow> search_loop nxt cand j x) = Some (first_some cand L)"
proof (cases L)
  case Nil
  assume "at i L"
  then show ?thesis using finish [of i this] Nil by (cases "nxt i this") (simp add: search_loop.simps)
next
  case (Cons x L')
  assume "at i L"
  then show ?thesis using deliver [of i x L' this] search [of _ L' cand x] Cons by (cases "nxt i this") simp
qed

lemma collect: "at i L \<Longrightarrow> free_all_loop nxt i this = Some (map (\<lambda>(s, e). (s, psub e s)) (this # L))"
proof (induction L arbitrary: i this)
  case Nil
  obtain y where y: "nxt i this = (ULLONG_MAX, y)" using finish [OF Nil, of this] by (cases "nxt i this") simp
  show ?case using running [OF Nil]
    by (subst free_all_loop.simps) (simp add: y free_all_loop.simps [of nxt ULLONG_MAX] split_beta)
next
  case (Cons x L)
  obtain j where j: "nxt i this = (j, x)" "at j L" using deliver [OF Cons.prems, of this] by (cases "nxt i this") simp
  show ?case using running [OF Cons.prems] Cons.IH [OF j(2), of x]
    by (subst free_all_loop.simps) (simp add: j(1) split_beta)
qed

lemma collect_start:
  "at i L \<Longrightarrow> (case nxt i this of (j, x) \<Rightarrow> free_all_loop nxt j x) = Some (map (\<lambda>(s, e). (s, psub e s)) L)"
proof (cases L)
  case Nil
  assume "at i L"
  then show ?thesis using finish [of i this] Nil by (cases "nxt i this") (simp add: free_all_loop.simps)
next
  case (Cons x L')
  assume "at i L"
  then show ?thesis using deliver [of i x L' this] collect [of _ L' x] Cons by (cases "nxt i this") simp
qed

end

definition tables_small :: "region list \<Rightarrow> region list \<Rightarrow> bool" where
  "tables_small ms rs \<longleftrightarrow> length ms < 2 ^ 30 \<and> length rs < 2 ^ 30"

definition fwd_at :: "region list \<Rightarrow> region list \<Rightarrow> int \<Rightarrow> (nat \<times> nat) list \<Rightarrow> bool" where
  "fwd_at ms rs i L \<longleftrightarrow> tables_small ms rs \<and>
     (\<exists>a b. i = mem_pack (int a) (int b) \<and> a \<le> length ms \<and> b \<le> length rs + 1 \<and> L = frees ms rs a b)"

definition rev_at :: "region list \<Rightarrow> region list \<Rightarrow> int \<Rightarrow> (nat \<times> nat) list \<Rightarrow> bool" where
  "rev_at ms rs i L \<longleftrightarrow> tables_small ms rs \<and>
     (\<exists>a b. i = mem_pack a b \<and> - 1 \<le> a \<and> a < int (length ms) \<and> 0 \<le> b \<and> b \<le> int (length rs) \<and> L = frees_rev ms rs a b)"

lemma next_mem_range_pack:
  "tables_small ms rs \<Longrightarrow> a \<le> length ms \<Longrightarrow> b \<le> length rs + 1 \<Longrightarrow>
   next_mem_range ms rs (mem_pack (int a) (int b)) this =
     (case next_loop ms rs a b of None \<Rightarrow> (ULLONG_MAX, this) | Some (a, b, s, e) \<Rightarrow> (mem_pack (int a) (int b), s, e))"
  by (simp add: next_mem_range_def mem_unpack_pack tables_small_def)

lemma next_mem_range_rev_pack:
  "tables_small ms rs \<Longrightarrow> - 1 \<le> a \<Longrightarrow> a < int (length ms) \<Longrightarrow> 0 \<le> b \<Longrightarrow> b \<le> int (length rs) \<Longrightarrow>
   next_mem_range_rev ms rs (mem_pack a b) this =
     (case next_rev_loop ms rs a b of None \<Rightarrow> (ULLONG_MAX, this) | Some (a, b, s, e) \<Rightarrow> (mem_pack a b, s, e))"
  by (simp add: next_mem_range_rev_def mem_unpack_pack mem_pack_not_max tables_small_def)

interpretation fw: range_iter "next_mem_range ms rs" "fwd_at ms rs" for ms rs
proof
  fix i L x this
  show "i \<noteq> ULLONG_MAX" if "fwd_at ms rs i L"
    using that by (auto simp: fwd_at_def tables_small_def mem_pack_not_max)
  show "fst (next_mem_range ms rs i this) = ULLONG_MAX" if at: "fwd_at ms rs i []"
  proof -
    obtain a b where ab: "i = mem_pack (int a) (int b)" "a \<le> length ms" "b \<le> length rs + 1" "frees ms rs a b = []" "tables_small ms rs"
      using at unfolding fwd_at_def by metis
    show ?thesis using next_loop_frees [of ms rs a b] ab
      by (auto simp: next_mem_range_pack split: option.splits)
  qed
  show "snd (next_mem_range ms rs i this) = x \<and> fwd_at ms rs (fst (next_mem_range ms rs i this)) L" if at: "fwd_at ms rs i (x # L)"
  proof -
    obtain a b where ab: "i = mem_pack (int a) (int b)" "a \<le> length ms" "b \<le> length rs + 1" "frees ms rs a b = x # L" "tables_small ms rs"
      using at unfolding fwd_at_def by metis
    show ?thesis using next_loop_frees [of ms rs a b] ab
      by (auto simp: next_mem_range_pack fwd_at_def split: option.splits)
  qed
qed

interpretation rv: range_iter "next_mem_range_rev ms rs" "rev_at ms rs" for ms rs
proof
  fix i L x this
  show "i \<noteq> ULLONG_MAX" if "rev_at ms rs i L"
    using that by (auto simp: rev_at_def tables_small_def mem_pack_not_max)
  show "fst (next_mem_range_rev ms rs i this) = ULLONG_MAX" if at: "rev_at ms rs i []"
  proof -
    obtain a b where ab: "i = mem_pack a b" "- 1 \<le> a" "a < int (length ms)" "0 \<le> b" "b \<le> int (length rs)" "frees_rev ms rs a b = []"
      "tables_small ms rs" using at unfolding rev_at_def by metis
    show ?thesis using next_rev_loop_frees [of ms rs a b] ab
      by (auto simp: next_mem_range_rev_pack split: option.splits)
  qed
  show "snd (next_mem_range_rev ms rs i this) = x \<and> rev_at ms rs (fst (next_mem_range_rev ms rs i this)) L"
    if at: "rev_at ms rs i (x # L)"
  proof -
    obtain a b where ab: "i = mem_pack a b" "- 1 \<le> a" "a < int (length ms)" "0 \<le> b" "b \<le> int (length rs)" "frees_rev ms rs a b = x # L"
      "tables_small ms rs" using at unfolding rev_at_def by metis
    show ?thesis using next_rev_loop_frees [of ms rs a b] ab
      by (auto simp: next_mem_range_rev_pack rev_at_def split: option.splits) force+
  qed
qed

subsection \<open>Which ranges are delivered\<close>

definition tab_ok :: "region list \<Rightarrow> bool" where
  "tab_ok rs \<longleftrightarrow> rs = [(0, 0)] \<or> rs \<noteq> [] \<and> gapped rs"

lemma tab_bound: "tab_ok rs \<Longrightarrow> i < length rs \<Longrightarrow> fst (rs ! i) + snd (rs ! i) < 2 ^ 64"
  unfolding tab_ok_def gapped_def region_ok_def by (auto dest!: nth_mem)

lemma tab_sorted: "tab_ok rs \<Longrightarrow> i < j \<Longrightarrow> j < length rs \<Longrightarrow> fst (rs ! i) + snd (rs ! i) < fst (rs ! j)"
  unfolding tab_ok_def gapped_def by (auto simp: sorted_wrt_iff_nth_less)

lemma m_end_eq: "tab_ok ms \<Longrightarrow> i < length ms \<Longrightarrow> m_end ms i = fst (ms ! i) + snd (ms ! i)"
  using tab_bound [of ms i] by (simp add: m_end_def)

lemma m_mono: "tab_ok ms \<Longrightarrow> i < i' \<Longrightarrow> i' < length ms \<Longrightarrow> m_end ms i < fst (ms ! i')"
  using tab_sorted [of ms i i'] by (simp add: m_end_eq)

lemma m_start_mono: "tab_ok ms \<Longrightarrow> i \<le> i' \<Longrightarrow> i' < length ms \<Longrightarrow> fst (ms ! i) \<le> fst (ms ! i')"
  using tab_sorted [of ms i i'] by (cases "i = i'") auto

lemma r_start_Suc: "tab_ok rs \<Longrightarrow> j < length rs \<Longrightarrow> r_start rs (Suc j) = fst (rs ! j) + snd (rs ! j)"
  using tab_bound [of rs j] by (simp add: r_start_def)

lemma r_mono:
  assumes "tab_ok rs" "j < j'" "j' \<le> length rs"
  shows "r_end rs j \<le> r_start rs j'"
proof -
  obtain k where k: "j' = Suc k" "j \<le> k" "k < length rs" using assms(2,3) by (cases j') auto
  then show ?thesis using r_start_Suc [OF assms(1) k(3)] m_start_mono [OF assms(1) k(2,3)] by (simp add: r_end_def)
qed

lemma r_start_end:
  assumes "tab_ok rs" "j \<le> length rs"
  shows "r_start rs j \<le> r_end rs j"
proof (cases j)
  case (Suc k)
  then show ?thesis
    using r_start_Suc [OF assms(1), of k] tab_bound [OF assms(1), of k] tab_sorted [OF assms(1), of k j] assms(2)
    by (auto simp: r_end_def)
qed (simp add: r_start_def)

lemma r_start_mono: "tab_ok rs \<Longrightarrow> j \<le> j' \<Longrightarrow> j' \<le> length rs \<Longrightarrow> r_start rs j \<le> r_start rs j'"
  using r_mono [of rs j j'] r_start_end [of rs j] by (cases "j = j'") auto

lemma r_end_mono: "tab_ok rs \<Longrightarrow> j \<le> j' \<Longrightarrow> j' \<le> length rs \<Longrightarrow> r_end rs j \<le> r_end rs j'"
  using r_mono [of rs j j'] r_start_end [of rs j'] by (cases "j = j'") auto

text \<open>Memory region \<open>i\<close> and gap \<open>j\<close> have addresses in common, and which.\<close>

definition meets :: "region list \<Rightarrow> region list \<Rightarrow> nat \<Rightarrow> nat \<Rightarrow> bool" where
  "meets ms rs i j \<longleftrightarrow> i < length ms \<and> j \<le> length rs \<and> r_start rs j < m_end ms i \<and> fst (ms ! i) < r_end rs j"

definition common :: "region list \<Rightarrow> region list \<Rightarrow> nat \<Rightarrow> nat \<Rightarrow> nat \<times> nat" where
  "common ms rs i j = (max (fst (ms ! i)) (r_start rs j), min (m_end ms i) (r_end rs j))"

lemma meets_skip:
  assumes "tab_ok ms" "tab_ok rs" "a < length ms" "b \<le> length rs"
  shows "m_end ms a \<le> r_start rs b \<Longrightarrow> b \<le> j \<Longrightarrow> \<not> meets ms rs a j"
    and "m_end ms a \<le> r_end rs b \<Longrightarrow> b < j \<Longrightarrow> \<not> meets ms rs a j"
    and "r_end rs b \<le> m_end ms a \<Longrightarrow> a < i \<Longrightarrow> \<not> meets ms rs i b"
    and "r_end rs b \<le> fst (ms ! a) \<Longrightarrow> a \<le> i \<Longrightarrow> \<not> meets ms rs i b"
    and "r_end rs b \<le> fst (ms ! a) \<Longrightarrow> j \<le> b \<Longrightarrow> \<not> meets ms rs a j"
    and "r_start rs b \<le> fst (ms ! a) \<Longrightarrow> j < b \<Longrightarrow> \<not> meets ms rs a j"
    and "fst (ms ! a) \<le> r_start rs b \<Longrightarrow> i < a \<Longrightarrow> \<not> meets ms rs i b"
    and "m_end ms a \<le> r_start rs b \<Longrightarrow> i \<le> a \<Longrightarrow> \<not> meets ms rs i b"
proof -
  show "m_end ms a \<le> r_start rs b \<Longrightarrow> b \<le> j \<Longrightarrow> \<not> meets ms rs a j" using r_start_mono [OF assms(2), of b j] by (auto simp: meets_def)
  show "m_end ms a \<le> r_end rs b \<Longrightarrow> b < j \<Longrightarrow> \<not> meets ms rs a j" using r_mono [OF assms(2), of b j] by (auto simp: meets_def)
  show "r_end rs b \<le> m_end ms a \<Longrightarrow> a < i \<Longrightarrow> \<not> meets ms rs i b" using m_mono [OF assms(1), of a i] by (auto simp: meets_def)
  show "r_end rs b \<le> fst (ms ! a) \<Longrightarrow> a \<le> i \<Longrightarrow> \<not> meets ms rs i b" using m_start_mono [OF assms(1), of a i] by (auto simp: meets_def)
  show "r_end rs b \<le> fst (ms ! a) \<Longrightarrow> j \<le> b \<Longrightarrow> \<not> meets ms rs a j" using r_end_mono [OF assms(2) _ assms(4), of j] by (auto simp: meets_def)
  show "r_start rs b \<le> fst (ms ! a) \<Longrightarrow> j < b \<Longrightarrow> \<not> meets ms rs a j" using r_mono [OF assms(2) _ assms(4), of j] by (auto simp: meets_def)
  show "fst (ms ! a) \<le> r_start rs b \<Longrightarrow> i < a \<Longrightarrow> \<not> meets ms rs i b" using m_mono [OF assms(1) _ assms(3), of i] by (auto simp: meets_def)
  show "m_end ms a \<le> r_start rs b \<Longrightarrow> i \<le> a \<Longrightarrow> \<not> meets ms rs i b"
    using m_mono [OF assms(1) _ assms(3), of i] m_end_eq [OF assms(1,3)] by (cases "i = a") (auto simp: meets_def)
qed

definition commons :: "region list \<Rightarrow> region list \<Rightarrow> (nat \<Rightarrow> nat \<Rightarrow> bool) \<Rightarrow> (nat \<times> nat) set" where
  "commons ms rs P = {common ms rs i j |i j. P i j \<and> meets ms rs i j}"

lemma commons_skip: "(\<And>i j. meets ms rs i j \<Longrightarrow> P i j \<longleftrightarrow> Q i j) \<Longrightarrow> commons ms rs P = commons ms rs Q"
  unfolding commons_def by blast

lemma commons_hit:
  assumes "meets ms rs a b" "\<And>i j. meets ms rs i j \<Longrightarrow> P i j \<longleftrightarrow> i = a \<and> j = b \<or> Q i j"
  shows "commons ms rs P = insert (common ms rs a b) (commons ms rs Q)"
  using assms unfolding commons_def by blast

lemma frees_set:
  assumes "tab_ok ms" "tab_ok rs"
  shows "set (frees ms rs a b) = commons ms rs (\<lambda>i j. a \<le> i \<and> b \<le> j)"
  using assms
proof (induction ms rs a b rule: frees.induct)
  case (1 ms rs a b)
  note skip = meets_skip [OF "1.prems", of a b] and eq = frees.simps [of ms rs a b]
  consider "a \<ge> length ms" | "a < length ms" "b \<ge> length rs + 1"
    | "a < length ms" "b < length rs + 1" "r_start rs b \<ge> m_end ms a"
    | "a < length ms" "b < length rs + 1" "r_start rs b < m_end ms a" "fst (ms ! a) < r_end rs b" "m_end ms a \<le> r_end rs b"
    | "a < length ms" "b < length rs + 1" "r_start rs b < m_end ms a" "fst (ms ! a) < r_end rs b" "\<not> m_end ms a \<le> r_end rs b"
    | "a < length ms" "b < length rs + 1" "r_start rs b < m_end ms a" "\<not> fst (ms ! a) < r_end rs b" by linarith
  then show ?case
  proof cases
    case 1
    then show ?thesis by (simp add: eq) (auto simp: commons_def meets_def)
  next
    case 2
    then have "commons ms rs (\<lambda>i j. a + 1 \<le> i \<and> b \<le> j) = commons ms rs (\<lambda>i j. a \<le> i \<and> b \<le> j)"
      by (intro commons_skip) (auto simp: meets_def)
    then show ?thesis using 2 "1.IH"(1) "1.prems" by (simp add: eq)
  next
    case 3
    then have "\<not> meets ms rs a j" if "b \<le> j" for j using skip(1) that by simp
    then have "commons ms rs (\<lambda>i j. a + 1 \<le> i \<and> b \<le> j) = commons ms rs (\<lambda>i j. a \<le> i \<and> b \<le> j)"
      by (intro commons_skip) (metis Suc_eq_plus1 Suc_leD le_antisym not_less_eq_eq)
    then show ?thesis using 3 "1.IH"(2) "1.prems" by (simp add: eq)
  next
    case 4
    then have m: "meets ms rs a b" by (simp add: meets_def)
    have "\<not> meets ms rs a j" if "b < j" for j using skip(2) 4 that by simp
    then have "commons ms rs (\<lambda>i j. a \<le> i \<and> b \<le> j) = insert (common ms rs a b) (commons ms rs (\<lambda>i j. a + 1 \<le> i \<and> b \<le> j))"
      by (rule_tac commons_hit [OF m]) (case_tac "i = a", auto simp: le_less Suc_le_eq)
    then show ?thesis using 4 "1.IH"(3) "1.prems" by (simp add: eq common_def)
  next
    case 5
    then have m: "meets ms rs a b" by (simp add: meets_def)
    have "\<not> meets ms rs i b" if "a < i" for i using skip(3) 5 that by simp
    then have "commons ms rs (\<lambda>i j. a \<le> i \<and> b \<le> j) = insert (common ms rs a b) (commons ms rs (\<lambda>i j. a \<le> i \<and> b + 1 \<le> j))"
      by (rule_tac commons_hit [OF m]) (case_tac "j = b", auto simp: le_less Suc_le_eq)
    then show ?thesis using 5 "1.IH"(4) "1.prems" by (simp add: eq common_def)
  next
    case 6
    then have "\<not> meets ms rs i b" if "a \<le> i" for i using skip(4) that by simp
    then have "commons ms rs (\<lambda>i j. a \<le> i \<and> b + 1 \<le> j) = commons ms rs (\<lambda>i j. a \<le> i \<and> b \<le> j)"
      by (intro commons_skip) (case_tac "j = b", auto)
    then show ?thesis using 6 "1.IH"(5) "1.prems" by (simp add: eq)
  qed
qed

lemma frees_rev_set:
  assumes "tab_ok ms" "tab_ok rs"
  shows "a < int (length ms) \<Longrightarrow> b \<le> int (length rs) \<Longrightarrow>
    set (frees_rev ms rs a b) = commons ms rs (\<lambda>i j. int i \<le> a \<and> int j \<le> b)"
  using assms
proof (induction ms rs a b rule: frees_rev.induct)
  case (1 ms rs a b)
  note skip = meets_skip [OF "1.prems"(3,4), of "nat a" "nat b"] and eq = frees_rev.simps [of ms rs a b]
  consider "a < 0" | "a \<ge> 0" "b < 0" | "a \<ge> 0" "b \<ge> 0" "r_end rs (nat b) \<le> fst (ms ! nat a)"
    | "a \<ge> 0" "b \<ge> 0" "fst (ms ! nat a) < r_end rs (nat b)" "r_start rs (nat b) < m_end ms (nat a)" "r_start rs (nat b) \<le> fst (ms ! nat a)"
    | "a \<ge> 0" "b \<ge> 0" "fst (ms ! nat a) < r_end rs (nat b)" "r_start rs (nat b) < m_end ms (nat a)" "\<not> r_start rs (nat b) \<le> fst (ms ! nat a)"
    | "a \<ge> 0" "b \<ge> 0" "fst (ms ! nat a) < r_end rs (nat b)" "\<not> r_start rs (nat b) < m_end ms (nat a)" by linarith
  then show ?case
  proof cases
    case 1
    then show ?thesis by (simp add: eq) (auto simp: commons_def)
  next
    case 2
    then have "commons ms rs (\<lambda>i j. int i \<le> a - 1 \<and> int j \<le> b) = commons ms rs (\<lambda>i j. int i \<le> a \<and> int j \<le> b)"
      by (intro commons_skip) auto
    then show ?thesis using 2 "1.IH"(1) "1.prems" by (simp add: eq)
  next
    case 3
    then have "\<not> meets ms rs (nat a) j" if "int j \<le> b" for j using skip(5) that "1.prems" by auto
    then have "commons ms rs (\<lambda>i j. int i \<le> a - 1 \<and> int j \<le> b) = commons ms rs (\<lambda>i j. int i \<le> a \<and> int j \<le> b)"
      by (intro commons_skip) (case_tac "int i = a", auto)
    then show ?thesis using 3 "1.IH"(2) "1.prems" by (simp add: eq)
  next
    case 4
    then have m: "meets ms rs (nat a) (nat b)" using "1.prems" by (simp add: meets_def) linarith
    have "\<not> meets ms rs (nat a) j" if "int j < b" for j using skip(6) that 4 "1.prems" by auto
    then have "commons ms rs (\<lambda>i j. int i \<le> a \<and> int j \<le> b) =
        insert (common ms rs (nat a) (nat b)) (commons ms rs (\<lambda>i j. int i \<le> a - 1 \<and> int j \<le> b))"
      using 4(1,2) by (rule_tac commons_hit [OF m]) (case_tac "int i = a"; case_tac "int j = b"; auto)
    then show ?thesis using 4 "1.IH"(3) "1.prems" by (simp add: eq common_def)
  next
    case 5
    then have m: "meets ms rs (nat a) (nat b)" using "1.prems" by (simp add: meets_def) linarith
    have "\<not> meets ms rs i (nat b)" if "int i < a" for i using skip(7) that 5 "1.prems" by auto
    then have "commons ms rs (\<lambda>i j. int i \<le> a \<and> int j \<le> b) =
        insert (common ms rs (nat a) (nat b)) (commons ms rs (\<lambda>i j. int i \<le> a \<and> int j \<le> b - 1))"
      using 5(1,2) by (rule_tac commons_hit [OF m]) (case_tac "int i = a"; case_tac "int j = b"; auto)
    then show ?thesis using 5 "1.IH"(4) "1.prems" by (simp add: eq common_def)
  next
    case 6
    then have "\<not> meets ms rs i (nat b)" if "int i \<le> a" for i using skip(8) that "1.prems" by auto
    then have "commons ms rs (\<lambda>i j. int i \<le> a \<and> int j \<le> b - 1) = commons ms rs (\<lambda>i j. int i \<le> a \<and> int j \<le> b)"
      by (intro commons_skip) (case_tac "int j = b", auto)
    then show ?thesis using 6 "1.IH"(5) "1.prems" by (simp add: eq)
  qed
qed

lemma frees_all: "tab_ok ms \<Longrightarrow> tab_ok rs \<Longrightarrow> set (frees ms rs 0 0) = commons ms rs (\<lambda>_ _. True)"
  by (simp add: frees_set)

lemma frees_rev_all:
  "tab_ok ms \<Longrightarrow> tab_ok rs \<Longrightarrow> set (frees_rev ms rs (int (length ms) - 1) (int (length rs))) = commons ms rs (\<lambda>_ _. True)"
  by (subst frees_rev_set) (auto intro!: commons_skip simp: meets_def)

subsection \<open>Addresses\<close>

lemma rset_nth: "x \<in> rset rs \<longleftrightarrow> (\<exists>k<length rs. fst (rs ! k) \<le> x \<and> x < fst (rs ! k) + snd (rs ! k))"
proof -
  have "x \<in> rset rs \<longleftrightarrow> (\<exists>r\<in>set rs. fst r \<le> x \<and> x < fst r + snd r)" by (auto simp: rset_def split_beta)
  then show ?thesis by (metis in_set_conv_nth)
qed

lemma gap_exists:
  assumes "tab_ok rs" "x \<notin> rset rs" "x < 2 ^ 64 - 1"
  shows "\<exists>j\<le>length rs. r_start rs j \<le> x \<and> x < r_end rs j"
proof -
  let ?P = "\<lambda>j. j \<le> length rs \<and> x < r_end rs j"
  define j where "j = (LEAST j. ?P j)"
  have "?P (length rs)" using assms(3) by (simp add: r_end_def)
  then have j: "j \<le> length rs" "x < r_end rs j" unfolding j_def by (metis (no_types, lifting) LeastI)+
  have "r_start rs j \<le> x"
  proof (cases j)
    case (Suc k)
    then have k: "k < length rs" using j(1) by simp
    have "\<not> ?P k" using not_less_Least [of k ?P] Suc unfolding j_def by simp
    then have "fst (rs ! k) \<le> x" using k by (simp add: r_end_def)
    then have "fst (rs ! k) + snd (rs ! k) \<le> x" using assms(2) k by (auto simp: rset_nth not_less)
    then show ?thesis using Suc r_start_Suc [OF assms(1) k] by simp
  qed (simp add: r_start_def)
  then show ?thesis using j by blast
qed

lemma gap_free:
  assumes "tab_ok rs" "j \<le> length rs" "r_start rs j \<le> x" "x < r_end rs j"
  shows "x \<notin> rset rs"
proof
  assume "x \<in> rset rs"
  then obtain k where k: "k < length rs" "fst (rs ! k) \<le> x" "x < fst (rs ! k) + snd (rs ! k)" by (auto simp: rset_nth)
  show False
  proof (cases "k < j")
    case True
    then have "r_start rs (Suc k) \<le> r_start rs j" using assms(2) by (intro r_start_mono assms(1)) auto
    then show ?thesis using r_start_Suc [OF assms(1) k(1)] assms(3) k(3) by simp
  next
    case False
    then have "r_end rs j \<le> fst (rs ! k)" using k(1) m_start_mono [OF assms(1), of j k] by (simp add: r_end_def)
    then show ?thesis using assms(4) k(2) by simp
  qed
qed

definition free_set :: "region list \<Rightarrow> region list \<Rightarrow> nat set" where
  "free_set ms rs = rset ms - rset rs"

lemma common_free:
  assumes "tab_ok ms" "tab_ok rs" "(s, e) \<in> commons ms rs P"
  shows "s < e \<and> e < 2 ^ 64 \<and> {s..<e} \<subseteq> free_set ms rs"
proof -
  obtain i j where ij: "i < length ms" "j \<le> length rs" "r_start rs j < m_end ms i" "fst (ms ! i) < r_end rs j"
    "s = max (fst (ms ! i)) (r_start rs j)" "e = min (m_end ms i) (r_end rs j)"
    using assms(3) by (auto simp: commons_def meets_def common_def)
  have m: "m_end ms i = fst (ms ! i) + snd (ms ! i)" "m_end ms i < 2 ^ 64"
    using m_end_eq [OF assms(1) ij(1)] tab_bound [OF assms(1) ij(1)] by auto
  have "0 < snd (ms ! i)" using assms(1) ij(1,3) by (auto simp: tab_ok_def gapped_def region_ok_def m_end_def dest!: nth_mem)
  moreover have "r_start rs j < r_end rs j"
  proof (cases j)
    case 0
    then show ?thesis using ij(4) by (simp add: r_start_def)
  next
    case (Suc k)
    then show ?thesis
      using r_start_Suc [OF assms(2), of k] tab_sorted [OF assms(2), of k j] ij(2,3) m(2) by (cases "j < length rs") (auto simp: r_end_def)
  qed
  moreover have "x \<in> free_set ms rs" if "s \<le> x" "x < e" for x
    using that ij m gap_free [OF assms(2) ij(2), of x] by (auto simp: free_set_def rset_nth)
  ultimately show ?thesis using ij m by auto
qed

lemma free_common:
  assumes ok: "tab_ok ms" "tab_ok rs" and n: "0 < n" "{x..<x + n} \<subseteq> free_set ms rs"
  shows "\<exists>s e. (s, e) \<in> commons ms rs (\<lambda>_ _. True) \<and> s \<le> x \<and> x + n \<le> e"
proof -
  have mem: "y \<in> rset ms" "y \<notin> rset rs" if "x \<le> y" "y < x + n" for y using n(2) that by (auto simp: free_set_def)
  obtain i where i: "i < length ms" "fst (ms ! i) \<le> x" "x < fst (ms ! i) + snd (ms ! i)" using mem(1) [of x] n(1) by (auto simp: rset_nth)
  note me = m_end_eq [OF ok(1) i(1)] tab_bound [OF ok(1) i(1)]
  obtain j where j: "j \<le> length rs" "r_start rs j \<le> x" "x < r_end rs j"
    using gap_exists [OF ok(2) mem(2) [of x]] n(1) i(3) me(2) by auto
  have "x + n \<le> m_end ms i"
  proof (rule ccontr)
    assume "\<not> ?thesis"
    then obtain k where k: "k < length ms" "fst (ms ! k) \<le> m_end ms i" "m_end ms i < fst (ms ! k) + snd (ms ! k)"
      using mem(1) [of "m_end ms i"] i(3) me(1) by (auto simp: rset_nth)
    then show False using m_mono [OF ok(1), of i k] m_mono [OF ok(1), of k i] m_end_eq [OF ok(1) k(1)] i me(1)
      by (cases "k < i"; cases "k = i") auto
  qed
  moreover have "x + n \<le> r_end rs j"
  proof (rule ccontr)
    assume less: "\<not> ?thesis"
    show False
    proof (cases "j < length rs")
      case True
      then have "0 < snd (rs ! j)" using ok(2) j(3) by (auto simp: tab_ok_def gapped_def region_ok_def r_end_def)
      then have "r_end rs j \<in> rset rs" using True by (auto simp: rset_nth r_end_def)
      then show ?thesis using mem(2) [of "r_end rs j"] j(3) less by simp
    next
      case False
      then show ?thesis using calculation me less by (simp add: r_end_def)
    qed
  qed
  moreover have "meets ms rs i j" using i j me by (simp add: meets_def)
  ultimately show ?thesis using i(2) j(2)
    by (intro exI [of _ "fst (common ms rs i j)"] exI [of _ "snd (common ms rs i j)"]) (auto simp: commons_def common_def)
qed

section \<open>Search\<close>

lemma first_some_sound: "first_some cand L = c \<Longrightarrow> c \<noteq> 0 \<Longrightarrow> \<exists>x\<in>set L. cand x = Some c"
  by (induction L) (auto split: option.splits)

lemma first_some_complete:
  "x \<in> set L \<Longrightarrow> cand x \<noteq> None \<Longrightarrow> \<forall>x\<in>set L. cand x \<noteq> Some 0 \<Longrightarrow> first_some cand L \<noteq> 0"
  by (induction L) (auto split: option.splits)

lemma addr_round_down_eq: "x < 2 ^ 64 \<Longrightarrow> addr_round_down x (2 ^ k) = x - x mod 2 ^ k"
  by (simp add: addr_round_down_def round_down_unat unat_of_nat)

lemma addr_round_down_le: "x < 2 ^ 64 \<Longrightarrow> addr_round_down x (2 ^ k) \<le> x"
  by (simp add: addr_round_down_eq)

lemma addr_round_down_dvd: "x < 2 ^ 64 \<Longrightarrow> 2 ^ k dvd addr_round_down x (2 ^ k)"
  by (simp add: addr_round_down_eq)

lemma addr_round_down_greatest:
  assumes "x < 2 ^ 64" "2 ^ k dvd y" "y \<le> x"
  shows "y \<le> addr_round_down x (2 ^ k)"
proof -
  obtain q where q: "y = 2 ^ k * q" using assms(2) by blast
  have "q \<le> x div 2 ^ k" using assms(3) q by (simp add: less_eq_div_iff_mult_less_eq mult.commute)
  then have "y \<le> 2 ^ k * (x div 2 ^ k)" using q by simp
  then show ?thesis using assms(1) by (simp add: addr_round_down_eq minus_mod_eq_mult_div)
qed

lemma addr_round_up_ok:
  assumes "x < 2 ^ 64" "addr_round_up x (2 ^ k) \<noteq> 0"
  shows "2 ^ k dvd addr_round_up x (2 ^ k) \<and> x \<le> addr_round_up x (2 ^ k)"
proof -
  let ?x = "of_nat x :: u64" let ?y = "(?x - 1) OR mask k"
  have up: "addr_round_up x (2 ^ k) = unat (?y + 1)" by (simp add: addr_round_up_def round_up_def mask_eq_exp_minus_1)
  have "round_up ?x (2 ^ k) = round_down (?x + mask k) (2 ^ k)" by (simp only: round_up_ALIGN_UP ALIGN_UP_eq)
  then have "2 ^ k dvd addr_round_up x (2 ^ k)" by (simp add: addr_round_up_def round_down_unat)
  moreover have "x \<le> unat (?y + 1)"
  proof (cases "x = 0")
    case False
    then have "?x \<noteq> 0" using assms(1) by (simp add: word_of_nat_eq_0_iff nat_dvd_not_less)
    then have "unat ?x = unat (?x - 1) + 1" using unat_minus_one [of ?x] unat_gt_0 [of ?x] by simp
    moreover have "unat (?x - 1) \<le> unat ?y" by (simp add: le_word_or2 word_le_nat_alt [symmetric])
    moreover have "?y + 1 \<noteq> 0" using assms(2) up by auto
    then have "unat (?y + 1) = unat ?y + 1" by (simp add: unatSuc add.commute)
    ultimately show ?thesis using assms(1) by (simp add: unat_of_nat)
  qed simp
  ultimately show ?thesis using up by simp
qed

text \<open>A well-formed state, and the addresses at which an area of \<open>n\<close> bytes may be placed.\<close>

definition mem_wf :: "mem_sys \<Rightarrow> bool" where
  "mem_wf m \<longleftrightarrow> mem_inv (memory m) \<and> mem_inv (reserved m) \<and> maxr (memory m) < 2 ^ 30 \<and> maxr (reserved m) < 2 ^ 30 \<and>
     current_limit m < 2 ^ 64 \<and> kernel_end m < 2 ^ 64"

definition fits :: "mem_sys \<Rightarrow> nat \<Rightarrow> nat \<Rightarrow> nat \<Rightarrow> nat \<Rightarrow> nat \<Rightarrow> bool" where
  "fits m n align lo hi x \<longleftrightarrow> align dvd x \<and> lo \<le> x \<and> x + n \<le> hi \<and> {x..<x + n} \<subseteq> mem_set (memory m) - mem_set (reserved m)"

lemma mem_wf_tables:
  assumes "mem_wf m"
  shows "tab_ok (regions (memory m))" "tab_ok (regions (reserved m))" "tables_small (regions (memory m)) (regions (reserved m))"
  using assms by (auto simp: mem_wf_def mem_inv_def tab_ok_def tables_small_def)

lemma clamp_range:
  assumes "lo \<le> hi" "clamp ts lo hi \<le> c" "c + n \<le> clamp te lo hi" "0 < n"
  shows "ts \<le> c \<and> c + n \<le> te \<and> lo \<le> c \<and> c + n \<le> hi"
  using assms by (auto simp: clamp_def min_def max_def split: if_splits)

lemma top_down_cand_ok:
  assumes "top_down_cand lo hi n (2 ^ k) (ts, te) = Some c" "lo \<le> hi" "hi < 2 ^ 64" "0 < n"
  shows "2 ^ k dvd c \<and> ts \<le> c \<and> c + n \<le> te \<and> lo \<le> c \<and> c + n \<le> hi"
proof -
  let ?e = "clamp te lo hi"
  have e: "?e < 2 ^ 64" using assms(2,3) by (simp add: clamp_def)
  have c: "n \<le> ?e" "c = addr_round_down (?e - n) (2 ^ k)" "clamp ts lo hi \<le> c"
    using assms(1) e by (auto simp: top_down_cand_def Let_def split: if_splits)
  have "c \<le> ?e - n" "2 ^ k dvd c" using addr_round_down_le [of "?e - n" k] addr_round_down_dvd [of "?e - n" k] e c(2) by auto
  then show ?thesis using clamp_range [OF assms(2) c(3), of n te] c(1) assms(4) by simp
qed

lemma top_down_cand_finds:
  assumes "2 ^ k dvd x" "ts \<le> x" "x + n \<le> te" "lo \<le> x" "x + n \<le> hi" "hi < 2 ^ 64"
  shows "top_down_cand lo hi n (2 ^ k) (ts, te) \<noteq> None"
proof -
  let ?e = "clamp te lo hi"
  have e: "x + n \<le> ?e" "?e < 2 ^ 64" "clamp ts lo hi \<le> x" using assms by (auto simp: clamp_def)
  have "x \<le> addr_round_down (?e - n) (2 ^ k)" using e assms(1) by (intro addr_round_down_greatest) auto
  then show ?thesis using e by (simp add: top_down_cand_def Let_def)
qed

lemma bottom_up_cand_ok:
  assumes "bottom_up_cand lo hi n (2 ^ k) (ts, te) = Some c" "c \<noteq> 0" "lo \<le> hi" "hi < 2 ^ 64" "0 < n"
  shows "2 ^ k dvd c \<and> ts \<le> c \<and> c + n \<le> te \<and> lo \<le> c \<and> c + n \<le> hi"
proof -
  let ?s = "clamp ts lo hi" let ?e = "clamp te lo hi"
  have b: "?s < 2 ^ 64" "?e < 2 ^ 64" using assms(3,4) by (simp_all add: clamp_def)
  have c: "c = addr_round_up ?s (2 ^ k)" "c < ?e" "n \<le> psub ?e c"
    using assms(1) by (auto simp: bottom_up_cand_def Let_def split: if_splits)
  have "c + n \<le> ?e" using c b by simp
  moreover have "2 ^ k dvd c" "?s \<le> c" using addr_round_up_ok [OF b(1), of k] assms(2) c(1) by auto
  ultimately show ?thesis using clamp_range [OF assms(3), of ts c n te] assms(5) by simp
qed

lemma in_free:
  assumes "mem_wf m" "(s, e) \<in> commons (regions (memory m)) (regions (reserved m)) P" "s \<le> c" "c + n \<le> e"
  shows "{c..<c + n} \<subseteq> mem_set (memory m) - mem_set (reserved m)"
proof -
  have "{c..<c + n} \<subseteq> {s..<e}" using assms(3,4) by auto
  then show ?thesis using common_free [OF mem_wf_tables(1,2) [OF assms(1)] assms(2)]
    unfolding free_set_def mem_set_def by blast
qed

lemma find_top_down:
  assumes wf: "mem_wf m" and n: "0 < n" and lo: "0 < lo" "lo \<le> hi" "hi < 2 ^ 64"
  shows "\<exists>c. mem_find_range_top_down m lo hi n (2 ^ k) = Some c \<and> (c \<noteq> 0 \<longrightarrow> fits m n (2 ^ k) lo hi c) \<and>
    ((\<exists>x. fits m n (2 ^ k) lo hi x) \<longrightarrow> c \<noteq> 0)"
proof -
  let ?ms = "regions (memory m)" let ?rs = "regions (reserved m)" let ?cand = "top_down_cand lo hi n (2 ^ k)"
  let ?L = "frees_rev ?ms ?rs (int (length ?ms) - 1) (int (length ?rs))"
  note tab = mem_wf_tables [OF wf]
  have L: "set ?L = commons ?ms ?rs (\<lambda>_ _. True)" by (rule frees_rev_all [OF tab(1,2)])
  have at: "rev_at ?ms ?rs (mem_pack (int (length ?ms) - 1) (int (length ?rs))) ?L"
    unfolding rev_at_def using tab(3)
    by (intro conjI exI [of _ "int (length ?ms) - 1"] exI [of _ "int (length ?rs)"]) auto
  have "next_mem_range_rev ?ms ?rs ULLONG_MAX (0, 0) =
      next_mem_range_rev ?ms ?rs (mem_pack (int (length ?ms) - 1) (int (length ?rs))) (0, 0)"
    using tab(3) by (subst next_mem_range_rev_pack) (auto simp: next_mem_range_rev_def)
  then have find: "mem_find_range_top_down m lo hi n (2 ^ k) = Some (first_some ?cand ?L)"
    using rv.search_start [OF at, of ?cand "(0, 0)"] by (simp add: mem_find_range_top_down_def Let_def)
  have "fits m n (2 ^ k) lo hi c" if c: "first_some ?cand ?L = c" "c \<noteq> 0" for c
  proof -
    obtain s e where se: "(s, e) \<in> set ?L" "?cand (s, e) = Some c" using first_some_sound [OF c] by auto
    show ?thesis using top_down_cand_ok [OF se(2) lo(2,3) n] in_free [OF wf se(1) [unfolded L]] by (simp add: fits_def)
  qed
  moreover have "first_some ?cand ?L \<noteq> 0" if x: "fits m n (2 ^ k) lo hi x" for x
  proof -
    have "{x..<x + n} \<subseteq> free_set ?ms ?rs" using x by (simp add: fits_def free_set_def mem_set_def)
    then obtain s e where se: "(s, e) \<in> set ?L" "s \<le> x" "x + n \<le> e" using free_common [OF tab(1,2) n] unfolding L by blast
    have "?cand (s, e) \<noteq> None" using x se(2,3) lo(3) by (intro top_down_cand_finds) (auto simp: fits_def)
    moreover have "?cand q \<noteq> Some 0" for q using top_down_cand_ok [of lo hi n k "fst q" "snd q" 0] lo n by auto
    ultimately show ?thesis using first_some_complete [OF se(1), of ?cand] by simp
  qed
  ultimately show ?thesis using find by blast
qed

lemma find_bottom_up:
  assumes wf: "mem_wf m" and n: "0 < n" and lo: "lo \<le> hi" "hi < 2 ^ 64"
  shows "\<exists>c. mem_find_range_bottom_up m lo hi n (2 ^ k) = Some c \<and> (c \<noteq> 0 \<longrightarrow> fits m n (2 ^ k) lo hi c)"
proof -
  let ?ms = "regions (memory m)" let ?rs = "regions (reserved m)" let ?cand = "bottom_up_cand lo hi n (2 ^ k)"
  note tab = mem_wf_tables [OF wf]
  have "mem_pack 0 0 = 0" by (simp add: mem_pack_def)
  then have at: "fwd_at ?ms ?rs 0 (frees ?ms ?rs 0 0)" using tab(3) unfolding fwd_at_def by force
  have find: "mem_find_range_bottom_up m lo hi n (2 ^ k) = Some (first_some ?cand (frees ?ms ?rs 0 0))"
    using fw.search_start [OF at, of ?cand "(0, 0)"] by (simp add: mem_find_range_bottom_up_def Let_def)
  have "fits m n (2 ^ k) lo hi c" if c: "first_some ?cand (frees ?ms ?rs 0 0) = c" "c \<noteq> 0" for c
  proof -
    obtain s e where se: "(s, e) \<in> set (frees ?ms ?rs 0 0)" "?cand (s, e) = Some c" using first_some_sound [OF c] by auto
    show ?thesis using bottom_up_cand_ok [OF se(2) c(2) lo n] in_free [OF wf se(1) [unfolded frees_all [OF tab(1,2)]]]
      by (simp add: fits_def)
  qed
  then show ?thesis using find by blast
qed

lemma find_in_range:
  assumes wf: "mem_wf m" and n: "0 < n"
  shows "\<exists>c. mem_find_in_range m n (2 ^ k) 0 0 = Some c \<and>
    (c \<noteq> 0 \<longrightarrow> fits m n (2 ^ k) MEM_PAGE_SIZE (max MEM_PAGE_SIZE (current_limit m)) c) \<and>
    ((\<exists>x. fits m n (2 ^ k) MEM_PAGE_SIZE (max MEM_PAGE_SIZE (current_limit m)) x) \<longrightarrow> c \<noteq> 0)"
proof -
  let ?lo = MEM_PAGE_SIZE let ?hi = "max ?lo (current_limit m)" let ?b = "max ?lo (kernel_end m)"
  have hi: "0 < ?lo" "?lo \<le> ?hi" "?hi < 2 ^ 64" using wf by (auto simp: MEM_PAGE_SIZE_def mem_wf_def)
  obtain d where d: "mem_find_range_top_down m ?lo ?hi n (2 ^ k) = Some d" "d \<noteq> 0 \<longrightarrow> fits m n (2 ^ k) ?lo ?hi d"
    "(\<exists>x. fits m n (2 ^ k) ?lo ?hi x) \<longrightarrow> d \<noteq> 0" using find_top_down [OF wf n hi] by blast
  obtain u where u: "(if bottom_up m \<and> ?hi > kernel_end m then mem_find_range_bottom_up m ?b ?hi n (2 ^ k) else Some 0) = Some u"
    "u \<noteq> 0 \<longrightarrow> fits m n (2 ^ k) ?lo ?hi u"
  proof (cases "bottom_up m \<and> ?hi > kernel_end m")
    case True
    then have "?b \<le> ?hi" by auto
    then obtain c where c: "mem_find_range_bottom_up m ?b ?hi n (2 ^ k) = Some c" "c \<noteq> 0 \<longrightarrow> fits m n (2 ^ k) ?b ?hi c"
      using find_bottom_up [OF wf n _ hi(3)] by blast
    have "c \<noteq> 0 \<longrightarrow> fits m n (2 ^ k) ?lo ?hi c" using c(2) by (auto simp: fits_def)
    then show ?thesis using that [of c] c(1) True by simp
  next
    case False
    then show ?thesis using that [of 0] by (simp only: if_False) simp
  qed
  have "mem_find_in_range m n (2 ^ k) 0 0 = Some (if u \<noteq> 0 then u else d)"
    using d(1) by (simp only: mem_find_in_range_def Let_def simp_thms if_True max_nat.left_neutral u(1) Option.bind.simps) simp
  then show ?thesis using u(2) d(2,3) by (intro exI [of _ "if u \<noteq> 0 then u else d"]) auto
qed

lemma fill_disjoint_length:
  "ordered rs \<Longrightarrow> b < e \<Longrightarrow> {b..<e} \<inter> rset rs = {} \<Longrightarrow> length (fill b e rs) = Suc (length rs)"
proof (induction rs)
  case (Cons r rs)
  consider "e \<le> fst r" | "\<not> e \<le> fst r" "fst r + snd r \<le> b" | "\<not> e \<le> fst r" "\<not> fst r + snd r \<le> b" by blast
  then show ?case
  proof cases
    case 3
    then have "max b (fst r) \<in> {b..<e} \<inter> rset (r # rs)" using Cons.prems(1,2) by (auto simp: region_ok_def)
    then show ?thesis using Cons.prems(3) by blast
  qed (use Cons in \<open>auto simp: Int_Un_distrib\<close>)
qed simp

lemma mem_add_disjoint:
  assumes "mem_inv t" "0 < s" "b + s < 2 ^ 64" "{b..<b + s} \<inter> mem_set t = {}"
  shows "if regions t \<noteq> [(0, 0)] \<and> maxr t \<le> length (regions t) then mem_add_range b s t = Inl Bug
    else \<exists>t'. mem_add_range b s t = Inr t' \<and> mem_inv t' \<and> mem_set t' = mem_set t \<union> {b..<b + s} \<and> maxr t' = maxr t"
proof (cases "regions t = [(0, 0)]")
  case True
  then obtain t' where "mem_add_range b s t = Inr t'" using assms(2) by (simp add: mem_add_range_def Let_def)
  then show ?thesis using mem_add_range_inv [OF assms(1,3)] True by auto
next
  case False
  then have g: "regions t \<noteq> []" "gapped (regions t)" "total_size t = rsum (regions t)" using assms(1) by (auto simp: mem_inv_def)
  have "length (fill b (b + s) (regions t)) = Suc (length (regions t))"
    using assms(2,4) by (intro fill_disjoint_length gapped_ordered [OF g(2)]) (auto simp: mem_set_def)
  then have eq: "mem_add_range b s t = (if maxr t \<le> length (regions t) then Inl Bug
      else let rs = merge (fill b (b + s) (regions t)) in Inr (t\<lparr>regions := rs, total_size := rsum rs\<rparr>))"
    using mem_add_range_eq [OF g assms(2,3)] by (simp add: less_Suc_eq_le)
  show ?thesis
  proof (cases "maxr t \<le> length (regions t)")
    case full: True
    then show ?thesis using eq False by simp
  next
    case room: False
    then obtain t' where t': "mem_add_range b s t = Inr t'" using eq by (simp add: Let_def)
    then show ?thesis using mem_add_range_inv [OF assms(1,3) t'] room by simp
  qed
qed

lemma frees_sorted:
  assumes "tab_ok ms" "tab_ok rs"
  shows "sorted_wrt (\<lambda>x y. snd x \<le> fst y) (frees ms rs a b)"
  using assms
proof (induction ms rs a b rule: frees.induct)
  case (1 ms rs a b)
  note eq = frees.simps [of ms rs a b]
  have low: "fst (ms ! a') \<le> fst x \<and> r_start rs b' \<le> fst x" if x: "x \<in> set (frees ms rs a' b')" for x a' b'
  proof -
    obtain i j where ij: "a' \<le> i" "b' \<le> j" "meets ms rs i j" "x = common ms rs i j"
      using x unfolding frees_set [OF "1.prems"] commons_def by blast
    then show ?thesis using m_start_mono [OF "1.prems"(1), of a' i] r_start_mono [OF "1.prems"(2), of b' j]
      by (auto simp: meets_def common_def)
  qed
  consider "a \<ge> length ms" | "a < length ms" "b \<ge> length rs + 1"
    | "a < length ms" "b < length rs + 1" "r_start rs b \<ge> m_end ms a"
    | "a < length ms" "b < length rs + 1" "r_start rs b < m_end ms a" "fst (ms ! a) < r_end rs b" "m_end ms a \<le> r_end rs b"
    | "a < length ms" "b < length rs + 1" "r_start rs b < m_end ms a" "fst (ms ! a) < r_end rs b" "\<not> m_end ms a \<le> r_end rs b"
    | "a < length ms" "b < length rs + 1" "r_start rs b < m_end ms a" "\<not> fst (ms ! a) < r_end rs b" by linarith
  then show ?case
  proof cases
    case 1
    then show ?thesis by (simp add: eq)
  next
    case 2
    then show ?thesis using "1.IH"(1) "1.prems" by (simp add: eq)
  next
    case 3
    then show ?thesis using "1.IH"(2) "1.prems" by (simp add: eq)
  next
    case 4
    have "m_end ms a \<le> fst y" if y: "y \<in> set (frees ms rs (a + 1) b)" for y
    proof (cases "a + 1 < length ms")
      case True
      then show ?thesis using low [OF y] m_mono [OF "1.prems"(1), of a "a + 1"] by simp
    next
      case False
      then show ?thesis using y by (subst (asm) frees.simps) simp
    qed
    then show ?thesis using 4 "1.IH"(3) "1.prems" by (auto simp: eq)
  next
    case 5
    have "r_end rs b \<le> fst y" if y: "y \<in> set (frees ms rs a (b + 1))" for y
    proof (cases "b + 1 \<le> length rs")
      case True
      then show ?thesis using low [OF y] r_mono [OF "1.prems"(2), of b "b + 1"] by simp
    next
      case False
      then show ?thesis using y unfolding frees_set [OF "1.prems"] by (auto simp: commons_def meets_def)
    qed
    then show ?thesis using 5 "1.IH"(4) "1.prems" by (auto simp: eq)
  next
    case 6
    then show ?thesis using "1.IH"(5) "1.prems" by (simp add: eq)
  qed
qed

section \<open>Correctness\<close>

text \<open>
  C2: an allocation of \<open>n > 0\<close> bytes, aligned to a power of two, succeeds exactly when there is a
  place for it: if some aligned area above the first page and below the limit lies in memory and is
  not reserved, an address of such an area is returned and the area reserved; otherwise the result
  is 0 and nothing changes. This holds in both search directions. When there is a place but the
  table of reservations is full, the CPU stops.
\<close>

theorem mem_alloc_exact:
  assumes "mem_wf m" "0 < n"
  shows "let P = fits m n (2 ^ k) MEM_PAGE_SIZE (max MEM_PAGE_SIZE (current_limit m)); r = reserved m in
    if \<nexists>x. P x then mem_alloc cb n (2 ^ k) m = Inr (0, m)
    else if regions r \<noteq> [(0, 0)] \<and> maxr r \<le> length (regions r) then mem_alloc cb n (2 ^ k) m = Inl Bug
    else \<exists>c m'. P c \<and> c \<noteq> 0 \<and> mem_alloc cb n (2 ^ k) m = Inr (c, m') \<and> mem_wf m' \<and> memory m' = memory m \<and>
          mem_set (reserved m') = mem_set r \<union> {c..<c + n}"
proof -
  define P where "P = fits m n (2 ^ k) MEM_PAGE_SIZE (max MEM_PAGE_SIZE (current_limit m))"
  obtain c where c: "mem_find_in_range m n (2 ^ k) 0 0 = Some c" "c \<noteq> 0 \<longrightarrow> P c" "(\<exists>x. P x) \<longrightarrow> c \<noteq> 0"
    using find_in_range [OF assms, of k] unfolding P_def by blast
  have alloc: "mem_alloc cb n (2 ^ k) m = (if c \<noteq> 0 then bindR (mem_reserve c n m) (\<lambda>m. Inr (c, m)) else Inr (0, m))"
    using c(1) by (simp add: mem_alloc_def mem_alloc_range_def)
  show ?thesis
  proof (cases "\<exists>x. P x")
    case False
    then show ?thesis using c alloc by (simp add: Let_def P_def)
  next
    case ex: True
    then have nz: "c \<noteq> 0" "P c" using c by auto
    have inv: "mem_inv (reserved m)" "c + n < 2 ^ 64" "{c..<c + n} \<inter> mem_set (reserved m) = {}"
      using assms(1) nz(2) by (auto simp: mem_wf_def P_def fits_def MEM_PAGE_SIZE_def)
    note add = mem_add_disjoint [OF inv(1) assms(2) inv(2,3)]
    show ?thesis
    proof (cases "regions (reserved m) \<noteq> [(0, 0)] \<and> maxr (reserved m) \<le> length (regions (reserved m))")
      case True
      then have "mem_alloc cb n (2 ^ k) m = Inl Bug" using add alloc nz(1) by (simp add: mem_reserve_def)
      then show ?thesis using True ex unfolding Let_def P_def [symmetric] by simp
    next
      case False
      then obtain t where t: "mem_add_range c n (reserved m) = Inr t" "mem_inv t"
        "mem_set t = mem_set (reserved m) \<union> {c..<c + n}" "maxr t = maxr (reserved m)" using add by (auto split: if_splits)
      then have "mem_alloc cb n (2 ^ k) m = Inr (c, m\<lparr>reserved := t\<rparr>)" using alloc nz(1) by (simp add: mem_reserve_def)
      moreover have "mem_wf (m\<lparr>reserved := t\<rparr>)" using assms(1) t by (simp add: mem_wf_def)
      moreover have "memory (m\<lparr>reserved := t\<rparr>) = memory m" "reserved (m\<lparr>reserved := t\<rparr>) = t" by simp_all
      ultimately have "\<exists>c m'. P c \<and> c \<noteq> 0 \<and> mem_alloc cb n (2 ^ k) m = Inr (c, m') \<and> mem_wf m' \<and> memory m' = memory m \<and>
          mem_set (reserved m') = mem_set (reserved m) \<union> {c..<c + n}" using nz t(3) by metis
      then show ?thesis using False ex unfolding Let_def P_def [symmetric] by (simp only: if_False simp_thms)
    qed
  qed
qed

definition mem_sys_demo :: mem_sys where
  "mem_sys_demo = \<lparr>memory = \<lparr>regions = [(0x80000000, 0x10000)], maxr = 8, total_size = 0x10000\<rparr>,
     reserved = \<lparr>regions = [(0x80000000, 0x4000)], maxr = 8, total_size = 0x4000\<rparr>,
     current_limit = 2 ^ 64 - 1, bottom_up = False, kernel_end = 0x80004000\<rparr>"

lemma mem_sys_demo_wf: "mem_wf mem_sys_demo"
  by (simp add: mem_wf_def mem_sys_demo_def mem_inv_def region_ok_def)

theorem mem_alloc_exact_witness:
  "\<exists>c m'. c \<noteq> 0 \<and> mem_alloc 64 0x1000 (2 ^ 12) mem_sys_demo = Inr (c, m') \<and> mem_wf m' \<and> 2 ^ 12 dvd c \<and>
    {c..<c + 0x1000} \<subseteq> mem_set (memory mem_sys_demo)"
proof -
  let ?P = "fits mem_sys_demo 0x1000 (2 ^ 12) MEM_PAGE_SIZE (max MEM_PAGE_SIZE (current_limit mem_sys_demo))"
  let ?r = "reserved mem_sys_demo"
  have "?P 0x80008000" by (auto simp: fits_def mem_sys_demo_def MEM_PAGE_SIZE_def mem_set_def)
  then have ex: "\<not> (\<nexists>x. ?P x)" by blast
  have room: "\<not> (regions ?r \<noteq> [(0, 0)] \<and> maxr ?r \<le> length (regions ?r))" by (simp add: mem_sys_demo_def)
  obtain c m' where "?P c" "c \<noteq> 0" "mem_alloc 64 0x1000 (2 ^ 12) mem_sys_demo = Inr (c, m')" "mem_wf m'"
    using mem_alloc_exact [OF mem_sys_demo_wf, of "0x1000" 12 64] unfolding Let_def if_not_P [OF ex] if_not_P [OF room] by auto
  then show ?thesis by (intro exI [of _ c] exI [of _ m']) (auto simp: fits_def)
qed

lemma mem_free_all_frees:
  assumes "mem_wf m"
  shows "mem_free_all m = Some (map (\<lambda>(s, e). (s, psub e s)) (frees (regions (memory m)) (regions (reserved m)) 0 0))"
proof -
  let ?ms = "regions (memory m)" let ?rs = "regions (reserved m)"
  have "mem_pack 0 0 = 0" by (simp add: mem_pack_def)
  then have at: "fwd_at ?ms ?rs 0 (frees ?ms ?rs 0 0)"
    using mem_wf_tables(3) [OF assms] unfolding fwd_at_def by force
  show ?thesis using fw.collect_start [OF at, of "(0, 0)"] by (simp add: mem_free_all_def Let_def)
qed

lemma mem_free_all_ok:
  assumes "mem_wf m"
  shows "\<exists>L. mem_free_all m = Some L \<and> ordered L \<and> rset L = mem_set (memory m) - mem_set (reserved m)"
proof -
  let ?ms = "regions (memory m)" let ?rs = "regions (reserved m)" let ?F = "frees ?ms ?rs 0 0"
  let ?L = "map (\<lambda>(s, e). (s, psub e s)) ?F"
  note tab = mem_wf_tables [OF assms]
  have F: "s < e \<and> e < 2 ^ 64 \<and> {s..<e} \<subseteq> free_set ?ms ?rs" if "(s, e) \<in> set ?F" for s e
    using common_free [OF tab(1,2)] that unfolding frees_all [OF tab(1,2)] by blast
  have len: "psub (snd x) (fst x) = snd x - fst x" if "x \<in> set ?F" for x using F [of "fst x" "snd x"] that by simp
  have "region_ok r" if "r \<in> set ?L" for r using that F len by (auto simp: region_ok_def) force
  moreover have "sorted_wrt (\<lambda>x y. fst x + psub (snd x) (fst x) \<le> fst y) ?F"
    using frees_sorted [OF tab(1,2), of 0 0]
  proof (rule sorted_wrt_mono_rel [rotated])
    fix x y assume "x \<in> set ?F" "snd x \<le> fst y"
    then show "fst x + psub (snd x) (fst x) \<le> fst y" using F [of "fst x" "snd x"] len by simp
  qed
  ultimately have "ordered ?L" by (simp add: ordered_def sorted_wrt_map split_beta)
  moreover have "rset ?L = free_set ?ms ?rs"
  proof (rule set_eqI)
    fix x
    have "x \<in> rset ?L \<longleftrightarrow> (\<exists>q\<in>set ?F. fst q \<le> x \<and> x < fst q + psub (snd q) (fst q))" by (auto simp: rset_def split_beta)
    also have "\<dots> \<longleftrightarrow> (\<exists>q\<in>set ?F. fst q \<le> x \<and> x < snd q)" using len by (auto simp: less_diff_conv)
    also have "\<dots> \<longleftrightarrow> x \<in> free_set ?ms ?rs"
    proof
      assume "\<exists>q\<in>set ?F. fst q \<le> x \<and> x < snd q"
      then obtain q where q: "q \<in> set ?F" "x \<in> {fst q..<snd q}" by auto
      then show "x \<in> free_set ?ms ?rs" using F [of "fst q" "snd q"] by auto
    next
      assume "x \<in> free_set ?ms ?rs"
      then have "{x..<x + 1} \<subseteq> free_set ?ms ?rs" by auto
      from free_common [OF tab(1,2) _ this] show "\<exists>q\<in>set ?F. fst q \<le> x \<and> x < snd q"
        unfolding frees_all [OF tab(1,2)] by force
    qed
    finally show "x \<in> rset ?L \<longleftrightarrow> x \<in> free_set ?ms ?rs" .
  qed
  ultimately show ?thesis using mem_free_all_frees [OF assms] by (simp add: free_set_def mem_set_def)
qed

text \<open>
  C27: \<open>mem_free_all\<close> hands the page allocator exactly the memory that is not reserved: the ranges it
  passes are not empty, ascending and disjoint, and their addresses are those of the memory regions
  without the reserved ones. The iteration always ends.
\<close>

theorem mem_free_all_exact:
  assumes "mem_wf m"
  shows "\<exists>L. mem_free_all m = Some L \<and> ordered L \<and> rset L = mem_set (memory m) - mem_set (reserved m)"
  by (rule mem_free_all_ok [OF assms])

theorem mem_free_all_exact_witness:
  "\<exists>L. mem_free_all mem_sys_demo = Some L \<and> ordered L \<and> rset L = {0x80004000..<0x80010000}"
proof -
  have "mem_set (memory mem_sys_demo) - mem_set (reserved mem_sys_demo) = {0x80004000..<0x80010000}"
    by (auto simp: mem_set_def mem_sys_demo_def)
  then show ?thesis using mem_free_all_exact [OF mem_sys_demo_wf] by simp
qed

end
