(* ===== verification/CString.thy ===== *)
theory CString
  imports Prelude Muldiv
begin

text \<open>
  The byte and string routines of \<open>lib/string.c\<close> over a byte-addressed store: block
  copies, where overlapping areas alias, searches and comparisons of terminated strings,
  and the number parsers \<open>strtoul\<close> and \<open>strtoull\<close>. Addresses are natural numbers: no
  object wraps around the top of the address space. A loop that ends at a byte it reads is
  a partial function, and not returning is the value \<open>None\<close>.
\<close>

type_synonym store = "nat \<Rightarrow> u8"

section \<open>Memory blocks\<close>

primrec memset :: "nat \<Rightarrow> nat \<Rightarrow> u8 \<Rightarrow> store \<Rightarrow> store" where
  "memset 0 xs c m = m"
| "memset (Suc count) xs c m = memset count (xs + 1) c (m(xs := c))"

definition memory_set :: "nat \<Rightarrow> u8 \<Rightarrow> nat \<Rightarrow> store \<Rightarrow> store" where
  "memory_set s c count m = memset count s c m"

primrec memcpy :: "nat \<Rightarrow> nat \<Rightarrow> nat \<Rightarrow> store \<Rightarrow> store" where
  "memcpy 0 tmp s m = m"
| "memcpy (Suc count) tmp s m = memcpy count (tmp + 1) (s + 1) (m(tmp := m s))"

definition memory_copy :: "nat \<Rightarrow> nat \<Rightarrow> nat \<Rightarrow> store \<Rightarrow> store" where
  "memory_copy dest src count m = memcpy count dest src m"

text \<open>The two loops of \<open>memmove\<close>; in the second both pointers move before the access.\<close>

primrec memmove_up :: "nat \<Rightarrow> nat \<Rightarrow> nat \<Rightarrow> store \<Rightarrow> store" where
  "memmove_up 0 tmp s m = m"
| "memmove_up (Suc count) tmp s m = memmove_up count (tmp + 1) (s + 1) (m(tmp := m s))"

primrec memmove_down :: "nat \<Rightarrow> nat \<Rightarrow> nat \<Rightarrow> store \<Rightarrow> store" where
  "memmove_down 0 tmp s m = m"
| "memmove_down (Suc count) tmp s m =
    memmove_down count (tmp - 1) (s - 1) (m(tmp - 1 := m (s - 1)))"

definition memmove :: "nat \<Rightarrow> nat \<Rightarrow> nat \<Rightarrow> store \<Rightarrow> store" where
  "memmove dest src count m =
    (if dest \<le> src then memmove_up count dest src m
     else memmove_down count (dest + count) (src + count) m)"

primrec memcmp :: "nat \<Rightarrow> nat \<Rightarrow> nat \<Rightarrow> store \<Rightarrow> int" where
  "memcmp 0 su1 su2 m = 0"
| "memcmp (Suc count) su1 su2 m =
    (let res = uint (m su1) - uint (m su2)
     in if res \<noteq> 0 then res else memcmp count (su1 + 1) (su2 + 1) m)"

definition memory_cmp :: "nat \<Rightarrow> nat \<Rightarrow> nat \<Rightarrow> store \<Rightarrow> int" where
  "memory_cmp cs ct count m = memcmp count cs ct m"

primrec memchr :: "nat \<Rightarrow> nat \<Rightarrow> u8 \<Rightarrow> store \<Rightarrow> nat option" where
  "memchr 0 p c m = None"
| "memchr (Suc n) p c m = (if c = m p then Some p else memchr n (p + 1) c m)"

section \<open>Strings\<close>

partial_function (option) strlen_loop :: "store \<Rightarrow> nat \<Rightarrow> nat option" where
  "strlen_loop m sc = (if m sc \<noteq> 0 then strlen_loop m (sc + 1) else Some sc)"

definition strlen :: "store \<Rightarrow> nat \<Rightarrow> nat option" where
  "strlen m s = map_option (\<lambda>sc. sc - s) (strlen_loop m s)"

primrec strnlen_loop :: "nat \<Rightarrow> store \<Rightarrow> nat \<Rightarrow> nat" where
  "strnlen_loop 0 m sc = sc"
| "strnlen_loop (Suc count) m sc = (if m sc \<noteq> 0 then strnlen_loop count m (sc + 1) else sc)"

definition strnlen :: "store \<Rightarrow> nat \<Rightarrow> nat \<Rightarrow> nat" where
  "strnlen m s count = strnlen_loop count m s - s"

partial_function (option) strcpy :: "store \<Rightarrow> nat \<Rightarrow> nat \<Rightarrow> store option" where
  "strcpy m dest src =
    (if m src \<noteq> 0 then strcpy (m(dest := m src)) (dest + 1) (src + 1)
     else Some (m(dest := m src)))"

partial_function (option) strcmp :: "store \<Rightarrow> nat \<Rightarrow> nat \<Rightarrow> int option" where
  "strcmp m cs ct =
    (if m cs \<noteq> m ct then Some (if m cs < m ct then - 1 else 1)
     else if m cs = 0 then Some 0
     else strcmp m (cs + 1) (ct + 1))"

partial_function (option) strchr :: "store \<Rightarrow> nat \<Rightarrow> u8 \<Rightarrow> nat option option" where
  "strchr m s c =
    (if m s \<noteq> c then (if m s = 0 then Some None else strchr m (s + 1) c) else Some (Some s))"

partial_function (option) strrchr_loop ::
    "store \<Rightarrow> nat \<Rightarrow> u8 \<Rightarrow> nat option \<Rightarrow> nat option option" where
  "strrchr_loop m s c lst =
    (let lst' = (if m s = c then Some s else lst)
     in if m s \<noteq> 0 then strrchr_loop m (s + 1) c lst' else Some lst')"

definition strrchr :: "store \<Rightarrow> nat \<Rightarrow> u8 \<Rightarrow> nat option option" where
  "strrchr m s c = strrchr_loop m s c None"

primrec strncmp :: "nat \<Rightarrow> store \<Rightarrow> nat \<Rightarrow> nat \<Rightarrow> int" where
  "strncmp 0 m cs ct = 0"
| "strncmp (Suc count) m cs ct =
    (if m cs \<noteq> m ct then (if m cs < m ct then - 1 else 1)
     else if m cs = 0 then 0
     else strncmp count m (cs + 1) (ct + 1))"

primrec strncpy :: "nat \<Rightarrow> store \<Rightarrow> nat \<Rightarrow> nat \<Rightarrow> store" where
  "strncpy 0 m tmp src = m"
| "strncpy (Suc count) m tmp src =
    (let m' = m(tmp := m src)
     in strncpy count m' (tmp + 1) (if m src \<noteq> 0 then src + 1 else src))"

section \<open>Number parsers\<close>

definition isspace :: "u8 \<Rightarrow> bool" where
  "isspace c \<longleftrightarrow> c = 0x20 \<or> (0x09 \<le> c \<and> c \<le> 0x0D)"

definition isxdigit :: "u8 \<Rightarrow> bool" where
  "isxdigit c \<longleftrightarrow> (0x30 \<le> c \<and> c \<le> 0x39) \<or> (0x41 \<le> c \<and> c \<le> 0x46) \<or> (0x61 \<le> c \<and> c \<le> 0x66)"

text \<open>The conversion of a character in the digit loop; \<open>None\<close> is its first \<open>break\<close>.\<close>

definition digit_val :: "u8 \<Rightarrow> nat option" where
  "digit_val c =
    (if 0x30 \<le> c \<and> c \<le> 0x39 then Some (unat c - 0x30)
     else if 0x41 \<le> c \<and> c \<le> 0x5A then Some (unat c - (0x41 - 10))
     else if 0x61 \<le> c \<and> c \<le> 0x7A then Some (unat c - (0x61 - 10))
     else None)"

text \<open>\<open>do { c = *s++; } while (isspace(c))\<close>: the last character read and the pointer past it.\<close>

partial_function (option) skip_space :: "store \<Rightarrow> nat \<Rightarrow> (u8 \<times> nat) option" where
  "skip_space m s = (if isspace (m s) then skip_space m (s + 1) else Some (m s, s + 1))"

definition parse_sign :: "store \<Rightarrow> u8 \<times> nat \<Rightarrow> bool \<times> u8 \<times> nat" where
  "parse_sign m = (\<lambda>(c, s).
    if c = 0x2D then (True, m s, s + 1)
    else if c = 0x2B then (False, m s, s + 1)
    else (False, c, s))"

definition parse_prefix :: "store \<Rightarrow> int \<Rightarrow> u8 \<times> nat \<Rightarrow> int \<times> u8 \<times> nat" where
  "parse_prefix m base = (\<lambda>(c, s).
    let (base, c, s) =
      (if (base = 0 \<or> base = 16) \<and> c = 0x30 \<and> (m s = 0x78 \<or> m s = 0x58) \<and> isxdigit (m (s + 1))
       then (16, m (s + 1), s + 2) else (base, c, s))
    in if base = 0 then (if c = 0x30 then 8 else 10, c, s) else (base, c, s))"

partial_function (option) digit_loop ::
    "store \<Rightarrow> int \<Rightarrow> u64 \<Rightarrow> int \<Rightarrow> u8 \<Rightarrow> nat \<Rightarrow> int \<Rightarrow> u64 \<Rightarrow> (int \<times> u64 \<times> nat) option" where
  "digit_loop m base cutoff cutlim c s any acc =
    (case digit_val c of
       None \<Rightarrow> Some (any, acc, s)
     | Some d \<Rightarrow>
         if base \<le> int d then Some (any, acc, s)
         else if any < 0 \<or> cutoff < acc \<or> (acc = cutoff \<and> cutlim < int d)
         then digit_loop m base cutoff cutlim (m s) (s + 1) (- 1) acc
         else digit_loop m base cutoff cutlim (m s) (s + 1) 1 (acc * word_of_int base + of_nat d))"

text \<open>
  The body shared by \<open>strtoul\<close> and \<open>strtoull\<close>, which compute \<open>cutoff\<close> and \<open>cutlim\<close> in
  different ways. The result is the value, the end pointer and the error number.
\<close>

definition strtox ::
    "(int \<Rightarrow> (u64 \<times> int) option) \<Rightarrow> store \<Rightarrow> nat \<Rightarrow> int \<Rightarrow> int \<Rightarrow> (u64 \<times> nat \<times> int) option" where
  "strtox limits m nptr base errno =
    Option.bind (skip_space m nptr) (\<lambda>cs.
      let (neg, cs) = parse_sign m cs;
          (base, c, s) = parse_prefix m base cs
      in if base < 2 \<or> 36 < base then Some (0, nptr, EINVAL)
         else Option.bind (limits base) (\<lambda>(cutoff, cutlim).
           map_option (\<lambda>(any, acc, s).
              if any < 0 then (- 1, s - 1, ERANGE)
              else if any = 0 then (acc, nptr, EINVAL)
              else (if neg then - acc else acc, s - 1, errno))
            (digit_loop m base cutoff cutlim c s 0 0)))"

definition strtoul :: "store \<Rightarrow> nat \<Rightarrow> int \<Rightarrow> int \<Rightarrow> (u64 \<times> nat \<times> int) option" where
  "strtoul = strtox (\<lambda>base. Some (- 1 div word_of_int base, uint (- 1 mod word_of_int base :: u64)))"

definition strtoull :: "store \<Rightarrow> nat \<Rightarrow> int \<Rightarrow> int \<Rightarrow> (u64 \<times> nat \<times> int) option" where
  "strtoull = strtox (\<lambda>base.
    map_option (\<lambda>r. (div64u (- 1) (word_of_int base), uint r)) (mod64u (- 1) (word_of_int base)))"

section \<open>Areas and terminated strings\<close>

primrec bytes_at :: "store \<Rightarrow> nat \<Rightarrow> u8 list \<Rightarrow> bool" where
  "bytes_at m p [] \<longleftrightarrow> True"
| "bytes_at m p (x # xs) \<longleftrightarrow> m p = x \<and> bytes_at m (p + 1) xs"

primrec cstr :: "store \<Rightarrow> nat \<Rightarrow> u8 list \<Rightarrow> bool" where
  "cstr m p [] \<longleftrightarrow> m p = 0"
| "cstr m p (x # xs) \<longleftrightarrow> m p = x \<and> x \<noteq> 0 \<and> cstr m (p + 1) xs"

primrec area :: "nat \<Rightarrow> store \<Rightarrow> nat \<Rightarrow> u8 list" where
  "area 0 m p = []"
| "area (Suc n) m p = m p # area n m (p + 1)"

text \<open>\<open>blit m d xs\<close> is the store with the bytes \<open>xs\<close> written from \<open>d\<close> on.\<close>

definition blit :: "store \<Rightarrow> nat \<Rightarrow> u8 list \<Rightarrow> store" where
  "blit m d xs = (\<lambda>a. if d \<le> a \<and> a < d + length xs then xs ! (a - d) else m a)"

lemma length_area [simp]: "length (area n m p) = n"
  by (induction n arbitrary: p) auto

lemma nth_area [simp]: "i < n \<Longrightarrow> area n m p ! i = m (p + i)"
  by (induction n arbitrary: p i) (auto simp: nth_Cons' less_Suc_eq_0_disj)

lemma area_cong: "(\<And>i. i < n \<Longrightarrow> m (p + i) = m' (p' + i)) \<Longrightarrow> area n m p = area n m' p'"
  by (simp add: list_eq_iff_nth_eq)

lemma blit_Nil [simp]: "blit m d [] = m"
  by (rule ext) (auto simp: blit_def)

lemma blit_Cons: "blit m d (x # xs) = blit (m(d := x)) (d + 1) xs"
  by (auto simp: blit_def fun_eq_iff nth_Cons')

lemma blit_snoc: "blit m d (xs @ [x]) = blit (m(d + length xs := x)) d xs"
  by (auto simp: blit_def fun_eq_iff nth_append)

lemma cstr_iff: "cstr m p xs \<longleftrightarrow> area (length xs) m p = xs \<and> 0 \<notin> set xs \<and> m (p + length xs) = 0"
  by (induction xs arbitrary: p) auto

lemma cstr_upd: "a < p \<or> p + length xs < a \<Longrightarrow> cstr (m(a := x)) p xs = cstr m p xs"
  by (induction xs arbitrary: p) auto

lemma cstr_ex: "\<exists>n. m (p + n) = 0 \<Longrightarrow> \<exists>xs. cstr m p xs"
proof -
  assume "\<exists>n. m (p + n) = 0"
  then obtain n where "m (p + n) = 0" ..
  then show ?thesis
  proof (induction n arbitrary: p)
    case 0
    then have "cstr m p []" by simp
    then show ?case ..
  next
    case (Suc n)
    then obtain xs where "cstr m (p + 1) xs" by fastforce
    then have "cstr m p (if m p = 0 then [] else m p # xs)" by simp
    then show ?case ..
  qed
qed

lemma cstr_blit: "0 \<notin> set xs \<Longrightarrow> cstr (blit m d (xs @ 0 # ys)) d xs"
  by (auto simp: cstr_iff list_eq_iff_nth_eq blit_def nth_append)

section \<open>Block operations\<close>

lemma memset_blit: "memset n s c m = blit m s (replicate n c)"
  by (induction n arbitrary: s m) (simp_all add: blit_Cons)

text \<open>An ascending copy is right when the destination does not lie inside the source.\<close>

lemma memcpy_blit:
  "d \<le> s \<or> s + n \<le> d \<Longrightarrow> memcpy n d s m = blit m d (area n m s)"
proof (induction n arbitrary: d s m)
  case (Suc n)
  have "area n (m(d := m s)) (s + 1) = area n m (s + 1)"
    using Suc.prems by (intro area_cong) auto
  moreover have "d + 1 \<le> s + 1 \<or> s + 1 + n \<le> d + 1" using Suc.prems by auto
  ultimately show ?case
    by (simp only: memcpy.simps area.simps blit_Cons Suc.IH)
qed simp

lemma memmove_up_memcpy: "memmove_up n d s m = memcpy n d s m"
  by (induction n arbitrary: d s m) simp_all

lemma area_snoc: "area (Suc n) m p = area n m p @ [m (p + n)]"
  by (induction n arbitrary: p) auto

lemma memmove_down_blit:
  "s < d \<Longrightarrow> memmove_down n (d + n) (s + n) m = blit m d (area n m s)"
proof (induction n arbitrary: m)
  case (Suc n)
  have "area n (m(d + n := m (s + n))) s = area n m s"
    using Suc.prems by (intro area_cong) auto
  with Suc show ?case by (simp add: area_snoc blit_snoc del: area.simps)
qed simp

lemma memmove_blit: "memmove d s n m = blit m d (area n m s)"
  by (simp add: memmove_def memmove_up_memcpy memcpy_blit memmove_down_blit)

text \<open>
  C36: the block operations. \<open>memmove\<close> leaves in the destination the bytes the source held
  before the call, and nothing else changes, whatever the overlap of the two areas; \<open>memcpy\<close>
  does the same when the destination does not start inside the source; \<open>memset\<close> writes its
  byte into every cell of its area and nowhere else.
\<close>

theorem mem_copy_exact:
  "(\<forall>a. memmove d s n m a = (if d \<le> a \<and> a < d + n then m (s + (a - d)) else m a)) \<and>
   (d \<le> s \<or> s + n \<le> d \<longrightarrow> memory_copy d s n m = memmove d s n m) \<and>
   (\<forall>a. memory_set d c n m a = (if d \<le> a \<and> a < d + n then c else m a))"
proof (intro conjI allI impI)
  show "memmove d s n m a = (if d \<le> a \<and> a < d + n then m (s + (a - d)) else m a)" for a
    by (auto simp: memmove_blit blit_def)
  show "memory_copy d s n m = memmove d s n m" if "d \<le> s \<or> s + n \<le> d"
    using that by (simp add: memory_copy_def memcpy_blit memmove_blit)
  show "memory_set d c n m a = (if d \<le> a \<and> a < d + n then c else m a)" for a
    by (auto simp: memory_set_def memset_blit blit_def)
qed

theorem mem_copy_exact_witness:
  "memory_copy 3 4 5 (\<lambda>a. of_nat a) = memmove 3 4 5 (\<lambda>a. of_nat a) \<and>
   memmove 4 3 5 (\<lambda>a. of_nat a) 8 = 7"
  using mem_copy_exact [of 3 4 5 "\<lambda>a. of_nat a" 0] mem_copy_exact [of 4 3 5 "\<lambda>a. of_nat a" 0]
  by simp

section \<open>Copies of strings\<close>

lemma strcpy_blit:
  "cstr m s xs \<Longrightarrow> d \<le> s \<or> s + length xs < d \<Longrightarrow> strcpy m d s = Some (blit m d (xs @ [0]))"
proof (induction xs arbitrary: m d s)
  case Nil
  then show ?case by (subst strcpy.simps) (simp add: blit_Cons)
next
  case (Cons x xs)
  have "cstr (m(d := x)) (s + 1) xs"
    using Cons.prems by (subst cstr_upd) auto
  then have "strcpy (m(d := x)) (d + 1) (s + 1) = Some (blit (m(d := x)) (d + 1) (xs @ [0]))"
    using Cons.IH [of "m(d := x)" "s + 1" "d + 1"] Cons.prems by (auto simp del: fun_upd_apply)
  with Cons.prems show ?case by (subst strcpy.simps) (simp add: blit_Cons)
qed

lemma strncpy_blit:
  "cstr m s xs \<Longrightarrow> d + n \<le> s \<or> s + length xs < d \<Longrightarrow>
   strncpy n m d s = blit m d (take n xs @ replicate (n - length xs) 0)"
proof (induction n arbitrary: m d s xs)
  case (Suc n)
  show ?case
  proof (cases xs)
    case Nil
    then have "cstr (m(d := 0)) s []" using Suc.prems by auto
    then have "strncpy n (m(d := 0)) (d + 1) s = blit (m(d := 0)) (d + 1) (replicate n 0)"
      using Suc.IH [of "m(d := 0)" s "[]" "d + 1"] Suc.prems Nil by (auto simp del: fun_upd_apply)
    with Nil Suc.prems show ?thesis by (simp add: blit_Cons)
  next
    case (Cons x ys)
    have "cstr (m(d := x)) (s + 1) ys"
      using Suc.prems Cons by (subst cstr_upd) auto
    then have "strncpy n (m(d := x)) (d + 1) (s + 1) =
        blit (m(d := x)) (d + 1) (take n ys @ replicate (n - length ys) 0)"
      using Suc.IH [of "m(d := x)" "s + 1" ys "d + 1"] Suc.prems Cons
      by (auto simp del: fun_upd_apply)
    with Cons Suc.prems show ?thesis by (simp add: blit_Cons)
  qed
qed simp

text \<open>
  The string copies. For a terminated string that the destination does not overlap from
  above, \<open>strcpy\<close> returns and leaves the string and its terminator in the destination, with
  no other byte changed. \<open>strncpy\<close> writes exactly \<open>n\<close> bytes: the first \<open>n\<close> characters,
  padded with zeros; so the copy is terminated only when the string is shorter than \<open>n\<close>.
\<close>

theorem str_copy_exact:
  assumes str: "cstr m s xs"
  shows "(d \<le> s \<or> s + length xs < d \<longrightarrow>
      strcpy m d s = Some (blit m d (xs @ [0])) \<and> cstr (blit m d (xs @ [0])) d xs) \<and>
    (d + n \<le> s \<or> s + length xs < d \<longrightarrow>
      strncpy n m d s = blit m d (take n xs @ replicate (n - length xs) 0) \<and>
      (length xs < n \<longrightarrow> cstr (strncpy n m d s) d xs))"
proof -
  have nz: "0 \<notin> set xs" using str by (simp add: cstr_iff)
  have "cstr (blit m d (xs @ 0 # ys)) d xs" for ys
    using cstr_blit [OF nz] by simp
  then have "cstr (blit m d (xs @ replicate (n - length xs) 0)) d xs" if "length xs < n"
    using that by (cases "n - length xs") auto
  moreover have "cstr (blit m d (xs @ [0])) d xs" by (rule cstr_blit [OF nz])
  ultimately show ?thesis
    using strcpy_blit [OF str] strncpy_blit [OF str] by simp
qed

theorem str_copy_exact_witness:
  "strcpy (blit (\<lambda>_. 1) 10 [65, 66, 0]) 9 10 = Some (blit (blit (\<lambda>_. 1) 10 [65, 66, 0]) 9 [65, 66, 0]) \<and>
   cstr (strncpy 4 (blit (\<lambda>_. 1) 10 [65, 66, 0]) 20 10) 20 [65, 66]"
proof -
  have "cstr (blit (\<lambda>_. 1) 10 [65, 66, 0]) 10 [65, 66]"
    using cstr_blit [of "[65, 66]" "\<lambda>_. 1" 10 "[]"] by simp
  from str_copy_exact [OF this, of 9 0] str_copy_exact [OF this, of 20 4] show ?thesis
    by auto
qed

section \<open>Searches\<close>

lemma strlen_loop_cstr: "cstr m s xs \<Longrightarrow> strlen_loop m s = Some (s + length xs)"
  by (induction xs arbitrary: s) (subst strlen_loop.simps, simp)+

lemma strnlen_loop_cstr: "cstr m s xs \<Longrightarrow> strnlen_loop n m s = s + min n (length xs)"
proof (induction xs arbitrary: s n)
  case Nil
  then show ?case by (cases n) auto
next
  case (Cons x xs)
  then show ?case by (cases n) auto
qed

text \<open>The first and the last position of a byte in a list.\<close>

primrec first_index :: "'a list \<Rightarrow> 'a \<Rightarrow> nat option" where
  "first_index [] c = None"
| "first_index (x # xs) c = (if x = c then Some 0 else map_option Suc (first_index xs c))"

primrec last_index :: "'a list \<Rightarrow> 'a \<Rightarrow> nat option" where
  "last_index [] c = None"
| "last_index (x # xs) c =
    (case last_index xs c of Some i \<Rightarrow> Some (Suc i) | None \<Rightarrow> if x = c then Some 0 else None)"

lemma first_index_None_iff: "first_index xs c = None \<longleftrightarrow> c \<notin> set xs"
  by (induction xs) auto

lemma last_index_None_iff: "last_index xs c = None \<longleftrightarrow> c \<notin> set xs"
  by (induction xs) (auto split: option.splits)

lemma first_index_SomeD:
  "first_index xs c = Some i \<Longrightarrow> i < length xs \<and> xs ! i = c \<and> c \<notin> set (take i xs)"
  by (induction xs arbitrary: i) (auto split: if_splits)

lemma last_index_SomeD:
  "last_index xs c = Some i \<Longrightarrow> i < length xs \<and> xs ! i = c \<and> c \<notin> set (drop (Suc i) xs)"
proof (induction xs arbitrary: i)
  case (Cons x xs)
  then show ?case
    by (cases "last_index xs c") (auto split: if_splits simp: last_index_None_iff)
qed simp

lemma memchr_area: "memchr n p c m = map_option ((+) p) (first_index (area n m p) c)"
  by (induction n arbitrary: p) (auto simp: option.map_comp intro!: option.map_cong0)

lemma strchr_cstr:
  "cstr m s xs \<Longrightarrow> strchr m s c = Some (map_option ((+) s) (first_index (xs @ [0]) c))"
  by (induction xs arbitrary: s) (subst strchr.simps, auto simp: option.map_comp intro!: option.map_cong0)+

lemma strrchr_loop_cstr:
  "cstr m s xs \<Longrightarrow> strrchr_loop m s c lst =
    Some (case last_index (xs @ [0]) c of Some i \<Rightarrow> Some (s + i) | None \<Rightarrow> lst)"
  by (induction xs arbitrary: s lst)
    (subst strrchr_loop.simps, auto simp: Let_def split: option.splits)+

text \<open>
  The searches. On a terminated string \<open>strlen\<close> returns its length, \<open>strnlen\<close> the
  smaller of the length and the bound, \<open>strchr\<close> and \<open>strrchr\<close> the address of the first and
  the last occurrence of a byte, where the terminator counts as part of the string, or a null
  pointer if there is none. \<open>memchr\<close> finds the first occurrence among \<open>n\<close> bytes.
\<close>

theorem str_search_exact:
  assumes str: "cstr m s xs"
  shows "strlen m s = Some (length xs)
    \<and> strnlen m s n = min n (length xs)
    \<and> strchr m s c = Some (map_option ((+) s) (first_index (xs @ [0]) c))
    \<and> strrchr m s c = Some (map_option ((+) s) (last_index (xs @ [0]) c))
    \<and> memchr n p c m = map_option ((+) p) (first_index (area n m p) c)"
  using strlen_loop_cstr [OF str] strnlen_loop_cstr [OF str] strchr_cstr [OF str]
    strrchr_loop_cstr [OF str] memchr_area
  by (simp add: strlen_def strnlen_def strrchr_def split: option.splits)

theorem str_search_exact_witness:
  "strrchr (blit (\<lambda>_. 1) 10 [65, 66, 65, 67, 0]) 10 65 = Some (Some 12) \<and>
   strchr (blit (\<lambda>_. 1) 10 [65, 66, 65, 67, 0]) 10 0 = Some (Some 14) \<and>
   strchr (blit (\<lambda>_. 1) 10 [65, 66, 65, 67, 0]) 10 68 = Some None"
proof -
  have "cstr (blit (\<lambda>_. 1) 10 [65, 66, 65, 67, 0]) 10 [65, 66, 65, 67]"
    using cstr_blit [of "[65, 66, 65, 67]" "\<lambda>_. 1" 10 "[]"] by simp
  from str_search_exact [OF this, of 0 65] str_search_exact [OF this, of 0 0]
    str_search_exact [OF this, of 0 68] show ?thesis by simp
qed

section \<open>Comparisons\<close>

definition sgn_lex :: "u8 list \<Rightarrow> u8 list \<Rightarrow> int" where
  "sgn_lex xs ys = (if xs = ys then 0 else if ord_class.lexordp xs ys then - 1 else 1)"

lemma sgn_lex_simps [simp]:
  "sgn_lex [] [] = 0"
  "sgn_lex [] (y # ys) = - 1"
  "sgn_lex (x # xs) [] = 1"
  "sgn_lex (x # xs) (y # ys) = (if x < y then - 1 else if y < x then 1 else sgn_lex xs ys)"
  by (auto simp: sgn_lex_def)

lemma sgn_lex_range: "sgn_lex xs ys \<in> {- 1, 0, 1}" "sgn_lex xs ys = 0 \<longleftrightarrow> xs = ys"
  "sgn_lex ys xs = - sgn_lex xs ys"
  using lexordp_linear [of xs ys] lexordp_antisym [of xs ys] by (auto simp: sgn_lex_def)

lemma strcmp_cstr: "cstr m p xs \<Longrightarrow> cstr m q ys \<Longrightarrow> strcmp m p q = Some (sgn_lex xs ys)"
proof (induction xs arbitrary: p q ys)
  case Nil
  then show ?case by (cases ys) (subst strcmp.simps, auto simp: word_gt_0)+
next
  case (Cons x xs)
  then show ?case by (cases ys) (subst strcmp.simps, auto)+
qed

lemma strncmp_cstr:
  "cstr m p xs \<Longrightarrow> cstr m q ys \<Longrightarrow> strncmp n m p q = sgn_lex (take n xs) (take n ys)"
proof (induction n arbitrary: p q xs ys)
  case (Suc n)
  then show ?case by (cases xs; cases ys) (auto simp: word_gt_0)
qed simp

lemma memcmp_zero_iff: "memcmp n p q m = 0 \<longleftrightarrow> area n m p = area n m q"
  by (induction n arbitrary: p q) (auto simp: Let_def word_uint_eq_iff)

lemma memcmp_sgn: "sgn (memcmp n p q m) = sgn_lex (area n m p) (area n m q)"
  by (induction n arbitrary: p q) (auto simp: Let_def word_less_def)

lemma memcmp_bound: "\<bar>memcmp n p q m\<bar> < 256"
proof (induction n arbitrary: p q)
  case (Suc n)
  have r: "0 \<le> uint x \<and> uint x < 256" for x :: u8
    using unsigned_less [of x, where 'a = int] by simp
  have "\<bar>uint (m p) - uint (m q)\<bar> < 256"
    using r [of "m p"] r [of "m q"] by linarith
  with Suc show ?case by (simp add: Let_def)
qed simp

text \<open>
  C37: the comparisons. On terminated strings \<open>strcmp\<close> returns -1, 0 or 1 as the first string
  is before, equal to or after the second in the lexicographic order of unsigned bytes, and
  \<open>strncmp\<close> the same for the first \<open>n\<close> characters. \<open>memcmp\<close> has the sign of that
  comparison of the two areas, and as the difference of two bytes it lies within 255 of zero.
\<close>

theorem str_compare_exact:
  assumes "cstr m p xs" and "cstr m q ys"
  shows "strcmp m p q = Some (sgn_lex xs ys)
    \<and> strcmp m q p = Some (- sgn_lex xs ys)
    \<and> strncmp n m p q = sgn_lex (take n xs) (take n ys)
    \<and> sgn (memory_cmp p q n m) = sgn_lex (area n m p) (area n m q)
    \<and> (memory_cmp p q n m = 0 \<longleftrightarrow> area n m p = area n m q)
    \<and> \<bar>memory_cmp p q n m\<bar> < 256"
  using assms strcmp_cstr strncmp_cstr memcmp_sgn memcmp_zero_iff memcmp_bound
    sgn_lex_range(3) [of ys xs]
  by (simp add: memory_cmp_def)

theorem str_compare_exact_witness:
  "strcmp (blit (\<lambda>_. 0) 10 [65, 200, 0, 65, 67]) 10 13 = Some 1 \<and>
   strncmp 1 (blit (\<lambda>_. 0) 10 [65, 200, 0, 65, 67]) 10 13 = 0"
proof -
  have "cstr (blit (\<lambda>_. 0) 10 [65, 200, 0, 65, 67]) 10 [65, 200]"
    "cstr (blit (\<lambda>_. 0) 10 [65, 200, 0, 65, 67]) 13 [65, 67]"
    by (simp_all add: blit_def)
  from str_compare_exact [OF this, of 1] show ?thesis by (simp add: sgn_lex_def)
qed

section \<open>Parsing of numbers\<close>

lemma bytes_at_append [simp]:
  "bytes_at m p (xs @ ys) \<longleftrightarrow> bytes_at m p xs \<and> bytes_at m (p + length xs) ys"
  by (induction xs arbitrary: p) auto

lemma skip_space_eq:
  "bytes_at m p ws \<Longrightarrow> \<forall>c\<in>set ws. isspace c \<Longrightarrow> \<not> isspace (m (p + length ws)) \<Longrightarrow>
   skip_space m p = Some (m (p + length ws), p + length ws + 1)"
  by (induction ws arbitrary: p) (subst skip_space.simps, simp)+

definition digit_in :: "nat \<Rightarrow> u8 \<Rightarrow> bool" where
  "digit_in b c = (case digit_val c of None \<Rightarrow> False | Some d \<Rightarrow> d < b)"

definition number :: "nat \<Rightarrow> nat \<Rightarrow> u8 list \<Rightarrow> nat" where
  "number b = foldl (\<lambda>n c. n * b + the (digit_val c))"

lemma number_simps [simp]:
  "number b n [] = n" "number b n (c # ds) = number b (n * b + the (digit_val c)) ds"
  by (simp_all add: number_def)

text \<open>What \<open>any\<close> and \<open>acc\<close> say of the number read so far.\<close>

definition acc_of :: "int \<Rightarrow> u64 \<Rightarrow> nat \<Rightarrow> bool" where
  "acc_of any acc n = (if n < 2 ^ 64 then 0 \<le> any \<and> acc = of_nat n else any < 0)"

lemma cutoff_iff:
  fixes M b n d :: nat
  assumes "0 < b" and "d < b"
  shows "M < n * b + d \<longleftrightarrow> M div b < n \<or> (n = M div b \<and> M mod b < d)"
proof -
  consider "n < M div b" | "n = M div b" | "M div b < n" by linarith
  then show ?thesis
  proof cases
    case 1
    then have "(n + 1) * b \<le> M div b * b" by (intro mult_le_mono1) simp
    also have "\<dots> \<le> M" by simp
    finally show ?thesis using 1 assms by simp
  next
    case 2
    moreover have "M < M div b * b + d \<longleftrightarrow> M mod b < d"
      using div_mult_mod_eq [of M b] by linarith
    ultimately show ?thesis by simp
  next
    case 3
    then show ?thesis using assms by (simp add: div_less_iff_less_mult trans_less_add1)
  qed
qed

lemma acc_step:
  assumes b: "2 \<le> b" "b \<le> 36" and d: "d < b" and acc: "acc_of any acc n"
    and lim: "unat cutoff = (2 ^ 64 - 1) div b" "cutlim = int ((2 ^ 64 - 1) mod b)"
  shows "(any < 0 \<or> cutoff < acc \<or> (acc = cutoff \<and> cutlim < int d)) = (2 ^ 64 \<le> n * b + d)"
proof (cases "n < 2 ^ 64")
  case True
  then have n: "unat acc = n" "0 \<le> any" using acc by (simp_all add: acc_of_def unsigned_of_nat take_bit_nat_eq_self)
  have "cutoff < acc \<longleftrightarrow> (2 ^ 64 - 1) div b < n" "acc = cutoff \<longleftrightarrow> n = (2 ^ 64 - 1) div b"
    using n lim by (simp_all only: word_less_nat_alt word_unat_eq_iff)
  moreover have "2 ^ 64 \<le> n * b + d \<longleftrightarrow> 2 ^ 64 - 1 < n * b + d" by (simp, linarith)
  ultimately show ?thesis
    using n(2) lim(2) cutoff_iff [of b d "2 ^ 64 - 1" n] b d by (simp only: of_nat_less_iff) linarith
next
  case False
  have "n * 1 \<le> n * b" using b by (intro mult_le_mono2) simp
  with False have "2 ^ 64 \<le> n * b + d" by linarith
  with False acc show ?thesis by (simp add: acc_of_def)
qed

lemma digit_loop_digits:
  assumes b: "2 \<le> b" "b \<le> 36"
    and lim: "unat cutoff = (2 ^ 64 - 1) div b" "cutlim = int ((2 ^ 64 - 1) mod b)"
    and t: "\<not> digit_in b t"
  shows "bytes_at m p (ds @ [t]) \<Longrightarrow> \<forall>c\<in>set ds. digit_in b c \<Longrightarrow> acc_of any acc n \<Longrightarrow>
    \<exists>any' acc'. digit_loop m (int b) cutoff cutlim (m p) (p + 1) any acc =
        Some (any', acc', p + length ds + 1) \<and>
      acc_of any' acc' (number b n ds) \<and> (any' = 0 \<longleftrightarrow> any = 0 \<and> ds = [])"
proof (induction ds arbitrary: p any acc n)
  case Nil
  then show ?case using t
    by (subst digit_loop.simps) (auto simp: digit_in_def split: option.splits)
next
  case (Cons c ds)
  then obtain d where d: "digit_val c = Some d" "d < b"
    by (auto simp: digit_in_def split: option.splits)
  define ovf where "ovf \<longleftrightarrow> any < 0 \<or> cutoff < acc \<or> (acc = cutoff \<and> cutlim < int d)"
  define any' :: int where "any' = (if ovf then - 1 else 1)"
  define acc' where "acc' = (if ovf then acc else acc * word_of_int (int b) + of_nat d)"
  have ovf: "ovf = (2 ^ 64 \<le> n * b + d)"
    unfolding ovf_def by (rule acc_step [OF b d(2) Cons.prems(3) lim])
  moreover have "acc = of_nat n" if "\<not> ovf"
  proof -
    have "n * 1 \<le> n * b" using b by (intro mult_le_mono2) simp
    then have "n < 2 ^ 64" using that ovf by linarith
    then show ?thesis using Cons.prems(3) by (simp add: acc_of_def)
  qed
  moreover have "any' \<noteq> 0" by (simp add: any'_def)
  ultimately have "acc_of any' acc' (n * b + d)" "any' \<noteq> 0"
    by (auto simp: acc_of_def any'_def acc'_def)
  with Cons.IH [of "p + 1" any' acc' "n * b + d"] Cons.prems obtain any'' acc'' where
    ih: "digit_loop m (int b) cutoff cutlim (m (p + 1)) (p + 1 + 1) any' acc' =
        Some (any'', acc'', p + 1 + length ds + 1)"
      "acc_of any'' acc'' (number b (n * b + d) ds)" "any'' \<noteq> 0"
    by auto
  have "digit_loop m (int b) cutoff cutlim (m p) (p + 1) any acc =
      digit_loop m (int b) cutoff cutlim (m (p + 1)) (p + 1 + 1) any' acc'"
    using Cons.prems(1) d by (subst digit_loop.simps) (simp add: any'_def acc'_def flip: ovf_def)
  with ih d show ?case by simp
qed

text \<open>
  \<open>numeral_at m p base b ws sg pre ds t\<close>: at \<open>p\<close> there are white space \<open>ws\<close>, a sign \<open>sg\<close>, a
  prefix \<open>pre\<close> and digits \<open>ds\<close> of base \<open>b\<close>, which the argument \<open>base\<close> selects, and then
  a character \<open>t\<close> that does not go on with the number.
\<close>

definition numeral_at ::
    "store \<Rightarrow> nat \<Rightarrow> int \<Rightarrow> nat \<Rightarrow> u8 list \<Rightarrow> u8 list \<Rightarrow> u8 list \<Rightarrow> u8 list \<Rightarrow> u8 \<Rightarrow> bool" where
  "numeral_at m p base b ws sg pre ds t \<longleftrightarrow>
    bytes_at m p (ws @ sg @ pre @ ds @ [t]) \<and>
    (\<forall>c\<in>set ws. isspace c) \<and> sg \<in> {[], [0x2B], [0x2D]} \<and>
    (pre = [] \<and> t \<noteq> 0x78 \<and> t \<noteq> 0x58 \<or>
     pre \<in> {[0x30, 0x78], [0x30, 0x58]} \<and> base \<in> {0, 16} \<and> ds \<noteq> []) \<and>
    int b = (if base \<noteq> 0 then base else if pre \<noteq> [] then 16
             else if hd (ds @ [t]) = 0x30 then 8 else 10) \<and>
    2 \<le> b \<and> b \<le> 36 \<and> (\<forall>c\<in>set ds. digit_in b c) \<and> \<not> digit_in b t \<and>
    (ds = [] \<and> sg = [] \<longrightarrow> \<not> isspace t \<and> t \<noteq> 0x2B \<and> t \<noteq> 0x2D)"

lemma digit_in_not:
  assumes "digit_in b c" "b \<le> 36"
  shows "\<not> isspace c" "c \<noteq> 0x2B" "c \<noteq> 0x2D" "b \<le> 16 \<Longrightarrow> c \<noteq> 0x78 \<and> c \<noteq> 0x58"
    "b \<le> 16 \<Longrightarrow> isxdigit c"
proof -
  have "unat c < b + 0x30 \<and> 0x30 \<le> unat c \<and> unat c \<le> 0x39
      \<or> unat c < b + 55 \<and> 0x41 \<le> unat c \<and> unat c \<le> 0x5A
      \<or> unat c < b + 87 \<and> 0x61 \<le> unat c \<and> unat c \<le> 0x7A"
    using assms by (auto simp: digit_in_def digit_val_def word_le_nat_alt split: if_splits option.splits)
  then show "\<not> isspace c" "c \<noteq> 0x2B" "c \<noteq> 0x2D" "b \<le> 16 \<Longrightarrow> c \<noteq> 0x78 \<and> c \<noteq> 0x58"
    "b \<le> 16 \<Longrightarrow> isxdigit c"
    by (auto simp: isspace_def isxdigit_def word_le_nat_alt)
qed

lemma digit_in_zero: "2 \<le> b \<Longrightarrow> digit_in b 0x30"
  by (simp add: digit_in_def digit_val_def)

lemma parse_sign_eq:
  assumes "bytes_at m q (sg @ [c])" "sg \<in> {[], [0x2B], [0x2D]}" "sg = [] \<longrightarrow> c \<noteq> 0x2B \<and> c \<noteq> 0x2D"
  shows "parse_sign m (m q, q + 1) = (sg = [0x2D], c, q + length sg + 1)"
  using assms by (auto simp: parse_sign_def)

lemma numeral_hd:
  assumes "numeral_at m p base b ws sg pre ds t"
  shows "sg = [] \<Longrightarrow> \<not> isspace (hd (pre @ ds @ [t])) \<and> hd (pre @ ds @ [t]) \<notin> {0x2B, 0x2D}"
  using assms digit_in_not
  by (cases ds) (auto simp: numeral_at_def isspace_def)

lemma parse_prefix_eq:
  assumes num: "numeral_at m p base b ws sg pre ds t" and r: "r = p + length ws + length sg"
  shows "parse_prefix m base (m r, r + 1) = (int b, m (r + length pre), r + length pre + 1)"
proof (cases "pre = []")
  case True
  note n = num [unfolded numeral_at_def]
  have hd: "m r = hd (ds @ [t])" and t: "\<not> digit_in b t" "t \<noteq> 0x78 \<and> t \<noteq> 0x58"
    and bytes: "bytes_at m r (ds @ [t])"
    using n True by (cases ds; auto simp: r add.assoc)+
  have b: "int b = (if base \<noteq> 0 then base else if m r = 0x30 then 8 else 10)" "2 \<le> b" "b \<le> 36"
    using n True hd by simp_all
  have "\<not> (m (r + 1) = 0x78 \<or> m (r + 1) = 0x58)" if "m r = 0x30" "base = 0 \<or> base = 16"
  proof -
    from b that have "b \<le> 16" by auto
    moreover have "ds \<noteq> []" using hd t(1) digit_in_zero [OF b(2)] \<open>m r = 0x30\<close> by auto
    ultimately show ?thesis
      using bytes t(2) n digit_in_not(4) [OF _ b(3)] by (cases ds; cases "tl ds") auto
  qed
  with True b show ?thesis by (auto simp: parse_prefix_def)
next
  case False
  note n = num [unfolded numeral_at_def]
  obtain x c ds' where pre: "pre = [0x30, x]" "x = 0x78 \<or> x = 0x58" and ds: "ds = c # ds'"
    using n False by (cases ds) auto
  have b: "b = 16" "base = 0 \<or> base = 16" using n False by auto
  have "m r = 0x30 \<and> m (r + 1) = x \<and> m (r + 2) = c \<and> isxdigit c"
    using n pre(1) ds b digit_in_not(5) [of b c] by (auto simp: r add.assoc)
  with pre b show ?thesis by (auto simp: parse_prefix_def)
qed

lemma strtox_exact:
  assumes num: "numeral_at m p base b ws sg pre ds t"
    and limits: "\<And>b. 2 \<le> b \<Longrightarrow> b \<le> 36 \<Longrightarrow> \<exists>cutoff.
      limits (int b) = Some (cutoff, int ((2 ^ 64 - 1) mod b)) \<and> unat cutoff = (2 ^ 64 - 1) div b"
  shows "strtox limits m p base errno = Some (
    let v = number b 0 ds; e = p + length (ws @ sg @ pre @ ds)
    in if ds = [] then (0, p, EINVAL)
       else if v < 2 ^ 64 then (if sg = [0x2D] then - of_nat v else of_nat v, e, errno)
       else (- 1, e, ERANGE))"
proof -
  define q where "q = p + length ws"
  define r where "r = q + length sg"
  define u where "u = r + length pre"
  note n = num [unfolded numeral_at_def]
  obtain cutoff where cut: "limits (int b) = Some (cutoff, int ((2 ^ 64 - 1) mod b))"
      "unat cutoff = (2 ^ 64 - 1) div b"
    using limits n by blast
  have bb: "2 \<le> b" "b \<le> 36" using n by blast+
  have hd: "m r = hd (pre @ ds @ [t])"
    using n by (cases pre; cases ds) (auto simp: r_def q_def)
  have "\<not> isspace (m q)"
    using n hd numeral_hd [OF num] by (auto simp: r_def q_def isspace_def)
  then have sp: "skip_space m p = Some (m q, q + 1)"
    using n skip_space_eq [of m p ws] unfolding q_def by simp
  have sg: "parse_sign m (m q, q + 1) = (sg = [0x2D], m r, r + 1)"
    unfolding r_def using n hd numeral_hd [OF num]
    by (intro parse_sign_eq) (auto simp: q_def r_def)
  have pre: "parse_prefix m base (m r, r + 1) = (int b, m u, u + 1)"
    unfolding u_def by (rule parse_prefix_eq [OF num]) (simp add: r_def q_def)
  have "bytes_at m u (ds @ [t])" using n by (auto simp: u_def r_def q_def add.assoc)
  then obtain any acc where dl: "digit_loop m (int b) cutoff (int ((2 ^ 64 - 1) mod b)) (m u) (u + 1) 0 0 =
        Some (any, acc, u + length ds + 1)"
      "acc_of any acc (number b 0 ds)" "any = 0 \<longleftrightarrow> ds = []"
    using digit_loop_digits [of b cutoff _ t m u ds 0 0 0] n cut(2) by (auto simp: acc_of_def)
  have "strtox limits m p base errno = Some (if any < 0 then (- 1, u + length ds, ERANGE)
      else if any = 0 then (acc, p, EINVAL)
      else (if sg = [0x2D] then - acc else acc, u + length ds, errno))"
    using bb sp sg pre cut(1) dl(1) by (simp add: strtox_def)
  with dl(2,3) show ?thesis
    by (auto simp: acc_of_def Let_def u_def r_def q_def split: if_splits)
qed

lemma strtoul_limits:
  assumes "2 \<le> b" "b \<le> 36"
  shows "unat (- 1 div word_of_int (int b) :: u64) = (2 ^ 64 - 1) div b" (is ?D)
    and "uint (- 1 mod word_of_int (int b) :: u64) = int ((2 ^ 64 - 1) mod b)" (is ?M)
    and "(word_of_int (int b) :: u64) \<noteq> 0" (is ?N)
proof -
  have b: "unat (word_of_int (int b) :: u64) = b"
    using assms by (simp add: unsigned_of_nat take_bit_nat_eq_self)
  have m: "unat (- 1 :: u64) = 2 ^ 64 - 1" by (simp add: unsigned_minus_1_eq_mask mask_eq_exp_minus_1)
  show ?D by (simp only: unat_div_distrib b m)
  show ?M by (simp only: uint_nat unat_mod b m)
  show ?N using b assms by (metis not_numeral_le_zero unsigned_0)
qed

lemma strtoull_limits:
  assumes "2 \<le> b" "b \<le> 36"
  shows "map_option (\<lambda>r. (div64u (- 1) (word_of_int (int b)), uint r)) (mod64u (- 1) (word_of_int (int b)))
      = Some (- 1 div word_of_int (int b), uint (- 1 mod word_of_int (int b) :: u64))"
  using strtoul_limits(3) [OF assms] by (simp add: div64u_def mod64u_def divu_eq modu_correct)

lemma strtox_cong:
  "(\<And>b. 2 \<le> b \<Longrightarrow> b \<le> 36 \<Longrightarrow> l b = l' b) \<Longrightarrow> strtox l m p base errno = strtox l' m p base errno"
  by (auto simp: strtox_def Let_def not_less split: prod.splits intro!: Option.bind_cong)

lemma strtoull_strtoul: "strtoull m p base errno = strtoul m p base errno"
  unfolding strtoul_def strtoull_def
proof (rule strtox_cong)
  fix b :: int assume "2 \<le> b" "b \<le> 36"
  then show "map_option (\<lambda>r. (div64u (- 1) (word_of_int b), uint r)) (mod64u (- 1) (word_of_int b))
      = Some (- 1 div word_of_int b, uint (- 1 mod word_of_int b :: u64))"
    using strtoull_limits [of "nat b"] by simp
qed

text \<open>
  C19: the number parsers. For a numeral with optional white space, sign and \<open>0x\<close> prefix
  in a base from 2 to 36, chosen by the argument or, for base 0, by the prefix, \<open>strtoul\<close> and
  \<open>strtoull\<close> return the number modulo its sign and leave the end pointer behind the last
  digit; a number of \<open>2 ^ 64\<close> or more gives \<open>ULONG_MAX\<close> and \<open>ERANGE\<close>; without a digit the
  end pointer is the start of the text and the error is \<open>EINVAL\<close>. A numeral that fits
  leaves the error number as it was.
\<close>

theorem strtoul_exact:
  assumes "numeral_at m p base b ws sg pre ds t"
  shows "strtoul m p base errno = Some (
      let v = number b 0 ds; e = p + length (ws @ sg @ pre @ ds)
      in if ds = [] then (0, p, EINVAL)
         else if v < 2 ^ 64 then (if sg = [0x2D] then - of_nat v else of_nat v, e, errno)
         else (- 1, e, ERANGE))
    \<and> strtoull m p base errno = strtoul m p base errno"
  unfolding strtoull_strtoul
  unfolding strtoul_def by (subst strtox_exact [OF assms]) (use strtoul_limits in auto)

definition strtoul_demo :: store where
  "strtoul_demo = blit (\<lambda>_. 0) 100 [0x20, 0x09, 0x2D, 0x30, 0x78, 0x31, 0x66, 0x3B]"

theorem strtoul_exact_witness:
  "strtoul strtoul_demo 100 0 0 = Some (- 31, 107, 0) \<and>
   strtoul strtoul_demo 107 10 0 = Some (0, 107, EINVAL)"
proof -
  have 1: "numeral_at strtoul_demo 100 0 16 [0x20, 0x09] [0x2D] [0x30, 0x78] [0x31, 0x66] 0x3B"
    by (simp add: strtoul_demo_def numeral_at_def blit_def isspace_def digit_in_def digit_val_def)
  have 2: "numeral_at strtoul_demo 107 10 10 [] [] [] [] 0x3B"
    by (simp add: strtoul_demo_def numeral_at_def blit_def isspace_def digit_in_def digit_val_def)
  from strtoul_exact [OF 1, of 0] strtoul_exact [OF 2, of 0] show ?thesis
    by (simp add: Let_def digit_val_def)
qed

end
