(* ===== verification/List_Head.thy ===== *)
theory List_Head
  imports Prelude
begin

text \<open>
  The circular doubly linked lists of \<open>include/target/list.h\<close>. A node is an address, and the
  store holds the two pointers of every node; each operation is the sequence of assignments of
  its macro, in the order of the macro, so that nodes may coincide (the head of an empty list
  is its own neighbour). \<open>dll s h xs\<close> says that the nodes \<open>xs\<close> are linked in this order behind
  the head \<open>h\<close>, and every operation is shown to implement the list operation it stands for.
\<close>

record links =
  nxt :: "nat \<Rightarrow> nat"
  prv :: "nat \<Rightarrow> nat"

definition set_nxt :: "nat \<Rightarrow> nat \<Rightarrow> 'a links_scheme \<Rightarrow> 'a links_scheme" where
  "set_nxt p q s = s\<lparr>nxt := (nxt s)(p := q)\<rparr>"

definition set_prv :: "nat \<Rightarrow> nat \<Rightarrow> 'a links_scheme \<Rightarrow> 'a links_scheme" where
  "set_prv p q s = s\<lparr>prv := (prv s)(p := q)\<rparr>"

definition LIST_POISON1 :: nat where "LIST_POISON1 = 0x00100100"
definition LIST_POISON2 :: nat where "LIST_POISON2 = 0x00200200"

section \<open>Operations\<close>

definition INIT_LIST_HEAD :: "nat \<Rightarrow> 'a links_scheme \<Rightarrow> 'a links_scheme" where
  "INIT_LIST_HEAD node s = set_prv node node (set_nxt node node s)"

definition list_add :: "nat \<Rightarrow> nat \<Rightarrow> 'a links_scheme \<Rightarrow> 'a links_scheme" where
  "list_add entry head s =
    (let s = set_prv (nxt s head) entry s;
         s = set_nxt entry (nxt s head) s;
         s = set_prv entry head s
     in set_nxt head entry s)"

definition list_add_tail :: "nat \<Rightarrow> nat \<Rightarrow> 'a links_scheme \<Rightarrow> 'a links_scheme" where
  "list_add_tail entry head s =
    (let s = set_nxt (prv s head) entry s;
         s = set_prv entry (prv s head) s;
         s = set_prv head entry s
     in set_nxt entry head s)"

definition list_del :: "nat \<Rightarrow> 'a links_scheme \<Rightarrow> 'a links_scheme" where
  "list_del entry s =
    (let s = set_prv (nxt s entry) (prv s entry) s;
         s = set_nxt (prv s entry) (nxt s entry) s;
         s = set_nxt entry LIST_POISON1 s
     in set_prv entry LIST_POISON2 s)"

definition list_del_init :: "nat \<Rightarrow> 'a links_scheme \<Rightarrow> 'a links_scheme" where
  "list_del_init entry s =
    (let s = set_prv (nxt s entry) (prv s entry) s;
         s = set_nxt (prv s entry) (nxt s entry) s
     in INIT_LIST_HEAD entry s)"

text \<open>
  \<open>__list_del\<close> is a macro: its arguments \<open>list->prev\<close> and \<open>list->next\<close> are read again by its
  second assignment, which does not matter as the first one writes the neighbour only.
\<close>

definition list_move :: "nat \<Rightarrow> nat \<Rightarrow> 'a links_scheme \<Rightarrow> 'a links_scheme" where
  "list_move l head s =
    (let s = set_prv (nxt s l) (prv s l) s;
         s = set_nxt (prv s l) (nxt s l) s
     in list_add l head s)"

definition list_move_tail :: "nat \<Rightarrow> nat \<Rightarrow> 'a links_scheme \<Rightarrow> 'a links_scheme" where
  "list_move_tail l head s =
    (let s = set_prv (nxt s l) (prv s l) s;
         s = set_nxt (prv s l) (nxt s l) s
     in list_add_tail l head s)"

definition list_empty :: "nat \<Rightarrow> 'a links_scheme \<Rightarrow> bool" where
  "list_empty head s \<longleftrightarrow> nxt s head = head"

definition list_splice :: "nat \<Rightarrow> nat \<Rightarrow> 'a links_scheme \<Rightarrow> 'a links_scheme" where
  "list_splice l head s =
    (if \<not> list_empty l s then
       let first = nxt s l; lst = prv s l; at = nxt s head;
           s = set_prv first head s;
           s = set_nxt head first s;
           s = set_nxt lst at s
       in set_prv at lst s
     else s)"

definition list_splice_init :: "nat \<Rightarrow> nat \<Rightarrow> 'a links_scheme \<Rightarrow> 'a links_scheme" where
  "list_splice_init l head s =
    (if \<not> list_empty l s then
       let first = nxt s l; lst = prv s l; at = nxt s head;
           s = set_prv first head s;
           s = set_nxt head first s;
           s = set_nxt lst at s;
           s = set_prv at lst s
       in INIT_LIST_HEAD l s
     else s)"

text \<open>The cursor of \<open>list_for_each_entry\<close>: the next entry, or null behind the last one.\<close>

definition list_next_entry :: "nat \<Rightarrow> nat \<Rightarrow> 'a links_scheme \<Rightarrow> nat" where
  "list_next_entry head pos s = (if head = nxt s pos then 0 else nxt s pos)"

section \<open>Segments and lists\<close>

primrec lseg :: "'a links_scheme \<Rightarrow> nat \<Rightarrow> nat list \<Rightarrow> nat \<Rightarrow> bool" where
  "lseg s a [] b \<longleftrightarrow> nxt s a = b \<and> prv s b = a"
| "lseg s a (x # xs) b \<longleftrightarrow> nxt s a = x \<and> prv s x = a \<and> lseg s x xs b"

definition dll :: "'a links_scheme \<Rightarrow> nat \<Rightarrow> nat list \<Rightarrow> bool" where
  "dll s h xs \<longleftrightarrow> distinct (h # xs) \<and> lseg s h xs h"

lemma set_links_simps [simp]:
  "nxt (set_nxt p q s) = (nxt s)(p := q)" "prv (set_nxt p q s) = prv s"
  "nxt (set_prv p q s) = nxt s" "prv (set_prv p q s) = (prv s)(p := q)"
  "links.more (set_nxt p q s) = links.more s" "links.more (set_prv p q s) = links.more s"
  by (simp_all add: set_nxt_def set_prv_def)

lemma lseg_append [simp]: "lseg s a (xs @ y # ys) b \<longleftrightarrow> lseg s a xs y \<and> lseg s y ys b"
  by (induction xs arbitrary: a) auto

lemma lseg_cong:
  "\<forall>p\<in>set (a # xs). nxt s' p = nxt s p \<Longrightarrow> \<forall>p\<in>set (b # xs). prv s' p = prv s p \<Longrightarrow>
   lseg s' a xs b = lseg s a xs b"
  by (induction xs arbitrary: a) auto

lemma lseg_ends: "lseg s a xs b \<Longrightarrow> nxt s a = hd (xs @ [b]) \<and> prv s b = last (a # xs)"
  by (induction xs arbitrary: a) auto

lemma lseg_end:
  assumes "lseg s a xs b" "distinct (a # xs)"
    and "\<forall>p\<in>set (a # xs). p \<noteq> last (a # xs) \<longrightarrow> nxt s' p = nxt s p" "nxt s' (last (a # xs)) = b'"
    and "\<forall>p\<in>set xs. prv s' p = prv s p" "prv s' b' = last (a # xs)"
  shows "lseg s' a xs b'"
  using assms
proof (induction xs arbitrary: a)
  case (Cons x xs)
  have "a \<noteq> last (x # xs)" using Cons.prems(2) last_in_set [of "x # xs"] by (metis distinct.simps(2) list.discI)
  then show ?case using Cons.prems Cons.IH [of x] by (auto split: if_splits)
qed simp

text \<open>Linking \<open>e\<close> in front of \<open>ys\<close>, and linking its neighbours with each other.\<close>

lemma dll_insert:
  assumes d: "dll s h (xs @ ys)" and e: "e \<notin> set (h # xs @ ys)"
    and nx: "nxt s' = (nxt s)(last (h # xs) := e, e := hd (ys @ [h]))"
    and pv: "prv s' = (prv s)(hd (ys @ [h]) := e, e := last (h # xs))"
  shows "dll s' h (xs @ e # ys)"
proof -
  have l: "last (h # xs) \<in> set (h # xs)" by (rule last_in_set) simp
  have dist: "distinct (h # xs @ ys)" using d by (simp add: dll_def)
  have le: "last (h # xs) \<noteq> e" using l e by auto
  have "lseg s h xs (hd (ys @ [h]))" using d by (cases ys) (auto simp: dll_def)
  moreover have "hd (ys @ [h]) \<notin> set xs" "hd (ys @ [h]) \<noteq> e" using dist e by (cases ys; auto)+
  ultimately have 1: "lseg s' h xs e"
    using dist e le by (rule_tac lseg_end) (auto simp: nx pv)
  have 2: "lseg s' e ys h"
  proof (cases ys)
    case Nil
    then show ?thesis using e by (auto simp: nx pv)
  next
    case (Cons p ys')
    have "lseg s p ys' h" using d Cons by (simp add: dll_def)
    moreover have "last (h # xs) \<notin> set ys" using l dist by auto
    ultimately have "lseg s' p ys' h"
      using dist e Cons by (subst lseg_cong [of _ _ s' s]) (auto simp: nx pv)
    then show ?thesis using Cons e le by (auto simp: nx pv)
  qed
  show ?thesis using 1 2 dist e by (auto simp: dll_def)
qed

lemma dll_remove:
  assumes d: "dll s h (xs @ e # ys)"
    and nx: "\<forall>p. p \<noteq> e \<longrightarrow> nxt s' p = ((nxt s)(last (h # xs) := hd (ys @ [h]))) p"
    and pv: "\<forall>p. p \<noteq> e \<longrightarrow> prv s' p = ((prv s)(hd (ys @ [h]) := last (h # xs))) p"
  shows "dll s' h (xs @ ys)"
proof -
  have l: "last (h # xs) \<in> set (h # xs)" by (rule last_in_set) simp
  have dist: "distinct (h # xs @ e # ys)" and seg: "lseg s h xs e" "lseg s e ys h"
    using d by (simp_all add: dll_def)
  have on: "nxt s' p = ((nxt s)(last (h # xs) := hd (ys @ [h]))) p"
    "prv s' p = ((prv s)(hd (ys @ [h]) := last (h # xs))) p" if "p \<in> set (h # xs @ ys)" for p
    using nx pv that dist by auto
  have le: "last (h # xs) \<noteq> e" using l dist by auto
  have "hd (ys @ [h]) \<notin> set xs" "hd (ys @ [h]) \<noteq> e" using dist by (cases ys; auto)+
  moreover have "prv s' (hd (ys @ [h])) = last (h # xs)"
    by (subst on(2)) (cases ys; simp)+
  ultimately have 1: "lseg s' h xs (hd (ys @ [h]))"
    using seg(1) dist le by (rule_tac lseg_end) (auto simp: on)
  show ?thesis
  proof (cases ys)
    case Nil
    then show ?thesis using 1 dist by (simp add: dll_def)
  next
    case (Cons p ys')
    have "lseg s p ys' h" using seg(2) Cons by simp
    moreover have "last (h # xs) \<notin> set ys" using l dist by auto
    ultimately have "lseg s' p ys' h"
      using dist Cons by (subst lseg_cong [of _ _ s' s]) (auto simp: on)
    then show ?thesis using Cons 1 dist by (simp add: dll_def)
  qed
qed

lemma dll_ends:
  assumes "dll s h (xs @ ys)"
  shows "nxt s (last (h # xs)) = hd (ys @ [h])" "prv s (hd (ys @ [h])) = last (h # xs)"
proof -
  have "lseg s h xs (hd (ys @ [h]))" using assms by (cases ys) (auto simp: dll_def)
  then show "prv s (hd (ys @ [h])) = last (h # xs)" by (simp add: lseg_ends)
  show "nxt s (last (h # xs)) = hd (ys @ [h])"
    using assms by (cases xs rule: rev_cases) (auto simp: dll_def dest: lseg_ends)
qed

lemma dll_node:
  assumes "dll s h (xs @ e # ys)"
  shows "nxt s e = hd (ys @ [h])" "prv s e = last (h # xs)"
  using assms dll_ends(1) [of s h "xs @ [e]" ys] dll_ends(2) [of s h xs "e # ys"] by simp_all

lemma list_add_tail_dll:
  assumes "dll s h (xs @ ys)" "e \<notin> set (h # xs @ ys)" "p = hd (ys @ [h])"
  shows "dll (list_add_tail e p s) h (xs @ e # ys)"
proof -
  have "e \<noteq> p" "last (h # xs) \<noteq> e" using assms last_in_set [of "h # xs"] by (cases ys; auto)+
  with assms show ?thesis
    by (intro dll_insert [OF assms(1,2)])
      (simp_all add: list_add_tail_def Let_def dll_ends fun_upd_twist del: last.simps)
qed

lemma list_add_dll:
  assumes "dll s h (xs @ ys)" "e \<notin> set (h # xs @ ys)" "p = last (h # xs)"
  shows "dll (list_add e p s) h (xs @ e # ys)"
proof -
  have "hd (ys @ [h]) \<noteq> e" "p \<noteq> e" using assms last_in_set [of "h # xs"] by (cases ys; auto)+
  with assms show ?thesis
    by (intro dll_insert [OF assms(1,2)])
      (simp_all add: list_add_def Let_def dll_ends fun_upd_twist del: last.simps)
qed

lemma list_del_dll:
  assumes d: "dll s h (xs @ e # ys)"
  shows "dll (list_del e s) h (xs @ ys)" "dll (list_del_init e s) h (xs @ ys)"
    "dll (list_del_init e s) e []"
proof -
  have ne: "last (h # xs) \<noteq> e" "hd (ys @ [h]) \<noteq> e"
    using d last_in_set [of "h # xs"] by (cases ys; auto simp: dll_def)+
  note node = dll_node [OF d]
  show "dll (list_del e s) h (xs @ ys)" "dll (list_del_init e s) h (xs @ ys)"
    using ne by (auto intro!: dll_remove [OF d]
      simp: list_del_def list_del_init_def INIT_LIST_HEAD_def Let_def node simp del: last.simps)
  show "dll (list_del_init e s) e []"
    by (simp add: dll_def list_del_init_def INIT_LIST_HEAD_def Let_def)
qed

lemma dll_splice:
  assumes l: "dll s l (x # xs)" and h: "dll s h ys" and dj: "set (l # x # xs) \<inter> set (h # ys) = {}"
    and nx: "\<forall>p. p \<noteq> l \<longrightarrow> nxt s' p = ((nxt s)(h := x, last (x # xs) := hd (ys @ [h]))) p"
    and pv: "\<forall>p. p \<noteq> l \<longrightarrow> prv s' p = ((prv s)(x := h, hd (ys @ [h]) := last (x # xs))) p"
  shows "dll s' h (x # xs @ ys)"
proof -
  have la: "last (x # xs) \<in> set (x # xs)" by (rule last_in_set) simp
  have at: "hd (ys @ [h]) \<in> set (h # ys)" by (cases ys) auto
  have dl: "distinct (l # x # xs)" "lseg s x xs l" and dh: "distinct (h # ys)" "lseg s h ys h"
    using l h by (simp_all add: dll_def)
  have on: "nxt s' p = ((nxt s)(h := x, last (x # xs) := hd (ys @ [h]))) p"
    "prv s' p = ((prv s)(x := h, hd (ys @ [h]) := last (x # xs))) p"
    if "p \<in> set (h # x # xs @ ys)" for p
  proof -
    from that dj dl(1) have "p \<noteq> l" by auto
    then show "nxt s' p = ((nxt s)(h := x, last (x # xs) := hd (ys @ [h]))) p"
      "prv s' p = ((prv s)(x := h, hd (ys @ [h]) := last (x # xs))) p"
      using nx pv by blast+
  qed
  have ne: "hd (ys @ [h]) \<notin> set (x # xs)" "last (x # xs) \<notin> set (h # ys)" "h \<notin> set (x # xs)" "x \<notin> set ys"
    using la at dj by auto
  have "prv s' (hd (ys @ [h])) = last (x # xs)" by (subst on(2)) (use at in auto)
  moreover have "nxt s' (last (x # xs)) = hd (ys @ [h])" by (subst on(1)) (use la in auto)
  ultimately have 1: "lseg s' x xs (hd (ys @ [h]))"
    using dl ne by (intro lseg_end [OF dl(2)]) (auto simp: on simp del: last.simps)
  have 2: "nxt s' h = x" "prv s' x = h" using ne by (auto simp: on simp del: last.simps)
  show ?thesis
  proof (cases ys)
    case Nil
    then show ?thesis using 1 2 dl dh ne by (simp add: dll_def)
  next
    case (Cons p ys')
    have "lseg s' p ys' h"
      using dh ne Cons by (subst lseg_cong [of _ _ s' s]) (auto simp: on simp del: last.simps)
    then show ?thesis using Cons 1 2 dl dh ne dj by (auto simp: dll_def simp del: last.simps)
  qed
qed

lemma list_splice_dll:
  assumes l: "dll s l xs" and h: "dll s h ys" and dj: "set (l # xs) \<inter> set (h # ys) = {}"
  shows "dll (list_splice l h s) h (xs @ ys) \<and> dll (list_splice_init l h s) h (xs @ ys) \<and>
    dll (list_splice_init l h s) l []"
proof (cases xs)
  case Nil
  then show ?thesis
    using h l by (simp add: list_splice_def list_splice_init_def list_empty_def dll_def)
next
  case (Cons x xs')
  have n: "\<not> list_empty l s" "nxt s l = x" "prv s l = last (x # xs')" "nxt s h = hd (ys @ [h])"
    using l h Cons dll_ends [of s l "[]" xs] dll_ends(2) [of s l xs "[]"] dll_ends(1) [of s h "[]" ys]
    by (auto simp: list_empty_def dll_def)
  have ne: "h \<noteq> last (x # xs')" "x \<noteq> hd (ys @ [h])"
    using dj l Cons last_in_set [of "x # xs'"] by (cases ys; auto simp: dll_def)+
  note splice = dll_splice [OF l [unfolded Cons] h dj [unfolded Cons]]
  have "dll (list_splice l h s) h (x # xs' @ ys)"
    by (rule splice) (simp_all add: list_splice_def n Let_def del: last.simps)
  moreover have "dll (list_splice_init l h s) h (x # xs' @ ys)"
    by (rule splice) (simp_all add: list_splice_init_def INIT_LIST_HEAD_def n Let_def del: last.simps)
  moreover have "dll (list_splice_init l h s) l []"
    using n by (simp add: dll_def list_splice_init_def INIT_LIST_HEAD_def Let_def)
  ultimately show ?thesis using Cons by simp
qed

text \<open>A list is not affected by operations on nodes outside it.\<close>

lemma dll_frame:
  assumes "dll s h xs" "\<forall>p\<in>set (h # xs). nxt s' p = nxt s p \<and> prv s' p = prv s p"
  shows "dll s' h xs"
  using assms lseg_cong [of h xs s' s h] by (simp add: dll_def)

lemma list_add_frame:
  "p \<notin> {e, q, nxt s q} \<Longrightarrow> nxt (list_add e q s) p = nxt s p \<and> prv (list_add e q s) p = prv s p"
  by (simp add: list_add_def Let_def)

lemma list_add_tail_frame:
  "p \<notin> {e, q, prv s q} \<Longrightarrow> nxt (list_add_tail e q s) p = nxt s p \<and> prv (list_add_tail e q s) p = prv s p"
  by (simp add: list_add_tail_def Let_def)

lemma list_move_dll:
  assumes h: "dll s h (xs @ e # ys)" and l: "dll s l zs" and dj: "set (h # xs @ e # ys) \<inter> set (l # zs) = {}"
  shows "dll (list_move e l s) l (e # zs) \<and> dll (list_move e l s) h (xs @ ys) \<and>
    dll (list_move_tail e l s) l (zs @ [e]) \<and> dll (list_move_tail e l s) h (xs @ ys)"
proof -
  define t where "t = (let s = set_prv (nxt s e) (prv s e) s in set_nxt (prv s e) (nxt s e) s)"
  have ne: "last (h # xs) \<noteq> e" "hd (ys @ [h]) \<noteq> e"
    using h last_in_set [of "h # xs"] by (cases ys; auto simp: dll_def)+
  have hin: "last (h # xs) \<in> set (h # xs)" "hd (ys @ [h]) \<in> set (h # ys)"
    by (rule last_in_set) (simp, cases ys, auto)
  note node = dll_node [OF h]
  have t: "nxt t = (nxt s)(last (h # xs) := hd (ys @ [h]))" "prv t = (prv s)(hd (ys @ [h]) := last (h # xs))"
    using ne by (simp_all add: t_def Let_def node del: last.simps)
  have th: "dll t h (xs @ ys)" by (rule dll_remove [OF h]) (simp_all add: t del: last.simps)
  have "last (h # xs) \<notin> set (l # zs)" "hd (ys @ [h]) \<notin> set (l # zs)" using hin dj by auto
  then have tl: "dll t l zs"
    by (intro dll_frame [OF l] ballI) (simp only: t fun_upd_apply split: if_split, blast)
  have e: "e \<notin> set (l # zs)" using dj by auto
  have ends: "nxt t l = hd (zs @ [l])" "prv t l = last (l # zs)"
    using dll_ends(1) [of t l "[]" zs] dll_ends(2) [of t l zs "[]"] tl by simp_all
  have ein: "hd (zs @ [l]) \<in> set (l # zs)" "last (l # zs) \<in> set (l # zs)" by (cases zs; simp)+
  have out: "p \<notin> {e, l, hd (zs @ [l]), last (l # zs)}" if "p \<in> set (h # xs @ ys)" for p
  proof -
    have "p \<notin> set (l # zs)" "p \<noteq> e" using that dj h by (auto simp: dll_def)
    moreover have "l \<in> set (l # zs)" by simp
    ultimately show ?thesis using ein by blast
  qed
  have "dll (list_add e l t) l (e # zs)" using list_add_dll [of t l "[]" zs e l] tl e by simp
  moreover have "dll (list_add_tail e l t) l (zs @ [e])"
    using list_add_tail_dll [of t l zs "[]" e l] tl e by simp
  moreover have "dll (list_add e l t) h (xs @ ys)"
    using out list_add_frame [of _ e l t] ends by (intro dll_frame [OF th]) simp
  moreover have "dll (list_add_tail e l t) h (xs @ ys)"
    using out list_add_tail_frame [of _ e l t] ends by (intro dll_frame [OF th]) (simp del: last.simps)
  ultimately show ?thesis by (simp add: list_move_def list_move_tail_def t_def Let_def)
qed

lemma dll_hd: "dll s h xs \<Longrightarrow> nxt s h = hd (xs @ [h])"
  using dll_ends(1) [of s h "[]" xs] by simp

section \<open>Interface\<close>

text \<open>
  What the clients rely on: insertion in front of a node, removal of a node and the step to the
  next node, each as an operation on the sequence of nodes.
\<close>

locale node_list =
  fixes rep :: "'s \<Rightarrow> nat \<Rightarrow> nat list \<Rightarrow> bool"
    and ins :: "nat \<Rightarrow> nat \<Rightarrow> 's \<Rightarrow> 's"
    and del :: "nat \<Rightarrow> 's \<Rightarrow> 's"
    and suc :: "'s \<Rightarrow> nat \<Rightarrow> nat"
  assumes rep_distinct: "rep s h xs \<Longrightarrow> distinct (h # xs)"
    and rep_ins: "rep s h (xs @ ys) \<Longrightarrow> e \<notin> set (h # xs @ ys) \<Longrightarrow> rep (ins e (hd (ys @ [h])) s) h (xs @ e # ys)"
    and rep_del: "rep s h (xs @ e # ys) \<Longrightarrow> rep (del e s) h (xs @ ys)"
    and suc_head: "rep s h xs \<Longrightarrow> suc s h = hd (xs @ [h])"
    and suc_node: "rep s h (xs @ e # ys) \<Longrightarrow> suc s e = hd (ys @ [h])"
begin

lemma rep_append_end: "rep s h xs \<Longrightarrow> e \<notin> set (h # xs) \<Longrightarrow> rep (ins e h s) h (xs @ [e])"
  using rep_ins [of s h xs "[]" e] by simp

lemma rep_ins_front:
  "rep s h (xs @ p # ys) \<Longrightarrow> e \<notin> set (h # xs @ p # ys) \<Longrightarrow> rep (ins e p s) h (xs @ e # p # ys)"
  using rep_ins [of s h xs "p # ys" e] by simp

text \<open>A node is replaced by inserting the new one in front of it and removing it.\<close>

lemma rep_replace:
  "rep s h (xs @ p # ys) \<Longrightarrow> e \<notin> set (h # xs @ p # ys) \<Longrightarrow> rep (del p (ins e p s)) h (xs @ e # ys)"
  using rep_ins_front [of s h xs p ys e] rep_del [of _ h "xs @ [e]" p ys] by simp

lemma suc_in: "rep s h (xs @ e # ys) \<Longrightarrow> suc s e = h \<longleftrightarrow> ys = []"
  using suc_node [of s h xs e ys] rep_distinct [of s h "xs @ e # ys"] by (cases ys) auto

lemma suc_empty: "rep s h xs \<Longrightarrow> suc s h = h \<longleftrightarrow> xs = []"
  using suc_head [of s h xs] rep_distinct [of s h xs] by (cases xs) auto

end

interpretation lh: node_list dll list_add_tail list_del_init nxt
  by unfold_locales (simp_all add: list_add_tail_dll list_del_dll dll_hd dll_node(1), simp add: dll_def)

section \<open>Properties\<close>

text \<open>
  C12: the list macros implement the operations on sequences they stand for, for every position
  and also where nodes coincide as in a list with one node: insertion behind or in front of a
  node, removal, the test for the empty list, moving a node to the front or the end of another
  list and splicing a list into another. The list a node or a chain is taken from stays well
  formed.
\<close>

theorem list_head_refines:
  assumes h: "dll s h (xs @ ys)" and l: "dll s l zs" and dj: "set (h # xs @ ys) \<inter> set (l # zs) = {}"
  shows "(e \<notin> set (h # xs @ ys) \<longrightarrow>
      dll (list_add_tail e (hd (ys @ [h])) s) h (xs @ e # ys) \<and>
      dll (list_add e (last (h # xs)) s) h (xs @ e # ys))
    \<and> (\<forall>vs. ys = e # vs \<longrightarrow>
      dll (list_del e s) h (xs @ vs) \<and> dll (list_del_init e s) h (xs @ vs) \<and>
      dll (list_del_init e s) e [] \<and>
      dll (list_move e l s) l (e # zs) \<and> dll (list_move e l s) h (xs @ vs) \<and>
      dll (list_move_tail e l s) l (zs @ [e]) \<and> dll (list_move_tail e l s) h (xs @ vs))
    \<and> dll (list_splice l h s) h (zs @ xs @ ys)
    \<and> dll (list_splice_init l h s) h (zs @ xs @ ys) \<and> dll (list_splice_init l h s) l []
    \<and> (list_empty h s \<longleftrightarrow> xs @ ys = [])"
proof -
  have dj': "set (l # zs) \<inter> set (h # xs @ ys) = {}" using dj by blast
  have ins: "dll (list_add_tail e (hd (ys @ [h])) s) h (xs @ e # ys)"
      "dll (list_add e (last (h # xs)) s) h (xs @ e # ys)" if "e \<notin> set (h # xs @ ys)"
    by (rule list_add_tail_dll [OF h that refl], rule list_add_dll [OF h that refl])
  have rem: "dll (list_del e s) h (xs @ vs) \<and> dll (list_del_init e s) h (xs @ vs) \<and>
      dll (list_del_init e s) e [] \<and>
      dll (list_move e l s) l (e # zs) \<and> dll (list_move e l s) h (xs @ vs) \<and>
      dll (list_move_tail e l s) l (zs @ [e]) \<and> dll (list_move_tail e l s) h (xs @ vs)"
    if ys: "ys = e # vs" for vs
    using list_del_dll [OF h [unfolded ys]] list_move_dll [OF h [unfolded ys] l dj [unfolded ys]] by blast
  show ?thesis
    unfolding list_empty_def lh.suc_empty [OF h]
    using ins rem list_splice_dll [OF l h dj'] by blast
qed

theorem list_head_refines_witness:
  "let s = \<lparr>nxt = id(10 := 20, 20 := 30, 30 := 10, 40 := 50, 50 := 40),
            prv = id(10 := 30, 30 := 20, 20 := 10, 40 := 50, 50 := 40)\<rparr>
   in dll s 10 [20, 30] \<and> dll (list_move 30 40 s) 40 [30, 50] \<and> dll (list_splice 40 10 s) 10 [50, 20, 30]"
proof -
  define s where "s = \<lparr>nxt = id(10 := 20, 20 := 30, 30 := 10, 40 := 50, 50 := 40),
    prv = id(10 := 30, 30 := 20, 20 := 10, 40 := 50, 50 := 40)\<rparr>"
  have 1: "dll s 10 ([20] @ [30])" "dll s 40 [50]" by (simp_all add: s_def dll_def)
  have 2: "set (10 # [20] @ [30]) \<inter> set (40 # [50 :: nat]) = {}" by simp
  note w = list_head_refines [OF 1 2, of 30]
  have "dll (list_move 30 40 s) 40 (30 # [50])" using w by blast
  moreover have "dll (list_splice 40 10 s) 10 ([50] @ [20] @ [30])" using w by blast
  ultimately show ?thesis using 1 unfolding s_def [symmetric] Let_def by simp
qed

end
