(* ===== verification/Page.thy ===== *)
theory Page
  imports Mem_Alloc List_Head
begin

text \<open>
  The page allocator of \<open>kernel/page.c\<close>: free memory is kept in blocks of pages, and the
  header of a block, its links and its end address, lies in the first bytes of the block
  itself. The blocks are linked in ascending order behind the list head \<open>page_free_list\<close>, here
  the address \<open>h\<close>. A pointer is its address, null is 0. The list is walked with the iterators of
  \<open>include/target/list.h\<close> for builds without \<open>NDEBUG\<close>, whose cursor is null at the end. The lock
  that serialises the callers is not modelled; pages have 4 KiB.
\<close>

record page_mem = links +
  pend :: "nat \<Rightarrow> nat"

definition PAGE_SIZE :: nat where "PAGE_SIZE = 2 ^ 12"

definition set_pend :: "nat \<Rightarrow> nat \<Rightarrow> page_mem \<Rightarrow> page_mem" where
  "set_pend p e s = s\<lparr>pend := (pend s)(p := e)\<rparr>"

section \<open>Insertion\<close>

text \<open>
  The body of the loop of \<open>page_insert\<close> from its label \<open>again\<close> on. \<open>Inl\<close> is the end of the
  body, with the value of \<open>page\<close>, and \<open>Inr\<close> the jump to \<open>exit_lock\<close>.
\<close>

partial_function (option) insert_again ::
    "nat \<Rightarrow> nat \<Rightarrow> nat \<Rightarrow> page_mem \<Rightarrow> (nat \<times> page_mem + page_mem) option" where
  "insert_again cur n page s =
    (if page = pend s cur then
       let s = set_pend cur (padd (pend s cur) (psub (pend s page) page)) s; page = n
       in if pend s cur = page then insert_again cur n page (list_del_init page s)
          else Some (Inr s)
     else if page < cur then
       let s = list_add_tail page cur s
       in if cur = pend s page then insert_again page n cur (list_del_init cur s)
          else Some (Inr s)
     else Some (Inl (page, s)))"

definition next_safe :: "nat \<Rightarrow> nat \<Rightarrow> page_mem \<Rightarrow> nat" where
  "next_safe h pos s = (if pos = 0 \<or> h = nxt s pos then 0 else nxt s pos)"

partial_function (option) insert_loop ::
    "nat \<Rightarrow> nat \<Rightarrow> nat \<Rightarrow> nat \<Rightarrow> page_mem \<Rightarrow> page_mem option" where
  "insert_loop h pos n page s =
    (if pos = 0 \<or> pos = h then Some (list_add_tail page h s)
     else Option.bind (insert_again pos n page s) (\<lambda>r. case r of
         Inr s \<Rightarrow> Some s
       | Inl (page, s) \<Rightarrow> insert_loop h n (next_safe h n s) page s))"

definition page_insert :: "nat \<Rightarrow> nat \<Rightarrow> page_mem \<Rightarrow> page_mem option" where
  "page_insert h page s =
    (let s = INIT_LIST_HEAD page s; pos = list_next_entry h h s
     in insert_loop h pos (next_safe h pos s) page s)"

section \<open>Allocation and release\<close>

definition page_nr :: "page_mem \<Rightarrow> nat \<Rightarrow> int" where
  "page_nr s page = s32 (int (psub (pend s page) page div PAGE_SIZE))"

definition page_offset :: "nat \<Rightarrow> int \<Rightarrow> nat" where
  "page_offset page nr_pages = nat ((int page + nr_pages * int PAGE_SIZE) mod 2 ^ 64)"

partial_function (option) alloc_loop :: "nat \<Rightarrow> int \<Rightarrow> nat \<Rightarrow> page_mem \<Rightarrow> (nat \<times> page_mem) option" where
  "alloc_loop h nr_pages pos s =
    (if pos = 0 \<or> pos = h then Some (0, s)
     else let nr = page_nr s pos
       in if nr = nr_pages then Some (pos, list_del pos s)
          else if nr_pages < nr then
            let page = page_offset pos nr_pages;
                s = set_pend page (pend s pos) s;
                s = list_del pos s
            in map_option (\<lambda>s. (pos, s)) (page_insert h page s)
          else alloc_loop h nr_pages (list_next_entry h pos s) s)"

definition page_alloc_pages :: "nat \<Rightarrow> int \<Rightarrow> page_mem \<Rightarrow> (nat \<times> page_mem) option" where
  "page_alloc_pages h nr_pages s =
    (if nr_pages = 0 then Some (0, s) else alloc_loop h nr_pages (list_next_entry h h s) s)"

definition page_free_pages :: "nat \<Rightarrow> nat \<Rightarrow> int \<Rightarrow> page_mem \<Rightarrow> page_mem option" where
  "page_free_pages h page nr_pages s =
    (if nr_pages = 0 then Some s
     else page_insert h page (set_pend page (page_offset page nr_pages) s))"

text \<open>Zeroing a page clears the header fields of every address in it.\<close>

definition zero_page :: "nat \<Rightarrow> page_mem \<Rightarrow> page_mem" where
  "zero_page page s =
    (let z = (\<lambda>f a. if page \<le> a \<and> a < page + PAGE_SIZE then 0 else f a)
     in s\<lparr>nxt := z (nxt s), prv := z (prv s), pend := z (pend s)\<rparr>)"

definition page_alloc_zeroed :: "nat \<Rightarrow> page_mem \<Rightarrow> (nat \<times> page_mem) option" where
  "page_alloc_zeroed h s =
    map_option (\<lambda>(page, s). (page, if page \<noteq> 0 then zero_page page s else s)) (page_alloc_pages h 1 s)"

section \<open>Initialisation\<close>

definition page_alloc_init :: "nat \<Rightarrow> nat \<Rightarrow> nat \<Rightarrow> page_mem \<Rightarrow> page_mem option" where
  "page_alloc_init h base size' s =
    (let page = unat (ALIGN_UP (of_nat base :: u64) (of_nat PAGE_SIZE));
         s = set_pend page (unat (ALIGN_DOWN (of_nat (padd base size') :: u64) (of_nat PAGE_SIZE))) s
     in page_insert h page s)"



section \<open>Blocks\<close>

text \<open>
  A list of blocks \<open>p..<f p\<close> in ascending order with a gap between any two, page aligned and
  below 4 TiB, so that the number of pages of a block fits the \<open>int\<close> of \<open>page_nr\<close>.
\<close>

definition block_ok :: "nat \<Rightarrow> nat \<Rightarrow> bool" where
  "block_ok p e \<longleftrightarrow> 0 < p \<and> p < e \<and> e \<le> 2 ^ 42 \<and> PAGE_SIZE dvd p \<and> PAGE_SIZE dvd e"

definition blocks_ok :: "(nat \<Rightarrow> nat) \<Rightarrow> nat list \<Rightarrow> bool" where
  "blocks_ok f xs \<longleftrightarrow> (\<forall>p\<in>set xs. block_ok p (f p)) \<and> sorted_wrt (\<lambda>p q. f p < q) xs"

definition block_set :: "(nat \<Rightarrow> nat) \<Rightarrow> nat list \<Rightarrow> nat set" where
  "block_set f xs = (\<Union>p\<in>set xs. {p..<f p})"

definition page_ok :: "page_mem \<Rightarrow> nat \<Rightarrow> nat list \<Rightarrow> bool" where
  "page_ok s h xs \<longleftrightarrow> dll s h xs \<and> blocks_ok (pend s) xs \<and> h \<noteq> 0 \<and> h \<notin> block_set (pend s) xs"

definition page_set :: "page_mem \<Rightarrow> nat list \<Rightarrow> nat set" where
  "page_set s xs = block_set (pend s) xs"

lemma block_set_simps [simp]:
  "block_set f [] = {}" "block_set f (p # xs) = {p..<f p} \<union> block_set f xs"
  "block_set f (xs @ ys) = block_set f xs \<union> block_set f ys"
  by (auto simp: block_set_def)

lemma blocks_ok_simps [simp]:
  "blocks_ok f []"
  "blocks_ok f (p # xs) \<longleftrightarrow> block_ok p (f p) \<and> (\<forall>q\<in>set xs. f p < q) \<and> blocks_ok f xs"
  "blocks_ok f (xs @ ys) \<longleftrightarrow> blocks_ok f xs \<and> blocks_ok f ys \<and> (\<forall>p\<in>set xs. \<forall>q\<in>set ys. f p < q)"
  by (auto simp: blocks_ok_def sorted_wrt_append)

lemma blocks_ok_cong: "\<forall>p\<in>set xs. f p = g p \<Longrightarrow> blocks_ok f xs = blocks_ok g xs"
  by (induction xs) auto

lemma block_set_cong: "\<forall>p\<in>set xs. f p = g p \<Longrightarrow> block_set f xs = block_set g xs"
  by (auto simp: block_set_def)

lemma blocks_upd [simp]:
  "a \<notin> set xs \<Longrightarrow> blocks_ok (f(a := e)) xs = blocks_ok f xs"
  "a \<notin> set xs \<Longrightarrow> block_set (f(a := e)) xs = block_set f xs"
  by (auto intro!: blocks_ok_cong block_set_cong)

lemma pend_simps [simp]:
  "pend (set_pend p e s) = (pend s)(p := e)" "nxt (set_pend p e s) = nxt s" "prv (set_pend p e s) = prv s"
  "pend (set_nxt a b s) = pend s" "pend (set_prv a b s) = pend s"
  "pend (list_del_init a s) = pend s" "pend (list_del a s) = pend s" "pend (list_add_tail a b s) = pend s"
  "pend (INIT_LIST_HEAD a s) = pend s"
  by (simp_all add: set_pend_def set_nxt_def set_prv_def list_del_init_def list_del_def
      list_add_tail_def INIT_LIST_HEAD_def Let_def)

lemma dll_set_pend [simp]: "dll (set_pend p e s) h xs = dll s h xs"
  using lseg_cong [of h xs "set_pend p e s" s h] by (simp add: dll_def)

lemma dll_INIT_LIST_HEAD: "dll s h xs \<Longrightarrow> p \<notin> set (h # xs) \<Longrightarrow> dll (INIT_LIST_HEAD p s) h xs"
  by (erule dll_frame) (auto simp: INIT_LIST_HEAD_def)

lemma block_bound: "block_ok p e \<Longrightarrow> e < 2 ^ 64 \<and> p < 2 ^ 64"
  by (auto simp: block_ok_def)

lemma block_grow: "block_ok p q \<Longrightarrow> block_ok q e \<Longrightarrow> padd q (psub e q) = e \<and> block_ok p e"
  by (auto simp: block_ok_def)

lemma blocks_disjoint: "block_ok p e \<Longrightarrow> block_ok q d \<Longrightarrow> {p..<e} \<inter> {q..<d} = {} \<Longrightarrow> e \<le> q \<or> d \<le> p"
  by (auto simp: block_ok_def ivl_disj_int) (metis atLeastLessThan_iff disjoint_iff leI order_less_imp_le)?

section \<open>Correctness of the insertion\<close>

definition first_or_null :: "nat list \<Rightarrow> nat" where
  "first_or_null xs = (case xs of [] \<Rightarrow> 0 | x # _ \<Rightarrow> x)"

definition inserted :: "page_mem \<Rightarrow> nat \<Rightarrow> nat list \<Rightarrow> nat \<Rightarrow> page_mem \<Rightarrow> bool" where
  "inserted s h xs p s' \<longleftrightarrow> (\<exists>ys. dll s' h ys \<and> blocks_ok (pend s') ys \<and>
     block_set (pend s') ys = block_set (pend s) xs \<union> {p..<pend s p})"

text \<open>A block that can be inserted.\<close>

definition insertable :: "page_mem \<Rightarrow> nat \<Rightarrow> nat list \<Rightarrow> nat \<Rightarrow> bool" where
  "insertable s h xs p \<longleftrightarrow> dll s h xs \<and> blocks_ok (pend s) xs \<and> block_ok p (pend s p) \<and>
     block_set (pend s) xs \<inter> {p..<pend s p} = {} \<and> p \<notin> set (h # xs)"

lemma merge_after:
  assumes ins: "insertable s h (us @ c # ws) p" and eq: "pend s c = p"
  shows "\<exists>s'. insert_again c (first_or_null ws) p s = Some (Inr s') \<and> inserted s h (us @ c # ws) p s'"
proof -
  let ?e = "pend s p"
  define t where "t = set_pend c ?e s"
  have ok: "dll s h (us @ c # ws)" "blocks_ok (pend s) (us @ c # ws)" "block_ok p ?e" "block_ok c p"
      "p \<notin> set (h # us @ c # ws)" "block_set (pend s) (us @ c # ws) \<inter> {p..<?e} = {}"
    using ins eq by (auto simp: insertable_def)
  have grow: "padd (pend s c) (psub (pend s p) p) = ?e" "block_ok c ?e"
    using block_grow [OF ok(4,3)] eq by simp_all
  have c: "c \<notin> set us" "c \<notin> set ws" using ok(1) by (auto simp: dll_def)
  have ws: "?e \<le> w" if "w \<in> set ws" for w
  proof -
    have "block_ok w (pend s w)" "p < w" using ok(2) that eq by (auto simp: blocks_ok_def sorted_wrt_append)
    moreover have "w \<in> block_set (pend s) (us @ c # ws)"
      using that calculation(1) by (auto simp: block_set_def block_ok_def)
    then have "w \<notin> {p..<?e}" using ok(6) by blast
    ultimately show ?thesis by auto
  qed
  have step: "insert_again c n p s = (if ?e = n then insert_again c n n (list_del_init n t) else Some (Inr t))" for n
    using eq grow(1) by (subst insert_again.simps) (simp add: t_def Let_def)
  have pt: "{c..<?e} = {c..<p} \<union> {p..<?e}" using ok(3,4) by (auto simp: block_ok_def)
  show ?thesis
  proof (cases "first_or_null ws = ?e")
    case False
    have lt: "\<forall>w\<in>set ws. ?e < w"
    proof (cases ws)
      case (Cons w vs)
      then have "?e < w" using ws [of w] False by (simp add: first_or_null_def)
      moreover have "\<forall>v\<in>set vs. w < v" using ok(2) Cons by (auto simp: block_ok_def)
      ultimately show ?thesis using Cons by auto
    qed simp
    have "dll t h (us @ c # ws)" "blocks_ok (pend t) (us @ c # ws)"
      using ok c grow(2) lt by (auto simp: t_def)
    moreover have "block_set (pend t) (us @ c # ws) = block_set (pend s) (us @ c # ws) \<union> {p..<?e}"
      using c pt eq by (auto simp: t_def)
    ultimately show ?thesis using False unfolding step inserted_def by auto
  next
    case True
    then obtain vs where vs: "ws = ?e # vs" using ok(3) by (cases ws) (auto simp: first_or_null_def block_ok_def)
    define q where "q = pend s ?e"
    define u where "u = set_pend c q (list_del_init ?e t)"
    have w: "block_ok ?e q" "\<forall>v\<in>set vs. q < v" "?e \<noteq> c" "?e \<notin> set us" "?e \<notin> set vs" "?e \<noteq> h"
      using ok(1,2) vs by (auto simp: q_def dll_def)
    have "padd ?e (psub q ?e) = q" "block_ok c q" using block_grow [OF grow(2) w(1)] by simp_all
    moreover have "q \<noteq> ?e" using w(1) by (auto simp: block_ok_def)
    ultimately have "insert_again c ?e ?e (list_del_init ?e t) = Some (Inr u)"
      using w by (subst insert_again.simps) (simp add: t_def u_def Let_def q_def)
    moreover have "dll u h ((us @ [c]) @ vs)"
      unfolding u_def dll_set_pend
      by (rule lh.rep_del) (use ok(1) vs in \<open>simp add: t_def\<close>)
    moreover have "blocks_ok (pend u) (us @ c # vs)"
      using ok(2) vs c w \<open>block_ok c q\<close> by (auto simp: u_def t_def)
    moreover have "block_set (pend u) (us @ c # vs) = block_set (pend s) (us @ c # ws) \<union> {p..<?e}"
    proof -
      have "{c..<q} = {c..<p} \<union> {p..<?e} \<union> {?e..<q}" using ok(3,4) w(1) by (auto simp: block_ok_def)
      then show ?thesis using c vs eq by (auto simp: u_def t_def q_def)
    qed
    ultimately show ?thesis using True unfolding step inserted_def by auto
  qed
qed

lemma insert_before:
  assumes ins: "insertable s h (us @ c # ws) p" and lt: "p < c" and us: "\<forall>u\<in>set us. pend s u < p"
  shows "\<exists>s'. insert_again c (first_or_null ws) p s = Some (Inr s') \<and> inserted s h (us @ c # ws) p s'"
proof -
  let ?e = "pend s p" and ?d = "pend s c"
  define t where "t = list_add_tail p c s"
  have ok: "dll s h (us @ c # ws)" "blocks_ok (pend s) (us @ c # ws)" "block_ok p ?e" "block_ok c ?d"
      "p \<notin> set (h # us @ c # ws)" "block_set (pend s) (us @ c # ws) \<inter> {p..<?e} = {}"
    using ins by (auto simp: insertable_def)
  have "c \<notin> {p..<?e}" using ok(4,6) by (auto simp: block_ok_def)
  then have ec: "?e \<le> c" using lt by auto
  have step: "insert_again c n p s =
      (if c = ?e then insert_again p n c (list_del_init c t) else Some (Inr t))" for n
    using lt ok(4) by (subst insert_again.simps) (auto simp: t_def Let_def block_ok_def)
  have ws: "\<forall>w\<in>set ws. ?d < w" using ok(2) by auto
  show ?thesis
  proof (cases "c = ?e")
    case False
    have "dll t h (us @ p # c # ws)" unfolding t_def by (rule lh.rep_ins_front [OF ok(1,5)])
    moreover have "blocks_ok (pend t) (us @ p # c # ws)"
      using ok us ec False ws by (auto simp: t_def block_ok_def)
    moreover have "block_set (pend t) (us @ p # c # ws) = block_set (pend s) (us @ c # ws) \<union> {p..<?e}"
      by (auto simp: t_def)
    ultimately show ?thesis using False unfolding step inserted_def by auto
  next
    case True
    define u where "u = set_pend p ?d (list_del_init c t)"
    have "block_ok p c" using ok(3) True by simp
    from block_grow [OF this ok(4)] have g: "padd c (psub ?d c) = ?d" "block_ok p ?d" by simp_all
    have "?d \<noteq> first_or_null ws" using ws ok(4) by (cases ws) (auto simp: first_or_null_def block_ok_def)
    then have "insert_again p (first_or_null ws) c (list_del_init c t) = Some (Inr u)"
      using True g(1) by (subst insert_again.simps) (simp add: t_def u_def Let_def)
    moreover have "dll u h (us @ p # ws)"
      unfolding u_def dll_set_pend t_def by (rule lh.rep_replace [OF ok(1,5)])
    moreover have "blocks_ok (pend u) (us @ p # ws)"
      using ok(2,5) us ws g(2) by (auto simp: u_def t_def)
    moreover have "block_set (pend u) (us @ p # ws) = block_set (pend s) (us @ c # ws) \<union> {p..<?e}"
    proof -
      have "{p..<?d} = {p..<?e} \<union> {c..<?d}" using ok(3,4) True by (auto simp: block_ok_def)
      then show ?thesis using ok(5) by (auto simp: u_def t_def)
    qed
    ultimately show ?thesis using True unfolding step inserted_def by auto
  qed
qed

lemma next_safe_eq:
  assumes d: "dll s h (us @ ws)" and b: "blocks_ok f ws"
  shows "next_safe h (first_or_null ws) s = first_or_null (tl ws)"
proof (cases ws)
  case (Cons w vs)
  then have "w \<noteq> 0" "h \<notin> set vs" using d b by (auto simp: block_ok_def dll_def)
  then show ?thesis
    using Cons d lh.suc_node [of s h us w vs] by (cases vs) (auto simp: next_safe_def first_or_null_def)
qed (simp add: next_safe_def first_or_null_def)

lemma insert_loop_ok:
  "insertable s h (us @ ws) p \<Longrightarrow> \<forall>u\<in>set us. pend s u < p \<Longrightarrow>
   \<exists>s'. insert_loop h (first_or_null ws) (first_or_null (tl ws)) p s = Some s' \<and> inserted s h (us @ ws) p s'"
proof (induction ws arbitrary: us)
  case Nil
  then have "dll (list_add_tail p h s) h (us @ [p])"
    by (auto simp: insertable_def intro!: lh.rep_append_end)
  then have "inserted s h (us @ []) p (list_add_tail p h s)"
    using Nil by (auto simp: inserted_def insertable_def intro!: exI [of _ "us @ [p]"])
  then show ?case by (subst insert_loop.simps) (simp add: first_or_null_def)
next
  case (Cons c ws)
  have ok: "dll s h (us @ c # ws)" "block_ok p (pend s p)" "block_ok c (pend s c)" "p \<noteq> c"
    using Cons.prems(1) by (auto simp: insertable_def)
  have dj: "{c..<pend s c} \<inter> {p..<pend s p} = {}"
    using Cons.prems(1) unfolding insertable_def block_set_simps by blast
  have ch: "c \<noteq> 0" "c \<noteq> h" using ok(1,3) by (auto simp: dll_def block_ok_def)
  have loop: "insert_loop h c n p s = Option.bind (insert_again c n p s) (\<lambda>r. case r of
      Inr s \<Rightarrow> Some s | Inl (page, s) \<Rightarrow> insert_loop h n (next_safe h n s) page s)" for n
    using ch by (subst insert_loop.simps) simp
  consider "pend s c = p" | "p < c" | "pend s c < p" "c < p"
    using blocks_disjoint [OF ok(3,2) dj] ok(2-4) by (auto simp: block_ok_def) linarith?
  then show ?case
  proof cases
    case 1
    from merge_after [OF Cons.prems(1) 1] show ?thesis by (auto simp: first_or_null_def [of "c # ws"] loop)
  next
    case 2
    from insert_before [OF Cons.prems(1) 2 Cons.prems(2)] show ?thesis
      by (auto simp: first_or_null_def [of "c # ws"] loop)
  next
    case 3
    have "insert_again c n p s = Some (Inl (p, s))" for n
      using 3 by (subst insert_again.simps) simp
    moreover have "next_safe h (first_or_null ws) s = first_or_null (tl ws)"
      using Cons.prems(1) by (intro next_safe_eq [of _ _ "us @ [c]"]) (auto simp: insertable_def)
    moreover have "\<exists>s'. insert_loop h (first_or_null ws) (first_or_null (tl ws)) p s = Some s' \<and>
        inserted s h ((us @ [c]) @ ws) p s'"
      using Cons.prems 3 by (intro Cons.IH) auto
    ultimately show ?thesis by (simp add: first_or_null_def [of "c # ws"] loop)
  qed
qed

lemma first_entry: "dll s h xs \<Longrightarrow> list_next_entry h h s = first_or_null xs"
  using lh.suc_head [of s h xs] lh.rep_distinct [of s h xs]
  by (cases xs) (auto simp: list_next_entry_def first_or_null_def)

lemma next_entry: "dll s h (us @ w # ws) \<Longrightarrow> list_next_entry h w s = first_or_null ws"
  using lh.suc_node [of s h us w ws] lh.rep_distinct [of s h "us @ w # ws"]
  by (cases ws) (auto simp: list_next_entry_def first_or_null_def)

lemma page_insert_ok:
  assumes "page_ok s h xs" "block_ok p (pend s p)" "page_set s xs \<inter> {p..<pend s p} = {}"
    "h \<notin> {p..<pend s p}"
  shows "\<exists>s' ys. page_insert h p s = Some s' \<and> page_ok s' h ys \<and> page_set s' ys = page_set s xs \<union> {p..<pend s p}"
proof -
  let ?t = "INIT_LIST_HEAD p s"
  have p: "p \<noteq> h" using assms(2,4) by (auto simp: block_ok_def)
  have "p \<in> {p..<pend s p}" using assms(2) by (auto simp: block_ok_def)
  moreover have "x \<in> page_set s xs" if "x \<in> set xs" for x
    using assms(1) that by (auto simp: page_ok_def page_set_def block_set_def blocks_ok_def block_ok_def)
  ultimately have "p \<notin> set xs" using assms(3) by blast
  with p have ins: "insertable ?t h xs p"
    using assms by (auto simp: insertable_def page_ok_def page_set_def intro: dll_INIT_LIST_HEAD)
  then have d: "dll ?t h ([] @ xs)" "blocks_ok (pend s) xs" by (auto simp: insertable_def)
  have "page_insert h p s = insert_loop h (first_or_null xs) (first_or_null (tl xs)) p ?t"
    using first_entry [of ?t h xs] next_safe_eq [OF d] d by (simp add: page_insert_def)
  with insert_loop_ok [of ?t h "[]" xs p] ins obtain s' ys where
    "page_insert h p s = Some s'" "dll s' h ys" "blocks_ok (pend s') ys"
    "block_set (pend s') ys = block_set (pend s) xs \<union> {p..<pend s p}"
    by (auto simp: inserted_def)
  then show ?thesis using assms(1,4) by (auto simp: page_ok_def page_set_def)
qed

section \<open>Correctness of the allocation\<close>

lemma block_pages:
  assumes "block_ok p e"
  obtains m where "e = p + m * PAGE_SIZE" "0 < m" "m < 2 ^ 30"
proof -
  have "PAGE_SIZE dvd e - p" using assms by (auto simp: block_ok_def)
  then obtain m where m: "e - p = PAGE_SIZE * m" by (rule dvdE)
  then have "e = p + m * PAGE_SIZE"
    using assms le_add_diff_inverse [of p e] by (simp add: block_ok_def mult.commute)
  moreover have "0 < m" using m assms by (cases m) (auto simp: block_ok_def)
  moreover have "m < 2 ^ 30" using calculation assms by (auto simp: block_ok_def PAGE_SIZE_def)
  ultimately show ?thesis ..
qed

lemma page_nr_eq:
  assumes "block_ok p (pend s p)" "pend s p = p + m * PAGE_SIZE" "m < 2 ^ 30"
  shows "page_nr s p = int m"
proof -
  have "psub (pend s p) p = m * PAGE_SIZE" using assms block_bound [OF assms(1)] by simp
  then have "psub (pend s p) p div PAGE_SIZE = m" by (simp add: PAGE_SIZE_def)
  then show ?thesis using assms(3) by (simp add: page_nr_def s32_def)
qed

lemma page_offset_eq: "p + n * PAGE_SIZE < 2 ^ 64 \<Longrightarrow> page_offset p (int n) = p + n * PAGE_SIZE"
proof -
  define x where "x = p + n * PAGE_SIZE"
  assume "p + n * PAGE_SIZE < 2 ^ 64"
  then have "int x mod 2 ^ 64 = int x" by (simp add: x_def [symmetric])
  moreover have "int p + int n * int PAGE_SIZE = int x" by (simp add: x_def)
  ultimately have "page_offset p (int n) = x" unfolding page_offset_def by simp
  then show ?thesis by (simp add: x_def)
qed

lemma blocks_apart: "blocks_ok f xs \<Longrightarrow> p \<in> set xs \<Longrightarrow> q \<in> set xs \<Longrightarrow> p = q \<or> f p < q \<or> f q < p"
  by (induction xs) auto

lemma blocks_end:
  assumes "blocks_ok f xs" "p \<in> set xs" shows "f p \<notin> block_set f xs"
proof
  assume "f p \<in> block_set f xs"
  then obtain q where q: "q \<in> set xs" "q \<le> f p" "f p < f q" by (auto simp: block_set_def)
  moreover have "p < f p" using assms by (auto simp: blocks_ok_def block_ok_def)
  ultimately show False using blocks_apart [OF assms q(1)] by auto
qed

text \<open>A run of free addresses lies in one block.\<close>

lemma run_in_block:
  assumes ok: "blocks_ok f xs" and run: "{a..<a + n} \<subseteq> block_set f xs" and n: "0 < n"
  shows "\<exists>p\<in>set xs. p \<le> a \<and> a + n \<le> f p"
proof -
  have "a \<in> block_set f xs" using run n by auto
  then obtain p where p: "p \<in> set xs" "p \<le> a" "a < f p" by (auto simp: block_set_def)
  have "f p \<notin> {a..<a + n}" using blocks_end [OF ok p(1)] run by blast
  with p show ?thesis by auto
qed

lemma take_block:
  assumes ok: "page_ok s h (us @ w # ws)"
  shows "page_ok (list_del w s) h (us @ ws)"
    "page_set (list_del w s) (us @ ws) = page_set s (us @ w # ws) - {w..<pend s w}"
proof -
  show "page_ok (list_del w s) h (us @ ws)"
    using ok list_del_dll(1) [of s h us w ws] by (auto simp: page_ok_def)
  have b: "blocks_ok (pend s) (us @ w # ws)" using ok by (simp add: page_ok_def)
  have "w \<notin> set (us @ ws)" using ok by (auto simp: page_ok_def dll_def)
  then have "pend s w < q \<or> pend s q < w" if "q \<in> set (us @ ws)" for q
    using blocks_apart [OF b, of q w] that by auto
  then show "page_set (list_del w s) (us @ ws) = page_set s (us @ w # ws) - {w..<pend s w}"
    by (fastforce simp: page_set_def block_set_def)
qed

lemma split_block:
  assumes ok: "page_ok s h (us @ w # ws)" and p: "w < p" "p < pend s w" "PAGE_SIZE dvd p"
  shows "\<exists>s' ys. page_insert h p (list_del w (set_pend p (pend s w) s)) = Some s' \<and> page_ok s' h ys \<and>
    page_set s' ys = page_set s (us @ w # ws) - {w..<p}"
proof -
  define t where "t = set_pend p (pend s w) s"
  have b: "blocks_ok (pend s) (us @ w # ws)" "block_ok w (pend s w)" using ok by (auto simp: page_ok_def)
  have nin: "p \<notin> set (us @ w # ws)"
  proof
    assume "p \<in> set (us @ w # ws)"
    moreover have "p < pend s p" using b(1) calculation by (auto simp: blocks_ok_def block_ok_def)
    ultimately show False using blocks_apart [OF b(1), of p w] p by auto
  qed
  have t: "page_ok t h (us @ w # ws)" "page_set t (us @ w # ws) = page_set s (us @ w # ws)" "pend t w = pend s w"
    using ok nin by (auto simp: t_def page_ok_def page_set_def)
  note tk = take_block [OF t(1), unfolded t(2,3)]
  have hw: "h \<notin> {w..<pend s w}" using ok by (auto simp: page_ok_def)
  have "\<exists>s' ys. page_insert h p (list_del w t) = Some s' \<and> page_ok s' h ys \<and>
      page_set s' ys = page_set (list_del w t) (us @ ws) \<union> {p..<pend (list_del w t) p}"
  proof (rule page_insert_ok [OF tk(1)])
    show "block_ok p (pend (list_del w t) p)" using b(2) p by (auto simp: t_def block_ok_def)
    show "page_set (list_del w t) (us @ ws) \<inter> {p..<pend (list_del w t) p} = {}"
      unfolding tk(2) using p by (auto simp: t_def)
    show "h \<notin> {p..<pend (list_del w t) p}" using hw p by (auto simp: t_def)
  qed
  moreover have "page_set s (us @ w # ws) - {w..<pend s w} \<union> {p..<pend s w} = page_set s (us @ w # ws) - {w..<p}"
    using p by (auto simp: page_set_def)
  ultimately show ?thesis unfolding tk(2) by (simp add: t_def)
qed

definition allocated :: "page_mem \<Rightarrow> nat list \<Rightarrow> nat \<Rightarrow> nat \<Rightarrow> page_mem \<Rightarrow> nat list \<Rightarrow> bool" where
  "allocated s xs n p s' ys \<longleftrightarrow>
    p = 0 \<and> s' = s \<and> ys = xs \<and> (\<forall>u\<in>set xs. pend s u < u + n * PAGE_SIZE) \<or>
    p \<noteq> 0 \<and> PAGE_SIZE dvd p \<and> {p..<p + n * PAGE_SIZE} \<subseteq> page_set s xs \<and>
    page_set s' ys = page_set s xs - {p..<p + n * PAGE_SIZE}"

lemma alloc_loop_ok:
  "page_ok s h (us @ ws) \<Longrightarrow> \<forall>u\<in>set us. pend s u < u + n * PAGE_SIZE \<Longrightarrow> 0 < n \<Longrightarrow>
   \<exists>p s' ys. alloc_loop h (int n) (first_or_null ws) s = Some (p, s') \<and> page_ok s' h ys \<and>
     allocated s (us @ ws) n p s' ys"
proof (induction ws arbitrary: us)
  case Nil
  then show ?case by (subst alloc_loop.simps) (auto simp: first_or_null_def allocated_def)
next
  case (Cons w ws)
  have d: "dll s h (us @ w # ws)" "w \<noteq> 0" "w \<noteq> h" and b: "block_ok w (pend s w)"
    using Cons.prems(1) by (auto simp: page_ok_def dll_def block_ok_def)
  obtain m where m: "pend s w = w + m * PAGE_SIZE" "0 < m" "m < 2 ^ 30" using b by (rule block_pages)
  have nr: "page_nr s w = int m" by (rule page_nr_eq [OF b m(1,3)])
  have sub: "{w..<pend s w} \<subseteq> page_set s (us @ w # ws)" by (auto simp: page_set_def)
  have al: "PAGE_SIZE dvd w" using b by (simp add: block_ok_def)
  note loop = alloc_loop.simps [of h "int n" w s, unfolded nr]
  have f: "first_or_null (w # ws) = w" by (simp add: first_or_null_def)
  consider "m = n" | "n < m" | "m < n" by linarith
  then show ?case unfolding f
  proof cases
    case 1
    then show "\<exists>p s' ys. alloc_loop h (int n) w s = Some (p, s') \<and> page_ok s' h ys \<and> allocated s (us @ w # ws) n p s' ys"
      using loop d(2,3) take_block [OF Cons.prems(1)] sub al m(1) by (auto simp: allocated_def)
  next
    case 2
    define p where "p = w + n * PAGE_SIZE"
    have p: "w < p" "p < pend s w" "PAGE_SIZE dvd p"
      using 2 Cons.prems(3) m(1) al by (auto simp: p_def PAGE_SIZE_def)
    have "page_offset w (int n) = p"
      using p(2) block_bound [OF b] unfolding p_def by (intro page_offset_eq) simp
    with split_block [OF Cons.prems(1) p] obtain s' ys where
      "alloc_loop h (int n) w s = Some (w, s')" "page_ok s' h ys" "page_set s' ys = page_set s (us @ w # ws) - {w..<p}"
      using loop d(2,3) 2 by (auto simp: Let_def)
    moreover have "{w..<p} \<subseteq> page_set s (us @ w # ws)" using sub p by auto
    ultimately show "\<exists>p s' ys. alloc_loop h (int n) w s = Some (p, s') \<and> page_ok s' h ys \<and> allocated s (us @ w # ws) n p s' ys"
      using d(2) al unfolding allocated_def p_def by blast
  next
    case 3
    then have "alloc_loop h (int n) w s = alloc_loop h (int n) (first_or_null ws) s"
      using loop d next_entry [OF d(1)] by simp
    moreover have "\<exists>p s' ys. alloc_loop h (int n) (first_or_null ws) s = Some (p, s') \<and> page_ok s' h ys \<and>
        allocated s ((us @ [w]) @ ws) n p s' ys"
      using Cons.prems 3 m(1) by (intro Cons.IH) (auto simp: PAGE_SIZE_def)
    ultimately show "\<exists>p s' ys. alloc_loop h (int n) w s = Some (p, s') \<and> page_ok s' h ys \<and> allocated s (us @ w # ws) n p s' ys"
      by simp
  qed
qed

lemma alloc_ok:
  assumes "page_ok s h xs" "0 < n"
  shows "\<exists>p s' ys. page_alloc_pages h (int n) s = Some (p, s') \<and> page_ok s' h ys \<and> allocated s xs n p s' ys"
  using alloc_loop_ok [of s h "[]" xs n] assms first_entry [of s h xs]
  by (simp add: page_alloc_pages_def page_ok_def)

section \<open>The free set determines the list\<close>

lemma blocks_start:
  assumes ok: "blocks_ok f xs"
  shows "x \<in> set xs \<longleftrightarrow> x \<in> block_set f xs \<and> x - 1 \<notin> block_set f xs"
proof
  assume x: "x \<in> set xs"
  then have "block_ok x (f x)" using ok by (auto simp: blocks_ok_def)
  then have "0 < x" "x < f x" by (auto simp: block_ok_def)
  moreover have "\<not> (q \<le> x - 1 \<and> x - 1 < f q)" if "q \<in> set xs" for q
    using blocks_apart [OF ok x that] calculation by auto
  ultimately show "x \<in> block_set f xs \<and> x - 1 \<notin> block_set f xs"
    using x by (auto simp: block_set_def)
next
  assume "x \<in> block_set f xs \<and> x - 1 \<notin> block_set f xs"
  then obtain q where q: "q \<in> set xs" "q \<le> x" "x < f q" and nin: "x - 1 \<notin> block_set f xs"
    by (auto simp: block_set_def)
  have "q = x"
  proof (rule ccontr)
    assume "q \<noteq> x"
    then have "x - 1 \<in> {q..<f q}" using q by auto
    then show False using q(1) nin by (auto simp: block_set_def)
  qed
  then show "x \<in> set xs" using q by simp
qed

lemma blocks_unique:
  assumes ok: "blocks_ok f xs" "blocks_ok g ys" and eq: "block_set f xs = block_set g ys"
  shows "xs = ys" "\<forall>x\<in>set xs. f x = g x"
proof -
  have strict: "sorted_wrt (<) zs" if "blocks_ok k zs" for k zs
    using that by (induction zs) (auto simp: block_ok_def)
  have set: "set xs = set ys" using blocks_start [OF ok(1)] blocks_start [OF ok(2)] eq by blast
  then show "xs = ys" using strict [OF ok(1)] strict [OF ok(2)] by (simp add: strict_sorted_equal)
  show "\<forall>x\<in>set xs. f x = g x"
  proof
    fix x assume x: "x \<in> set xs"
    have lt: "x < f x" "x < g x" using ok x set by (auto simp: blocks_ok_def block_ok_def)
    have sub: "{x..<f x} \<subseteq> block_set f xs" "{x..<g x} \<subseteq> block_set g ys"
      using x set by (auto simp: block_set_def)
    have "f x \<notin> {x..<g x}" using blocks_end [OF ok(1) x] eq sub by blast
    moreover have "g x \<notin> {x..<f x}" using blocks_end [OF ok(2), of x] eq sub x set by blast
    ultimately show "f x = g x" using lt by auto
  qed
qed

section \<open>Properties\<close>

text \<open>
  C4: allocation. On a well-formed free list \<open>page_alloc_pages\<close> returns for every positive
  number \<open>n\<close> of pages, and the list stays well formed: ascending, page aligned and with adjacent
  blocks merged. It returns null, with nothing changed, exactly when there are no \<open>n\<close>
  consecutive free pages; otherwise it returns \<open>n\<close> consecutive free pages, and exactly
  these leave the free set.
\<close>

theorem page_alloc_exact:
  assumes ok: "page_ok s h xs" and n: "0 < n"
  shows "\<exists>p s' ys. page_alloc_pages h (int n) s = Some (p, s') \<and> page_ok s' h ys
    \<and> (p = 0 \<longleftrightarrow> \<not> (\<exists>a. {a..<a + n * PAGE_SIZE} \<subseteq> page_set s xs))
    \<and> (p = 0 \<longrightarrow> s' = s)
    \<and> (p \<noteq> 0 \<longrightarrow> PAGE_SIZE dvd p \<and> {p..<p + n * PAGE_SIZE} \<subseteq> page_set s xs \<and>
        page_set s' ys = page_set s xs - {p..<p + n * PAGE_SIZE})"
proof -
  have b: "blocks_ok (pend s) xs" using ok by (simp add: page_ok_def)
  obtain p s' ys where a: "page_alloc_pages h (int n) s = Some (p, s')"
      "page_ok s' h ys" "allocated s xs n p s' ys"
    using alloc_ok [OF ok n] by auto
  have none: "\<not> {a..<a + n * PAGE_SIZE} \<subseteq> page_set s xs" if "\<forall>u\<in>set xs. pend s u < u + n * PAGE_SIZE" for a
  proof
    assume "{a..<a + n * PAGE_SIZE} \<subseteq> page_set s xs"
    then obtain u where "u \<in> set xs" "u \<le> a" "a + n * PAGE_SIZE \<le> pend s u"
      using run_in_block [OF b, of a "n * PAGE_SIZE"] n by (auto simp: page_set_def PAGE_SIZE_def)
    then show False using that by force
  qed
  show ?thesis
    using a none unfolding allocated_def by blast
qed

definition page_demo :: page_mem where
  "page_demo = \<lparr>nxt = id(8 := 0x1000, 0x1000 := 0x5000, 0x5000 := 8),
    prv = id(8 := 0x5000, 0x5000 := 0x1000, 0x1000 := 8), pend = id(0x1000 := 0x3000, 0x5000 := 0x6000)\<rparr>"

lemma page_demo_ok: "page_ok page_demo 8 [0x1000, 0x5000]"
  by (simp add: page_demo_def page_ok_def dll_def block_ok_def PAGE_SIZE_def)

theorem page_alloc_exact_witness:
  "\<exists>p s'. page_alloc_pages 8 2 page_demo = Some (p, s') \<and> p \<noteq> 0"
proof -
  have "{0x1000..<0x1000 + 2 * PAGE_SIZE} \<subseteq> page_set page_demo [0x1000, 0x5000]"
    by (auto simp: page_set_def page_demo_def PAGE_SIZE_def)
  with page_alloc_exact [OF page_demo_ok, of 2] show ?thesis by auto
qed

lemma free_ok:
  assumes ok: "page_ok s h xs" and blk: "block_ok p (p + n * PAGE_SIZE)" and n: "0 < n"
    and out: "page_set s xs \<inter> {p..<p + n * PAGE_SIZE} = {}" "h \<notin> {p..<p + n * PAGE_SIZE}"
  shows "\<exists>s' ys. page_free_pages h p (int n) s = Some s' \<and> page_ok s' h ys \<and>
    page_set s' ys = page_set s xs \<union> {p..<p + n * PAGE_SIZE}"
proof -
  let ?t = "set_pend p (p + n * PAGE_SIZE) s"
  have "x \<in> page_set s xs" if "x \<in> set xs" for x
    using ok that by (auto simp: page_ok_def page_set_def block_set_def blocks_ok_def block_ok_def)
  moreover have "p \<in> {p..<p + n * PAGE_SIZE}" using n by (simp add: PAGE_SIZE_def)
  ultimately have "p \<notin> set xs" using out by blast
  then have t: "page_ok ?t h xs" "page_set ?t xs = page_set s xs" using ok by (auto simp: page_ok_def page_set_def)
  have "page_offset p (int n) = p + n * PAGE_SIZE" using block_bound [OF blk] by (intro page_offset_eq) simp
  then have "page_free_pages h p (int n) s = page_insert h p ?t" using n by (simp add: page_free_pages_def)
  then show ?thesis using page_insert_ok [OF t(1), of p] t(2) blk out by simp
qed

text \<open>
  C26: round trip. Pages that were allocated can be released whatever their owner wrote into
  them, and the free list is then exactly the list before the allocation, block by block: the
  blocks the allocation split are merged again.
\<close>

theorem page_alloc_free_roundtrip:
  assumes ok: "page_ok s h xs" and n: "0 < n"
    and alloc: "page_alloc_pages h (int n) s = Some (p, s')" "p \<noteq> 0"
    and own: "\<forall>a. a \<notin> {p..<p + n * PAGE_SIZE} \<longrightarrow> nxt t a = nxt s' a \<and> prv t a = prv s' a \<and> pend t a = pend s' a"
  shows "\<exists>u. page_free_pages h p (int n) t = Some u \<and> page_ok u h xs \<and> (\<forall>x\<in>set xs. pend u x = pend s x)"
proof -
  let ?I = "{p..<p + n * PAGE_SIZE}"
  obtain ys where ys: "page_ok s' h ys" "PAGE_SIZE dvd p" "?I \<subseteq> page_set s xs"
      "page_set s' ys = page_set s xs - ?I"
    using alloc_ok [OF ok n] alloc unfolding allocated_def by auto
  have h: "h \<notin> ?I" using ok ys(3) by (auto simp: page_ok_def page_set_def)
  have "y \<in> page_set s' ys" if "y \<in> set ys" for y
    using ys(1) that by (auto simp: page_ok_def page_set_def block_set_def blocks_ok_def block_ok_def)
  then have out: "y \<notin> ?I" if "y \<in> set (h # ys)" for y using that h ys(4) by auto
  have "dll s' h ys" using ys(1) by (simp add: page_ok_def)
  then have "dll t h ys" by (rule dll_frame) (use own out in blast)
  moreover have pt: "\<forall>y\<in>set ys. pend t y = pend s' y" using own out by simp
  ultimately have t: "page_ok t h ys" "page_set t ys = page_set s xs - ?I"
    using ys(1,4) blocks_ok_cong [OF pt] block_set_cong [OF pt] by (auto simp: page_ok_def page_set_def)
  obtain w where "w \<in> set xs" "w \<le> p" "p + n * PAGE_SIZE \<le> pend s w"
    using run_in_block [of "pend s" xs p "n * PAGE_SIZE"] ok ys(3) n
    by (auto simp: page_ok_def page_set_def PAGE_SIZE_def)
  then have "block_ok p (p + n * PAGE_SIZE)"
    using ok n ys(2) by (auto simp: page_ok_def blocks_ok_def block_ok_def PAGE_SIZE_def)
  from free_ok [OF t(1) this n] obtain u zs where u: "page_free_pages h p (int n) t = Some u"
      "page_ok u h zs" "page_set u zs = page_set s xs"
    using t(2) h ys(3) by (auto simp: Un_absorb2)
  then have "zs = xs" "\<forall>x\<in>set zs. pend u x = pend s x"
    using blocks_unique [of "pend u" zs "pend s" xs] ok by (auto simp: page_ok_def page_set_def)
  then show ?thesis using u by auto
qed

theorem page_alloc_free_roundtrip_witness:
  "\<exists>p s' u. page_alloc_pages 8 1 page_demo = Some (p, s') \<and> page_free_pages 8 p 1 s' = Some u \<and>
     page_ok u 8 [0x1000, 0x5000] \<and> pend u 0x1000 = 0x3000"
proof -
  have "\<exists>a. {a..<a + 1 * PAGE_SIZE} \<subseteq> page_set page_demo [0x1000, 0x5000]"
    by (rule exI [of _ "0x1000"]) (auto simp: page_set_def page_demo_def PAGE_SIZE_def)
  moreover obtain p s' ys where a: "page_alloc_pages 8 (int 1) page_demo = Some (p, s')"
      "allocated page_demo [0x1000, 0x5000] 1 p s' ys"
    using alloc_ok [OF page_demo_ok, of 1] by auto
  ultimately have "p \<noteq> 0"
    by (auto simp: allocated_def page_demo_def PAGE_SIZE_def)
  with page_alloc_free_roundtrip [OF page_demo_ok _ a(1), of s'] a(1) show ?thesis
    by (auto simp: page_demo_def)
qed

section \<open>Initialisation from the boot memory manager\<close>

definition page_up :: "nat \<Rightarrow> nat" where
  "page_up b = PAGE_SIZE * ((b + PAGE_SIZE - 1) div PAGE_SIZE)"

definition page_down :: "nat \<Rightarrow> nat" where
  "page_down e = e - e mod PAGE_SIZE"




lemma page_down_props: "page_down e \<le> e" "e < page_down e + PAGE_SIZE" "PAGE_SIZE dvd page_down e"
  unfolding page_down_def PAGE_SIZE_def by (simp_all add: dvd_minus_mod)



lemma page_alloc_init_eq:
  assumes "b + n \<le> 2 ^ 42"
  shows "page_alloc_init h b n s = page_insert h (page_up b) (set_pend (page_up b) (page_down (b + n)) s)"
proof -
  have size: "of_nat PAGE_SIZE = (2 ^ 12 :: u64)" by (simp add: PAGE_SIZE_def)
  have u: "unat (of_nat x :: u64) = x" if "x \<le> 2 ^ 42" for x
    using that by (simp add: unsigned_of_nat take_bit_nat_eq_self)
  have "unat (ALIGN_UP (of_nat b :: u64) (2 ^ 12)) = page_up b"
    using u [of b] assms by (subst ALIGN_UP_unat) (simp_all add: page_up_def PAGE_SIZE_def)
  moreover have "unat (ALIGN_DOWN (of_nat (b + n) :: u64) (2 ^ 12)) = page_down (b + n)"
    using u [OF assms] by (simp only: ALIGN_DOWN_eq round_down_unat page_down_def PAGE_SIZE_def)
  moreover have "padd b n = b + n" using assms by simp
  ultimately show ?thesis by (simp only: page_alloc_init_def size Let_def)
qed






text \<open>
  Ranges without a whole page. \<open>page_alloc_init\<close> does not test that the rounded range is
  not empty. For a range that contains no page boundary below its end, it writes a block
  header behind the end of the range, at an address it was not given, and links a block
  whose end is not above its start.
\<close>

theorem page_alloc_init_subpage:
  assumes empty: "page_ok s h []" and range: "b + n \<le> 2 ^ 42" "b + n \<le> page_up b" and h: "h \<noteq> page_up b"
  shows "\<exists>s'. page_alloc_init h b n s = Some s' \<and> dll s' h [page_up b] \<and>
    page_up b \<notin> {b..<b + n} \<and> pend s' (page_up b) \<le> page_up b"
proof -
  let ?p = "page_up b"
  let ?t = "INIT_LIST_HEAD ?p (set_pend ?p (page_down (b + n)) s)"
  have d: "dll ?t h []" using empty h by (intro dll_INIT_LIST_HEAD) (auto simp: page_ok_def)
  have "list_next_entry h h ?t = 0" using first_entry [OF d] by (simp add: first_or_null_def)
  then have "page_alloc_init h b n s = Some (list_add_tail ?p h ?t)"
    by (simp add: page_alloc_init_eq [OF range(1)] page_insert_def insert_loop.simps [of h 0])
  moreover have "dll (list_add_tail ?p h ?t) h [?p]" using lh.rep_append_end [OF d, of ?p] h by simp
  moreover have "page_down (b + n) \<le> ?p" using page_down_props(1) [of "b + n"] range(2) by simp
  ultimately show ?thesis using range(2) by simp
qed

theorem page_alloc_init_subpage_witness:
  "\<exists>s'. page_alloc_init 8 0x1100 0x100 (INIT_LIST_HEAD 8 page_demo) = Some s' \<and> dll s' 8 [0x2000] \<and> pend s' 0x2000 \<le> 0x2000"
proof -
  have ok: "page_ok (INIT_LIST_HEAD 8 page_demo) 8 []"
    by (simp add: page_ok_def dll_def INIT_LIST_HEAD_def)
  have up: "page_up 0x1100 = 0x2000" by (simp add: page_up_def PAGE_SIZE_def)
  from page_alloc_init_subpage [OF ok, of "0x1100" "0x100"] show ?thesis unfolding up by simp
qed

end
