(* ===== verification/Mutex.thy ===== *)
theory Mutex
  imports Prelude
begin

text \<open>
  The contract of a lock that several CPUs compete for, as a transition system: the CPUs take
  atomic steps in any order, and at most one of them owns the lock. The implementations are
  the three spinlocks of the firmware.
\<close>

locale mutex =
  fixes init :: "'s \<Rightarrow> bool"
    and step :: "'s \<Rightarrow> 's \<Rightarrow> bool"
    and owns :: "'s \<Rightarrow> nat \<Rightarrow> bool"
    and inv :: "'s \<Rightarrow> bool"
  assumes inv_init: "init s \<Longrightarrow> inv s"
    and inv_step: "inv s \<Longrightarrow> step s s' \<Longrightarrow> inv s'"
    and inv_owns: "inv s \<Longrightarrow> owns s t \<Longrightarrow> owns s u \<Longrightarrow> t = u"
begin

lemma reach_inv: "step\<^sup>*\<^sup>* s s' \<Longrightarrow> init s \<Longrightarrow> inv s'"
  by (induction rule: rtranclp_induct) (auto intro: inv_init inv_step)

lemma mutual_exclusion: "init s \<Longrightarrow> step\<^sup>*\<^sup>* s s' \<Longrightarrow> owns s' t \<Longrightarrow> owns s' u \<Longrightarrow> t = u"
  using reach_inv inv_owns by blast

end

end
