(* ===== verification/Ticket_Lock.thy ===== *)
theory Ticket_Lock
  imports Mutex
begin

text \<open>
  The spinlocks of \<open>arch/riscv/include/asm/spinlock.h\<close>: the ticket lock and the raw lock. A
  step of a CPU is one atomic access to the lock; a loop that spins is a step that is only
  enabled when the loop ends. Memory accesses are sequentially consistent, so the fences of the
  code have no counterpart.
\<close>

section \<open>Ticket lock\<close>

text \<open>
  \<open>tkt\<close> is the local variable \<open>t\<close> of a CPU. \<open>Spin\<close> is the loop of \<open>smp_hw_spin_lock\<close>, \<open>TryRead\<close>
  and \<open>TryUndo\<close> are the two accesses of \<open>smp_hw_spin_trylock\<close> behind its increment.
\<close>

datatype tpc = Idle | Spin | TryRead | TryUndo | Critical

record ticket_lock =
  owner :: u32
  tnext :: u32
  tkt :: "nat \<Rightarrow> u32"
  tpc :: "nat \<Rightarrow> tpc"

definition goto :: "nat \<Rightarrow> tpc \<Rightarrow> ticket_lock \<Rightarrow> ticket_lock" where
  "goto c p s = s\<lparr>tpc := (tpc s)(c := p)\<rparr>"

definition take_ticket :: "nat \<Rightarrow> tpc \<Rightarrow> ticket_lock \<Rightarrow> ticket_lock" where
  "take_ticket c p s = goto c p (s\<lparr>tnext := tnext s + 1, tkt := (tkt s)(c := tnext s + 1)\<rparr>)"

definition ticket_matched :: "u32 \<Rightarrow> u32 \<Rightarrow> bool" where
  "ticket_matched t o' \<longleftrightarrow> t = o'"

definition spin_locked :: "ticket_lock \<Rightarrow> bool" where
  "spin_locked s \<longleftrightarrow> \<not> ticket_matched (tnext s) (owner s)"

text \<open>The accesses of a CPU; \<open>None\<close> when it keeps spinning.\<close>

definition lock_begin :: "nat \<Rightarrow> ticket_lock \<Rightarrow> ticket_lock" where
  "lock_begin c s = take_ticket c Spin s"

definition lock_spin :: "nat \<Rightarrow> ticket_lock \<Rightarrow> ticket_lock option" where
  "lock_spin c s = (if ticket_matched (tkt s c - 1) (owner s) then Some (goto c Critical s) else None)"

definition unlock :: "nat \<Rightarrow> ticket_lock \<Rightarrow> ticket_lock" where
  "unlock c s = goto c Idle (s\<lparr>owner := owner s + 1\<rparr>)"

definition try_begin :: "nat \<Rightarrow> ticket_lock \<Rightarrow> ticket_lock" where
  "try_begin c s = take_ticket c TryRead s"

definition try_read :: "nat \<Rightarrow> ticket_lock \<Rightarrow> ticket_lock" where
  "try_read c s = (if ticket_matched (tkt s c - 1) (owner s) then goto c Critical s else goto c TryUndo s)"

definition try_undo :: "nat \<Rightarrow> ticket_lock \<Rightarrow> ticket_lock" where
  "try_undo c s = goto c Idle (s\<lparr>tnext := tnext s - 1\<rparr>)"

inductive ticket_step :: "nat \<Rightarrow> ticket_lock \<Rightarrow> ticket_lock \<Rightarrow> bool" for n where
  lock: "c < n \<Longrightarrow> tpc s c = Idle \<Longrightarrow> ticket_step n s (lock_begin c s)"
| spin: "c < n \<Longrightarrow> tpc s c = Spin \<Longrightarrow> lock_spin c s = Some s' \<Longrightarrow> ticket_step n s s'"
| unlock: "c < n \<Longrightarrow> tpc s c = Critical \<Longrightarrow> ticket_step n s (unlock c s)"
| trylock: "c < n \<Longrightarrow> tpc s c = Idle \<Longrightarrow> ticket_step n s (try_begin c s)"
| read: "c < n \<Longrightarrow> tpc s c = TryRead \<Longrightarrow> ticket_step n s (try_read c s)"
| undo: "c < n \<Longrightarrow> tpc s c = TryUndo \<Longrightarrow> ticket_step n s (try_undo c s)"

definition ticket_init :: "ticket_lock \<Rightarrow> bool" where
  "ticket_init s \<longleftrightarrow> owner s = 0 \<and> tnext s = 0 \<and> tpc s = (\<lambda>_. Idle)"

definition ticket_owns :: "nat \<Rightarrow> ticket_lock \<Rightarrow> nat \<Rightarrow> bool" where
  "ticket_owns n s c \<longleftrightarrow> c < n \<and> tpc s c = Critical"

subsection \<open>Invariant\<close>

text \<open>
  The tickets that are out, as distances from the one that is served. A failed \<open>trylock\<close> may
  leave a hole in them, behind which a ticket may be out twice, but below the first hole
  \<open>k\<close> every ticket is out exactly once.
\<close>

definition busy :: "nat \<Rightarrow> ticket_lock \<Rightarrow> nat set" where
  "busy n s = {c. c < n \<and> tpc s c \<noteq> Idle}"

definition dist :: "ticket_lock \<Rightarrow> nat \<Rightarrow> nat" where
  "dist s c = unat (tkt s c - 1 - owner s)"

definition once :: "('a \<Rightarrow> nat) \<Rightarrow> 'a set \<Rightarrow> nat \<Rightarrow> bool" where
  "once f B k \<longleftrightarrow> {..<k} \<subseteq> f ` B \<and> k \<notin> f ` B \<and> inj_on f {c \<in> B. f c < k}"

definition ticket_inv :: "nat \<Rightarrow> ticket_lock \<Rightarrow> bool" where
  "ticket_inv n s \<longleftrightarrow> n < 2 ^ 32 \<and> tnext s = owner s + of_nat (card (busy n s)) \<and>
     (\<forall>c. ticket_owns n s c \<longrightarrow> dist s c = 0) \<and> (\<exists>k. once (dist s) (busy n s) k)"

lemma once_cong: "(\<And>c. c \<in> B \<Longrightarrow> f c = g c) \<Longrightarrow> once f B k = once g B k"
proof -
  assume eq: "\<And>c. c \<in> B \<Longrightarrow> f c = g c"
  then have "f ` B = g ` B" "{c \<in> B. f c < k} = {c \<in> B. g c < k}" by (auto intro!: image_cong)
  moreover have "inj_on f {c \<in> B. g c < k} = inj_on g {c \<in> B. g c < k}"
    by (rule inj_on_cong) (simp add: eq)
  ultimately show ?thesis by (simp add: once_def)
qed

lemma once_inj: "once f B k \<Longrightarrow> c \<in> B \<Longrightarrow> c' \<in> B \<Longrightarrow> f c = f c' \<Longrightarrow> f c < k \<Longrightarrow> c = c'"
  by (simp add: once_def inj_on_def)

lemma once_card:
  assumes o: "once f B k" and fin: "finite B"
  shows "k \<le> card B" "k = card B \<Longrightarrow> c \<in> B \<Longrightarrow> f c < k"
proof -
  have sub: "{..<k} \<subseteq> f ` B" using o by (simp add: once_def)
  then have "card {..<k} \<le> card (f ` B)" using fin by (intro card_mono) auto
  also have "\<dots> \<le> card B" using fin by (rule card_image_le)
  finally show "k \<le> card B" by simp
  assume k: "k = card B" and c: "c \<in> B"
  have "card (f ` B) \<le> card {..<k}" using card_image_le [OF fin, of f] k by simp
  then have "f ` B = {..<k}" using sub card_seteq [of "f ` B" "{..<k}"] fin by auto
  then show "f c < k" using c by auto
qed

lemma once_add:
  assumes o: "once f B k" and fin: "finite B" and c: "c \<notin> B" "f c = card B"
  shows "\<exists>k'. once f (insert c B) k'"
proof (cases "k = card B")
  case True
  have lt: "f x < k" if "x \<in> B" for x using once_card(2) [OF o fin True that] .
  have "{..<Suc k} \<subseteq> f ` insert c B" "Suc k \<notin> f ` insert c B"
    using o c True lt by (auto simp: once_def less_Suc_eq) (metis less_SucI less_irrefl)?
  moreover have "inj_on f (insert c B)"
    using o c True lt by (auto simp: once_def inj_on_def) (metis less_irrefl)+
  then have "inj_on f {x \<in> insert c B. f x < Suc k}" by (rule inj_on_subset) auto
  ultimately have "once f (insert c B) (Suc k)" by (simp add: once_def)
  then show ?thesis ..
next
  case False
  then have "k < card B" using once_card(1) [OF o fin] by simp
  then have "once f (insert c B) k" using o c by (auto simp: once_def inj_on_def)
  then show ?thesis ..
qed

lemma once_restrict:
  assumes o: "once f B k" and C: "C \<subseteq> B" "j \<le> k" "\<And>x. x \<in> B \<Longrightarrow> f x < j \<Longrightarrow> x \<in> C" "j \<notin> f ` C"
  shows "once f C j"
  unfolding once_def
proof (intro conjI C(4))
  show "{..<j} \<subseteq> f ` C"
  proof
    fix d assume d: "d \<in> {..<j}"
    then have "d \<in> f ` B" using o C(2) by (auto simp: once_def)
    then obtain x where "d = f x" "x \<in> B" by (rule imageE)
    then show "d \<in> f ` C" using C(3) d by simp
  qed
  show "inj_on f {c \<in> C. f c < j}"
    by (rule inj_on_subset [of f "{c \<in> B. f c < k}"]) (use o C in \<open>auto simp: once_def\<close>)
qed

lemma once_remove:
  assumes o: "once f B k" and c: "c \<in> B"
  shows "\<exists>k'. once f (B - {c}) k'"
proof (cases "f c < k")
  case True
  have "f x \<noteq> f c" if "x \<in> B - {c}" for x using once_inj [OF o, of x c] that c True by auto
  then have "f c \<notin> f ` (B - {c})" by force
  then have "once f (B - {c}) (f c)" using True by (intro once_restrict [OF o]) auto
  then show ?thesis ..
next
  case False
  have "once f (B - {c}) k" using False o by (intro once_restrict [OF o]) (auto simp: once_def)
  then show ?thesis ..
qed

text \<open>Serving the next ticket moves all of them one closer.\<close>

lemma once_shift:
  assumes o: "once f B k" and c: "c \<in> B" "f c = 0" and g: "\<And>x. x \<in> B - {c} \<Longrightarrow> f x \<noteq> 0 \<Longrightarrow> g x = f x - 1"
  shows "\<exists>k'. once g (B - {c}) k'"
proof -
  have k: "0 < k" using o c by (cases k) (auto simp: once_def)
  have nz: "f x \<noteq> 0" if "x \<in> B - {c}" for x using once_inj [OF o, of x c] that c k by auto
  have f: "f x = Suc (g x)" if "x \<in> B - {c}" for x using g [OF that nz [OF that]] nz [OF that] by simp
  have "once g (B - {c}) (k - 1)" unfolding once_def
  proof (intro conjI)
    show "{..<k - 1} \<subseteq> g ` (B - {c})"
    proof
      fix d assume "d \<in> {..<k - 1}"
      then have "Suc d \<in> f ` B" using o by (auto simp: once_def)
      then obtain x where x: "x \<in> B" "f x = Suc d" by auto
      then have "x \<in> B - {c}" using c by auto
      then show "d \<in> g ` (B - {c})" using f [of x] x(2) by (intro image_eqI [of _ _ x]) auto
    qed
    show "k - 1 \<notin> g ` (B - {c})"
    proof
      assume "k - 1 \<in> g ` (B - {c})"
      then obtain x where "k - 1 = g x" "x \<in> B - {c}" by (rule imageE)
      then have "f x = k" "x \<in> B" using f [of x] k by auto
      then show False using o by (auto simp: once_def)
    qed
    show "inj_on g {x \<in> B - {c}. g x < k - 1}"
    proof (rule inj_onI)
      fix x y assume "x \<in> {x \<in> B - {c}. g x < k - 1}" "y \<in> {x \<in> B - {c}. g x < k - 1}" "g x = g y"
      then show "x = y" using once_inj [OF o, of x y] f [of x] f [of y] by auto
    qed
  qed
  then show ?thesis ..
qed

lemma goto_simps [simp]:
  "owner (goto c p s) = owner s" "tnext (goto c p s) = tnext s" "tkt (goto c p s) = tkt s"
  "tpc (goto c p s) = (tpc s)(c := p)" "dist (goto c p s) = dist s"
  by (simp_all add: goto_def dist_def fun_eq_iff)

lemma take_ticket_simps [simp]:
  "owner (take_ticket c p s) = owner s" "tnext (take_ticket c p s) = tnext s + 1"
  "tpc (take_ticket c p s) = (tpc s)(c := p)" "tkt (take_ticket c p s) = (tkt s)(c := tnext s + 1)"
  by (simp_all add: take_ticket_def)

lemma busy_simps:
  "c < n \<Longrightarrow> p \<noteq> Idle \<Longrightarrow> tpc s' = (tpc s)(c := p) \<Longrightarrow> busy n s' = insert c (busy n s)"
  "tpc s' = (tpc s)(c := Idle) \<Longrightarrow> busy n s' = busy n s - {c}"
  by (auto simp: busy_def)

lemma busy_finite [simp]: "finite (busy n s)" and busy_card: "card (busy n s) \<le> n"
proof -
  have sub: "busy n s \<subseteq> {..<n}" by (auto simp: busy_def)
  show "finite (busy n s)" using sub by (rule finite_subset) simp
  show "card (busy n s) \<le> n" using card_mono [OF _ sub] by simp
qed

lemma unat_card: "n < 2 ^ 32 \<Longrightarrow> unat (of_nat (card (busy n s)) :: u32) = card (busy n s)"
  using busy_card [of n s] by (simp add: unsigned_of_nat take_bit_nat_eq_self)

lemma dist_take:
  assumes "n < 2 ^ 32" "tnext s = owner s + of_nat (card (busy n s))"
  shows "dist (take_ticket c p s) c = card (busy n s)" "x \<noteq> c \<Longrightarrow> dist (take_ticket c p s) x = dist s x"
  using unat_card [OF assms(1), of s] assms(2) by (simp_all add: dist_def)

lemma dist_next: "owner s' = owner s + 1 \<Longrightarrow> tkt s' = tkt s \<Longrightarrow> dist s x \<noteq> 0 \<Longrightarrow> dist s' x = dist s x - 1"
proof -
  assume a: "owner s' = owner s + 1" "tkt s' = tkt s" "dist s x \<noteq> 0"
  have "tkt s' x - 1 - owner s' = (tkt s x - 1 - owner s) - 1" using a by (simp add: algebra_simps)
  moreover have "tkt s x - 1 - owner s \<noteq> 0" using a(3) by (auto simp: dist_def)
  ultimately show ?thesis unfolding dist_def by (metis unat_minus_one)
qed

lemma matched_dist: "ticket_matched (tkt s c - 1) (owner s) \<longleftrightarrow> dist s c = 0"
  by (simp add: ticket_matched_def dist_def unat_eq_0)

subsection \<open>Preservation\<close>

lemma take_inv:
  assumes inv: "ticket_inv n s" and c: "c < n" "tpc s c = Idle" and p: "p \<noteq> Idle" "p \<noteq> Critical"
  shows "ticket_inv n (take_ticket c p s)"
proof -
  let ?t = "take_ticket c p s"
  have n: "n < 2 ^ 32" and nx: "tnext s = owner s + of_nat (card (busy n s))" using inv by (auto simp: ticket_inv_def)
  have B: "busy n ?t = insert c (busy n s)" using c(1) p(1) by (intro busy_simps(1)) simp_all
  have nin: "c \<notin> busy n s" using c by (simp add: busy_def)
  note d = dist_take [OF n nx, where c = c and p = p]
  obtain k where "once (dist s) (busy n s) k" using inv by (auto simp: ticket_inv_def)
  moreover have "dist ?t x = dist s x" if "x \<in> busy n s" for x using that nin by (intro d(2)) auto
  ultimately have "once (dist ?t) (busy n s) k" using once_cong [of "busy n s" "dist ?t" "dist s" k] by simp
  from once_add [OF this busy_finite nin d(1)] have "\<exists>k. once (dist ?t) (busy n ?t) k" unfolding B .
  moreover have "dist ?t x = 0" if "ticket_owns n ?t x" for x
    using that p inv d(2) [of x] by (auto simp: ticket_owns_def ticket_inv_def split: if_splits)
  moreover have "tnext ?t = owner ?t + of_nat (card (busy n ?t))" using nin by (simp add: B nx)
  ultimately show ?thesis using n by (simp add: ticket_inv_def)
qed

lemma goto_inv:
  assumes inv: "ticket_inv n s" and c: "c < n" "tpc s c \<noteq> Idle" and p: "p \<noteq> Idle" "p = Critical \<longrightarrow> dist s c = 0"
  shows "ticket_inv n (goto c p s)"
proof -
  have "busy n (goto c p s) = busy n s" using c p(1) by (auto simp: busy_def)
  then show ?thesis using inv p by (auto simp: ticket_inv_def ticket_owns_def split: if_splits)
qed

lemma leave_card:
  assumes "c \<in> busy n s"
  shows "(of_nat (card (busy n s - {c})) :: u32) = of_nat (card (busy n s)) - 1"
proof -
  have "card (busy n s) = Suc (card (busy n s - {c}))" by (rule card_Suc_Diff1 [OF busy_finite assms, symmetric])
  then show ?thesis by simp
qed

lemma undo_inv:
  assumes inv: "ticket_inv n s" and c: "c < n" "tpc s c = TryUndo"
  shows "ticket_inv n (try_undo c s)"
proof -
  let ?t = "try_undo c s"
  have B: "busy n ?t = busy n s - {c}" by (rule busy_simps(2)) (simp add: try_undo_def)
  have cb: "c \<in> busy n s" using c by (simp add: busy_def)
  have D: "dist ?t = dist s" by (simp add: try_undo_def) (simp add: dist_def fun_eq_iff)
  have "\<exists>k. once (dist ?t) (busy n ?t) k"
    unfolding B D using inv once_remove [OF _ cb, of "dist s"] by (auto simp: ticket_inv_def)
  moreover have "tnext ?t = owner ?t + of_nat (card (busy n ?t))"
    unfolding B leave_card [OF cb] using inv by (simp add: try_undo_def ticket_inv_def)
  ultimately show ?thesis
    using inv D by (auto simp: ticket_inv_def ticket_owns_def try_undo_def split: if_splits)
qed

lemma inv_owner_unique:
  assumes inv: "ticket_inv n s" and c: "ticket_owns n s c" "x \<in> busy n s" "dist s x = 0"
  shows "x = c"
proof -
  obtain k where o: "once (dist s) (busy n s) k" using inv by (auto simp: ticket_inv_def)
  have cb: "c \<in> busy n s" "dist s c = 0" using c(1) inv by (auto simp: busy_def ticket_owns_def ticket_inv_def)
  then have "0 < k" using o by (cases k) (auto simp: once_def image_iff)
  then show ?thesis using once_inj [OF o c(2) cb(1)] c(3) cb(2) by simp
qed

lemma unlock_inv:
  assumes inv: "ticket_inv n s" and c: "c < n" "tpc s c = Critical"
  shows "ticket_inv n (unlock c s)"
proof -
  let ?t = "unlock c s"
  have B: "busy n ?t = busy n s - {c}" by (rule busy_simps(2)) (simp add: unlock_def)
  have ow: "ticket_owns n s c" using c by (simp add: ticket_owns_def)
  have cb: "c \<in> busy n s" "dist s c = 0" using c ow inv by (auto simp: busy_def ticket_inv_def)
  obtain k where o: "once (dist s) (busy n s) k" using inv by (auto simp: ticket_inv_def)
  have D: "dist ?t x = dist s x - 1" if "dist s x \<noteq> 0" for x
    by (rule dist_next [OF _ _ that]) (simp_all add: unlock_def)
  have "\<exists>k. once (dist ?t) (busy n ?t) k"
    unfolding B by (rule once_shift [OF o cb]) (rule D)
  moreover have "tnext ?t = owner ?t + of_nat (card (busy n ?t))"
    unfolding B leave_card [OF cb(1)] using inv by (simp add: unlock_def ticket_inv_def)
  moreover have "\<not> ticket_owns n ?t x" for x
  proof
    assume x: "ticket_owns n ?t x"
    then have "ticket_owns n s x" "x \<noteq> c" by (auto simp: ticket_owns_def unlock_def split: if_splits)
    then show False using inv_owner_unique [OF inv ow, of x] inv by (auto simp: ticket_inv_def busy_def ticket_owns_def)
  qed
  ultimately show ?thesis using inv by (simp add: ticket_inv_def)
qed

lemma ticket_inv_step: "ticket_inv n s \<Longrightarrow> ticket_step n s s' \<Longrightarrow> ticket_inv n s'"
  by (erule ticket_step.cases)
    (auto simp: lock_begin_def try_begin_def lock_spin_def try_read_def matched_dist
      intro: take_inv goto_inv unlock_inv undo_inv split: if_splits)

lemma ticket_inv_init:
  assumes "n < 2 ^ 32" "ticket_init s" shows "ticket_inv n s"
proof -
  have "busy n s = {}" using assms(2) by (simp add: busy_def ticket_init_def)
  then have "once (dist s) (busy n s) 0" by (simp add: once_def)
  then show ?thesis using assms \<open>busy n s = {}\<close> by (auto simp: ticket_inv_def ticket_init_def ticket_owns_def)
qed

interpretation tk: mutex "\<lambda>s. n < 2 ^ 32 \<and> ticket_init s" "ticket_step n" "ticket_owns n" "ticket_inv n" for n
proof
  show "n < 2 ^ 32 \<and> ticket_init s \<Longrightarrow> ticket_inv n s" for s by (simp add: ticket_inv_init)
  show "ticket_inv n s \<Longrightarrow> ticket_step n s s' \<Longrightarrow> ticket_inv n s'" for s s' by (rule ticket_inv_step)
  show "ticket_inv n s \<Longrightarrow> ticket_owns n s c \<Longrightarrow> ticket_owns n s c' \<Longrightarrow> c = c'" for s c c'
    using inv_owner_unique [of n s c' c] by (auto simp: ticket_inv_def busy_def ticket_owns_def)
qed

text \<open>What a step of any CPU does to the ticket of a CPU that waits.\<close>

lemma spin_dist:
  assumes inv: "ticket_inv n s" and c: "c < n" "tpc s c = Spin" and step: "ticket_step n s s'"
  shows "dist s' c = (if owner s' = owner s then dist s c else dist s c - 1)"
  using step
proof cases
  case (lock d)
  then have "c \<noteq> d" using c by auto
  then show ?thesis using lock dist_take(2) [of n s c d] inv by (simp add: lock_begin_def ticket_inv_def)
next
  case (spin d)
  then show ?thesis by (auto simp: lock_spin_def split: if_splits)
next
  case (unlock d)
  then have ow: "ticket_owns n s d" "c \<noteq> d" using c by (auto simp: ticket_owns_def)
  have "c \<in> busy n s" using c by (simp add: busy_def)
  then have "dist s c \<noteq> 0" using inv_owner_unique [OF inv ow(1), of c] ow(2) by auto
  then show ?thesis using unlock dist_next [of s' s c] by (simp add: unlock_def)
next
  case (trylock d)
  then have "c \<noteq> d" using c by auto
  then show ?thesis using trylock dist_take(2) [of n s c d] inv by (simp add: try_begin_def ticket_inv_def)
next
  case (read d)
  then show ?thesis by (auto simp: try_read_def split: if_splits)
next
  case (undo d)
  then show ?thesis by (simp add: try_undo_def) (simp add: dist_def)
qed

section \<open>Raw lock\<close>

text \<open>A single word, taken by an atomic swap; \<open>RSwap\<close> has seen the lock free and is about to swap.\<close>

datatype rpc = RIdle | RRead | RSwap | RTry | RCritical

record raw_lock =
  rlock :: u32
  rpc :: "nat \<Rightarrow> rpc"

definition rgoto :: "nat \<Rightarrow> rpc \<Rightarrow> raw_lock \<Rightarrow> raw_lock" where
  "rgoto c p s = s\<lparr>rpc := (rpc s)(c := p)\<rparr>"

definition raw_locked :: "raw_lock \<Rightarrow> bool" where
  "raw_locked s \<longleftrightarrow> rlock s \<noteq> 0"

text \<open>The swap of \<open>smp_hw_spin_trylock\<close>, with the place to go on when the lock was taken.\<close>

definition raw_trylock :: "rpc \<Rightarrow> nat \<Rightarrow> raw_lock \<Rightarrow> raw_lock" where
  "raw_trylock retry c s = (let busy = rlock s; s = s\<lparr>rlock := 1\<rparr>
     in if busy = 0 then rgoto c RCritical s else rgoto c retry s)"

definition raw_read :: "nat \<Rightarrow> raw_lock \<Rightarrow> raw_lock option" where
  "raw_read c s = (if raw_locked s then None else Some (rgoto c RSwap s))"

definition raw_unlock :: "nat \<Rightarrow> raw_lock \<Rightarrow> raw_lock" where
  "raw_unlock c s = rgoto c RIdle (s\<lparr>rlock := 0\<rparr>)"

inductive raw_step :: "nat \<Rightarrow> raw_lock \<Rightarrow> raw_lock \<Rightarrow> bool" for n where
  raw_lock: "c < n \<Longrightarrow> rpc s c = RIdle \<Longrightarrow> raw_step n s (rgoto c RRead s)"
| raw_read: "c < n \<Longrightarrow> rpc s c = RRead \<Longrightarrow> raw_read c s = Some s' \<Longrightarrow> raw_step n s s'"
| raw_swap: "c < n \<Longrightarrow> rpc s c = RSwap \<Longrightarrow> raw_step n s (raw_trylock RRead c s)"
| raw_trylock: "c < n \<Longrightarrow> rpc s c = RIdle \<Longrightarrow> raw_step n s (rgoto c RTry s)"
| raw_try: "c < n \<Longrightarrow> rpc s c = RTry \<Longrightarrow> raw_step n s (raw_trylock RIdle c s)"
| raw_unlock: "c < n \<Longrightarrow> rpc s c = RCritical \<Longrightarrow> raw_step n s (raw_unlock c s)"

definition raw_init :: "raw_lock \<Rightarrow> bool" where
  "raw_init s \<longleftrightarrow> rlock s = 0 \<and> rpc s = (\<lambda>_. RIdle)"

definition raw_owns :: "nat \<Rightarrow> raw_lock \<Rightarrow> nat \<Rightarrow> bool" where
  "raw_owns n s c \<longleftrightarrow> c < n \<and> rpc s c = RCritical"

definition raw_inv :: "nat \<Rightarrow> raw_lock \<Rightarrow> bool" where
  "raw_inv n s \<longleftrightarrow> (rlock s = 0 \<longrightarrow> (\<forall>c. \<not> raw_owns n s c)) \<and> (\<forall>c d. raw_owns n s c \<longrightarrow> raw_owns n s d \<longrightarrow> c = d)"

lemma raw_inv_step: "raw_inv n s \<Longrightarrow> raw_step n s s' \<Longrightarrow> raw_inv n s'"
  by (erule raw_step.cases)
    (auto simp: raw_inv_def raw_owns_def rgoto_def raw_read_def raw_trylock_def raw_unlock_def Let_def
      split: if_splits)

interpretation rw: mutex raw_init "raw_step n" "raw_owns n" "raw_inv n" for n
proof
  show "raw_init s \<Longrightarrow> raw_inv n s" for s by (simp add: raw_init_def raw_inv_def raw_owns_def)
  show "raw_inv n s \<Longrightarrow> raw_step n s s' \<Longrightarrow> raw_inv n s'" for s s' by (rule raw_inv_step)
  show "raw_inv n s \<Longrightarrow> raw_owns n s c \<Longrightarrow> raw_owns n s d \<Longrightarrow> c = d" for s c d
    by (auto simp: raw_inv_def)
qed

section \<open>A ticket that is lost\<close>

text \<open>The CPU \<open>w\<close> waits, and no ticket that is out or will be drawn is the one that is served.\<close>

definition lost :: "nat \<Rightarrow> nat \<Rightarrow> ticket_lock \<Rightarrow> bool" where
  "lost n w s \<longleftrightarrow> n < 2 ^ 32 \<and> w < n \<and> tpc s w = Spin \<and> tnext s = owner s + of_nat (card (busy n s)) \<and>
     (\<forall>c\<in>busy n s. dist s c \<noteq> 0) \<and> (\<forall>c. \<not> ticket_owns n s c)"

lemma lost_take:
  assumes l: "lost n w s" and c: "c < n" "tpc s c = Idle" and p: "p \<noteq> Idle" "p \<noteq> Critical"
  shows "lost n w (take_ticket c p s)"
proof -
  let ?t = "take_ticket c p s"
  have n: "n < 2 ^ 32" "tnext s = owner s + of_nat (card (busy n s))" using l by (auto simp: lost_def)
  have B: "busy n ?t = insert c (busy n s)" using c(1) p(1) by (intro busy_simps(1)) simp_all
  have "w \<in> busy n s" using l by (simp add: lost_def busy_def)
  then have pos: "card (busy n s) \<noteq> 0" by auto
  have cw: "c \<notin> busy n s" "c \<noteq> w" using c l by (auto simp: busy_def lost_def)
  have "dist ?t x \<noteq> 0" if "x \<in> busy n ?t" for x
  proof (cases "x = c")
    case True
    then show ?thesis using dist_take(1) [OF n, where c = c and p = p] pos by simp
  next
    case False
    then show ?thesis using dist_take(2) [OF n False, where p = p] l that unfolding B by (auto simp: lost_def)
  qed
  moreover from cw have "tnext ?t = owner ?t + of_nat (card (busy n ?t))" by (simp add: B n(2))
  ultimately show ?thesis
    using l p cw(2) by (auto simp: lost_def ticket_owns_def)
qed

lemma lost_goto:
  assumes "lost n w s" "c < n" "c \<noteq> w" "tpc s c \<noteq> Idle" "p \<noteq> Idle" "p \<noteq> Critical"
  shows "lost n w (goto c p s)"
proof -
  have "busy n (goto c p s) = busy n s" using assms by (auto simp: busy_def)
  then show ?thesis using assms by (auto simp: lost_def ticket_owns_def)
qed

lemma lost_undo:
  assumes l: "lost n w s" and c: "c < n" "tpc s c = TryUndo"
  shows "lost n w (try_undo c s)"
proof -
  let ?t = "try_undo c s"
  have B: "busy n ?t = busy n s - {c}" by (rule busy_simps(2)) (simp add: try_undo_def)
  have cb: "c \<in> busy n s" "c \<noteq> w" using c l by (auto simp: busy_def lost_def)
  have D: "dist ?t = dist s" by (simp add: try_undo_def) (simp add: dist_def fun_eq_iff)
  have "tnext ?t = owner ?t + of_nat (card (busy n ?t))"
    unfolding B leave_card [OF cb(1)] using l by (simp add: try_undo_def lost_def)
  then show ?thesis
    using l cb D B by (auto simp: lost_def ticket_owns_def try_undo_def)
qed

lemma lost_step:
  assumes l: "lost n w s" and step: "ticket_step n s s'"
  shows "lost n w s'"
  using step
proof cases
  case (spin c)
  then have "dist s c \<noteq> 0" using l by (auto simp: lost_def busy_def)
  then show ?thesis using spin by (simp add: lock_spin_def matched_dist)
next
  case (read c)
  then have "dist s c \<noteq> 0" "c \<noteq> w" using l by (auto simp: lost_def busy_def)
  then show ?thesis using read l by (auto simp: try_read_def matched_dist intro: lost_goto)
next
  case (unlock c)
  then show ?thesis using l by (auto simp: lost_def ticket_owns_def)
qed (use l in \<open>auto simp: lock_begin_def try_begin_def intro: lost_take lost_undo\<close>)

text \<open>A failed \<open>trylock\<close> of CPU 1 while CPU 0 owns the lock and CPU 2 draws the ticket behind it.\<close>

definition lost_state :: "ticket_lock \<Rightarrow> ticket_lock" where
  "lost_state s0 = try_undo 1 (unlock 0 (lock_begin 2 (try_read 1 (try_begin 1 (goto 0 Critical (lock_begin 0 s0))))))"

lemmas op_defs = lock_begin_def try_begin_def try_read_def unlock_def try_undo_def lock_spin_def ticket_matched_def

lemma lost_state_reached:
  assumes init: "ticket_init s" and n: "3 \<le> n"
  shows "(ticket_step n)\<^sup>*\<^sup>* s (lost_state s)"
proof -
  let ?s1 = "lock_begin 0 s" let ?s2 = "goto 0 Critical ?s1" let ?s3 = "try_begin 1 ?s2"
  let ?s4 = "try_read 1 ?s3" let ?s5 = "lock_begin 2 ?s4" let ?s6 = "unlock 0 ?s5"
  have s: "owner s = 0" "tnext s = 0" "tpc s = (\<lambda>_. Idle)" using init by (auto simp: ticket_init_def)
  have "ticket_step n s ?s1" using n s by (intro ticket_step.lock) auto
  moreover have "ticket_step n ?s1 ?s2" using n s by (intro ticket_step.spin [of 0]) (auto simp: op_defs)
  moreover have "ticket_step n ?s2 ?s3" using n s by (intro ticket_step.trylock) (auto simp: op_defs)
  moreover have "ticket_step n ?s3 ?s4" using n s by (intro ticket_step.read) (auto simp: op_defs)
  moreover have "ticket_step n ?s4 ?s5" using n s by (intro ticket_step.lock) (auto simp: op_defs)
  moreover have "ticket_step n ?s5 ?s6" using n s by (intro ticket_step.unlock) (auto simp: op_defs)
  moreover have "ticket_step n ?s6 (lost_state s)"
    unfolding lost_state_def using n s by (intro ticket_step.undo) (auto simp: op_defs)
  ultimately show ?thesis by (meson converse_rtranclp_into_rtranclp rtranclp.rtrancl_refl)
qed

lemma lost_state_lost:
  assumes init: "ticket_init s" and n: "3 \<le> n" "n < 2 ^ 32"
  shows "lost n 2 (lost_state s)"
proof -
  have s: "owner s = 0" "tnext s = 0" "tpc s = (\<lambda>_. Idle)" using init by (auto simp: ticket_init_def)
  let ?t = "lost_state s"
  have t: "tpc ?t = (\<lambda>_. Idle)(2 := Spin)" "owner ?t = 1" "tnext ?t = 2" "tkt ?t 2 = 3"
    using s by (auto simp: lost_state_def op_defs fun_eq_iff)
  have B: "busy n ?t = {2}" using n by (auto simp: busy_def t)
  have "dist ?t 2 = 1" by (simp add: dist_def t)
  then show ?thesis using n by (auto simp: lost_def B t ticket_owns_def)
qed

section \<open>Properties\<close>

text \<open>
  C11: mutual exclusion. With fewer than \<open>2 ^ 32\<close> CPUs, and whatever the order in which they
  lock, try to lock and unlock, at most one CPU owns the ticket lock, though the counters wrap
  around; and a CPU that waits is never overtaken: no step of another CPU moves its ticket
  away from the one served, and every release brings it one closer. The raw lock has at most one
  owner as well.
\<close>

theorem riscv_lock_mutex:
  assumes n: "n < 2 ^ 32" and init: "ticket_init s" "raw_init r"
    and reach: "(ticket_step n)\<^sup>*\<^sup>* s s'" "(raw_step n)\<^sup>*\<^sup>* r r'"
  shows "(\<forall>c d. ticket_owns n s' c \<and> ticket_owns n s' d \<longrightarrow> c = d)
    \<and> (\<forall>c s''. c < n \<and> tpc s' c = Spin \<and> ticket_step n s' s'' \<longrightarrow>
        dist s'' c = (if owner s'' = owner s' then dist s' c else dist s' c - 1))
    \<and> (\<forall>c d. raw_owns n r' c \<and> raw_owns n r' d \<longrightarrow> c = d)"
proof (intro conjI allI impI)
  have inv: "ticket_inv n s'" using tk.reach_inv [OF reach(1)] n init by blast
  show "c = d" if "ticket_owns n s' c \<and> ticket_owns n s' d" for c d
    using tk.mutual_exclusion [OF _ reach(1)] n init that by blast
  show "c = d" if "raw_owns n r' c \<and> raw_owns n r' d" for c d
    using rw.mutual_exclusion [OF init(2) reach(2)] that by blast
  show "dist s'' c = (if owner s'' = owner s' then dist s' c else dist s' c - 1)"
    if "c < n \<and> tpc s' c = Spin \<and> ticket_step n s' s''" for c s''
    using spin_dist [OF inv] that by blast
qed

definition ticket_demo :: ticket_lock where
  "ticket_demo = \<lparr>owner = 0, tnext = 0, tkt = \<lambda>_. 0, tpc = \<lambda>_. Idle\<rparr>"

definition raw_demo :: raw_lock where
  "raw_demo = \<lparr>rlock = 0, rpc = \<lambda>_. RIdle\<rparr>"

lemma demo_init: "ticket_init ticket_demo" "raw_init raw_demo"
  by (simp_all add: ticket_init_def ticket_demo_def raw_init_def raw_demo_def)

theorem riscv_lock_mutex_witness:
  "\<exists>s. (ticket_step 2)\<^sup>*\<^sup>* ticket_demo s \<and> ticket_owns 2 s 0 \<and> (\<forall>c. ticket_owns 2 s c \<longrightarrow> c = 0)"
proof -
  let ?s1 = "lock_begin 0 ticket_demo" let ?s2 = "goto 0 Critical ?s1"
  have "ticket_step 2 ticket_demo ?s1" by (intro ticket_step.lock) (auto simp: ticket_demo_def)
  moreover have "ticket_step 2 ?s1 ?s2"
    by (intro ticket_step.spin [of 0]) (auto simp: op_defs ticket_demo_def)
  ultimately have reach: "(ticket_step 2)\<^sup>*\<^sup>* ticket_demo ?s2" by auto
  have own: "ticket_owns 2 ?s2 0" by (simp add: ticket_owns_def)
  have "c = 0" if "ticket_owns 2 ?s2 c" for c
    using riscv_lock_mutex [of 2, OF _ demo_init reach rtranclp.rtrancl_refl] own that by auto
  then show ?thesis using reach own by blast
qed

text \<open>
  C38: a failed \<open>smp_hw_spin_trylock\<close> can lose a ticket. Its increment of \<open>next\<close> is taken back
  without regard to the tickets drawn in between: if another CPU starts to lock between the
  two, the ticket of the attempt is left out, nobody ever owns the lock again, and the CPU that
  waits spins for ever.
\<close>

theorem ticket_trylock_deadlock:
  assumes "3 \<le> n" "n < 2 ^ 32" "ticket_init s0"
  shows "\<exists>s. (ticket_step n)\<^sup>*\<^sup>* s0 s \<and> (\<forall>s'. (ticket_step n)\<^sup>*\<^sup>* s s' \<longrightarrow>
    tpc s' 2 = Spin \<and> (\<forall>c. \<not> ticket_owns n s' c))"
proof (intro exI conjI allI impI)
  show "(ticket_step n)\<^sup>*\<^sup>* s0 (lost_state s0)" using assms by (intro lost_state_reached)
  fix s' assume "(ticket_step n)\<^sup>*\<^sup>* (lost_state s0) s'"
  then have l: "lost n 2 s'"
    by (induction rule: rtranclp_induct) (use assms in \<open>auto intro: lost_state_lost lost_step\<close>)
  then show "tpc s' 2 = Spin" by (simp add: lost_def)
  show "\<not> ticket_owns n s' c" for c using l by (simp add: lost_def)
qed

theorem ticket_trylock_deadlock_witness:
  "\<exists>s. (ticket_step 3)\<^sup>*\<^sup>* ticket_demo s \<and> (\<forall>s'. (ticket_step 3)\<^sup>*\<^sup>* s s' \<longrightarrow> tpc s' 2 = Spin)"
  using ticket_trylock_deadlock [of 3 ticket_demo] demo_init by auto

end
