(* ===== verification/Qspin_Word.thy ===== *)
theory Qspin_Word
  imports Prelude
begin

text \<open>
  The 32-bit word of the queued spinlock of \<open>include/asm-generic/spinlock.h\<close> and
  \<open>kernel/spinlock.c\<close>, for fewer than \<open>2 ^ 14\<close> CPUs: bits 0 to 7 are the locked byte, bits 8 to
  15 the pending byte, bits 16 and 17 the nesting level and bits 18 to 31 the number of the CPU,
  plus one, at the tail of the queue. \<open>mkval\<close> is the abstract view of the word.
\<close>

unbundle bit_operations_syntax

section \<open>Masks\<close>

definition Q_SET_MASK :: "nat \<Rightarrow> nat \<Rightarrow> u32" where
  "Q_SET_MASK bits offset = push_bit offset (push_bit bits 1 - 1)"

definition Q_LOCKED_MASK :: u32 where "Q_LOCKED_MASK = Q_SET_MASK 8 0"
definition Q_PENDING_MASK :: u32 where "Q_PENDING_MASK = Q_SET_MASK 8 8"
definition Q_TAIL_IDX_MASK :: u32 where "Q_TAIL_IDX_MASK = Q_SET_MASK 2 16"
definition Q_TAIL_CPU_MASK :: u32 where "Q_TAIL_CPU_MASK = Q_SET_MASK 14 18"
definition Q_TAIL_MASK :: u32 where "Q_TAIL_MASK = Q_TAIL_IDX_MASK OR Q_TAIL_CPU_MASK"
definition Q_LOCKED_PENDING_MASK :: u32 where "Q_LOCKED_PENDING_MASK = Q_LOCKED_MASK OR Q_PENDING_MASK"
definition Q_LOCKED_VAL :: u32 where "Q_LOCKED_VAL = push_bit 0 1"
definition Q_PENDING_VAL :: u32 where "Q_PENDING_VAL = push_bit 8 1"

section \<open>Operations on the word\<close>

definition encode_tail :: "nat \<Rightarrow> nat \<Rightarrow> u32" where
  "encode_tail cpu idx = push_bit 18 (of_nat (cpu + 1)) OR push_bit 16 (of_nat idx)"

text \<open>The node of the queue that a tail code stands for: the CPU and its nesting level.\<close>

definition decode_tail :: "u32 \<Rightarrow> nat \<times> nat" where
  "decode_tail tail = (unat (drop_bit 18 tail) - 1, unat (drop_bit 16 (tail AND Q_TAIL_IDX_MASK)))"

text \<open>Stores to the bytes of the word, through the union in the lock.\<close>

definition clear_pending :: "u32 \<Rightarrow> u32" where
  "clear_pending v = v AND NOT Q_PENDING_MASK"

definition clear_pending_set_locked :: "u32 \<Rightarrow> u32" where
  "clear_pending_set_locked v = (v AND NOT Q_LOCKED_PENDING_MASK) OR Q_LOCKED_VAL"

definition set_locked :: "u32 \<Rightarrow> u32" where
  "set_locked v = (v AND NOT Q_LOCKED_MASK) OR Q_LOCKED_VAL"

definition qspin_unlock :: "u32 \<Rightarrow> u32" where
  "qspin_unlock v = v AND NOT Q_LOCKED_MASK"

definition fetch_set_pending :: "u32 \<Rightarrow> u32" where
  "fetch_set_pending v = v OR Q_PENDING_VAL"

text \<open>\<open>xchg_tail\<close> swaps the upper half; the result is the old tail code and the new word.\<close>

definition xchg_tail :: "u32 \<Rightarrow> u32 \<Rightarrow> u32 \<times> u32" where
  "xchg_tail v tail = (push_bit 16 (drop_bit 16 v),
     (v AND Q_LOCKED_PENDING_MASK) OR push_bit 16 (drop_bit 16 tail))"

section \<open>Abstract view\<close>

definition mkval :: "u32 \<Rightarrow> bool \<Rightarrow> bool \<Rightarrow> u32" where
  "mkval t p l = t OR (if p then Q_PENDING_VAL else 0) OR (if l then Q_LOCKED_VAL else 0)"

text \<open>A tail code uses the upper half only.\<close>

definition tailish :: "u32 \<Rightarrow> bool" where
  "tailish t \<longleftrightarrow> (\<forall>i<16. \<not> bit t i)"

named_theorems qbits \<open>bits of the lock word\<close>

lemma Q_SET_MASK_bit [qbits]: "bit (Q_SET_MASK b k) i \<longleftrightarrow> k \<le> i \<and> i < k + b \<and> i < 32"
  by (auto simp: Q_SET_MASK_def bit_simps mask_eq_exp_minus_1 [symmetric])

lemma Q_VAL_bit [qbits]: "bit Q_PENDING_VAL i \<longleftrightarrow> i = 8" "bit Q_LOCKED_VAL i \<longleftrightarrow> i = 0"
  unfolding Q_PENDING_VAL_def Q_LOCKED_VAL_def
  by (auto simp only: bit_push_bit_iff bit_1_iff) simp_all

lemma q_mask_bit [qbits]:
  "bit Q_LOCKED_MASK i \<longleftrightarrow> i < 8" "bit Q_PENDING_MASK i \<longleftrightarrow> 8 \<le> i \<and> i < 16"
  "bit Q_LOCKED_PENDING_MASK i \<longleftrightarrow> i < 16" "bit Q_TAIL_MASK i \<longleftrightarrow> 16 \<le> i \<and> i < 32"
  by (auto simp: Q_LOCKED_MASK_def Q_PENDING_MASK_def Q_LOCKED_PENDING_MASK_def Q_TAIL_MASK_def
      Q_TAIL_IDX_MASK_def Q_TAIL_CPU_MASK_def bit_or_iff Q_SET_MASK_bit)

lemma mkval_bit [qbits]: "bit (mkval t p l) i \<longleftrightarrow> bit t i \<or> i = 8 \<and> p \<or> i = 0 \<and> l"
  by (auto simp: mkval_def bit_or_iff Q_VAL_bit)

lemma u32_bit: "bit (w :: u32) i \<Longrightarrow> i < 32"
  using bit_imp_le_length by fastforce

lemma u32_eqI: "(\<And>i. i < 32 \<Longrightarrow> bit a i = bit b i) \<Longrightarrow> a = (b :: u32)"
  by (rule bit_word_eqI) simp

lemma u32_nz: "w \<noteq> 0 \<longleftrightarrow> (\<exists>i<32. bit (w :: u32) i)"
  by (auto simp: bit_eq_iff [of w 0] dest: u32_bit)

lemma tailish_bit: "tailish t \<Longrightarrow> bit t i \<Longrightarrow> 16 \<le> i"
  by (auto simp: tailish_def not_less [symmetric])

lemma tailish_0 [simp]: "tailish 0"
  by (simp add: tailish_def)

lemma mkval_ops:
  assumes t: "tailish t"
  shows "clear_pending (mkval t p l) = mkval t False l"
    "clear_pending_set_locked (mkval t p l) = mkval t False True"
    "set_locked (mkval t p l) = mkval t p True"
    "qspin_unlock (mkval t p l) = mkval t p False"
    "fetch_set_pending (mkval t p l) = mkval t True l"
    "tailish t' \<Longrightarrow> xchg_tail (mkval t p l) t' = (t, mkval t' p l)"
proof -
  note ts = tailish_bit [OF t]
  show "clear_pending (mkval t p l) = mkval t False l"
    by (rule u32_eqI) (auto simp: clear_pending_def qbits bit_and_iff bit_not_iff dest: ts)
  show "clear_pending_set_locked (mkval t p l) = mkval t False True"
    by (rule u32_eqI) (auto simp: clear_pending_set_locked_def qbits bit_and_iff bit_or_iff bit_not_iff dest: ts)
  show "set_locked (mkval t p l) = mkval t p True"
    by (rule u32_eqI) (auto simp: set_locked_def qbits bit_and_iff bit_or_iff bit_not_iff dest: ts)
  show "qspin_unlock (mkval t p l) = mkval t p False"
    by (rule u32_eqI) (auto simp: qspin_unlock_def qbits bit_and_iff bit_not_iff dest: ts)
  show "fetch_set_pending (mkval t p l) = mkval t True l"
    by (rule u32_eqI) (auto simp: fetch_set_pending_def qbits bit_or_iff)
  assume t': "tailish t'"
  have "push_bit 16 (drop_bit 16 (mkval t p l)) = t"
    by (rule u32_eqI) (use ts in \<open>auto simp: qbits bit_push_bit_iff bit_drop_bit_eq\<close>)
  moreover have "(mkval t p l AND Q_LOCKED_PENDING_MASK) OR push_bit 16 (drop_bit 16 t') = mkval t' p l"
    by (rule u32_eqI)
      (use ts tailish_bit [OF t'] in \<open>fastforce simp: qbits bit_and_iff bit_or_iff bit_push_bit_iff bit_drop_bit_eq\<close>)
  ultimately show "xchg_tail (mkval t p l) t' = (t, mkval t' p l)" by (simp add: xchg_tail_def)
qed

lemma mkval_inj:
  assumes t: "tailish t" "tailish t'" and eq: "mkval t p l = mkval t' p' l'"
  shows "t = t' \<and> p = p' \<and> l = l'"
proof -
  have b: "bit t i \<or> i = 8 \<and> p \<or> i = 0 \<and> l \<longleftrightarrow> bit t' i \<or> i = 8 \<and> p' \<or> i = 0 \<and> l'" for i
    using arg_cong [OF eq, of "\<lambda>w. bit w i"] by (simp only: mkval_bit)
  have "p = p'" using b [of 8] tailish_bit [OF t(1), of 8] tailish_bit [OF t(2), of 8] by auto
  moreover have "l = l'" using b [of 0] tailish_bit [OF t(1), of 0] tailish_bit [OF t(2), of 0] by auto
  moreover have "t = t'"
  proof (rule u32_eqI)
    fix i show "bit t i = bit t' i"
      using b [of i] tailish_bit [OF t(1), of i] tailish_bit [OF t(2), of i] by auto
  qed
  ultimately show ?thesis by simp
qed

lemma mkval_0 [simp]: "mkval 0 False False = 0" "mkval 0 False True = Q_LOCKED_VAL" "mkval 0 True False = Q_PENDING_VAL"
  by (simp_all add: mkval_def)

lemma mkval_tests:
  assumes t: "tailish t"
  shows "mkval t p l AND NOT Q_LOCKED_MASK = 0 \<longleftrightarrow> t = 0 \<and> \<not> p"
    "mkval t p l AND Q_PENDING_MASK = 0 \<longleftrightarrow> \<not> p"
    "mkval t p l AND Q_LOCKED_MASK = 0 \<longleftrightarrow> \<not> l"
    "mkval t p l AND Q_LOCKED_PENDING_MASK = 0 \<longleftrightarrow> \<not> p \<and> \<not> l"
    "mkval t p l AND Q_TAIL_MASK = t"
    "mkval t p l = 0 \<longleftrightarrow> t = 0 \<and> \<not> p \<and> \<not> l"
    "mkval t p l = Q_LOCKED_VAL \<longleftrightarrow> t = 0 \<and> \<not> p \<and> l"
    "tailish t' \<Longrightarrow> mkval t p l = t' \<longleftrightarrow> t = t' \<and> \<not> p \<and> \<not> l"
proof -
  have n: "mkval t' False False = t'" for t' by (simp add: mkval_def)
  note ts = tailish_bit [OF t]
  have 1: "mkval t p l AND NOT Q_LOCKED_MASK = mkval t p False"
    using mkval_ops(4) [OF t] by (simp add: qspin_unlock_def)
  show z: "mkval t p l = 0 \<longleftrightarrow> t = 0 \<and> \<not> p \<and> \<not> l" for p l
    using mkval_inj [OF t tailish_0, of p l False False] by auto
  show "mkval t p l AND NOT Q_LOCKED_MASK = 0 \<longleftrightarrow> t = 0 \<and> \<not> p" unfolding 1 z by simp
  have "mkval t p l AND Q_PENDING_MASK = mkval 0 p False"
    by (rule u32_eqI) (auto simp: qbits bit_and_iff dest: ts)
  then show "mkval t p l AND Q_PENDING_MASK = 0 \<longleftrightarrow> \<not> p"
    using mkval_inj [OF tailish_0 tailish_0, of p False False False] by auto
  have "mkval t p l AND Q_LOCKED_MASK = mkval 0 False l"
    by (rule u32_eqI) (auto simp: qbits bit_and_iff dest: ts)
  then show "mkval t p l AND Q_LOCKED_MASK = 0 \<longleftrightarrow> \<not> l"
    using mkval_inj [OF tailish_0 tailish_0, of False l False False] by auto
  have "mkval t p l AND Q_LOCKED_PENDING_MASK = mkval 0 p l"
    by (rule u32_eqI) (auto simp: qbits bit_and_iff dest: ts)
  then show "mkval t p l AND Q_LOCKED_PENDING_MASK = 0 \<longleftrightarrow> \<not> p \<and> \<not> l"
    using mkval_inj [OF tailish_0 tailish_0, of p l False False] by auto
  show "mkval t p l AND Q_TAIL_MASK = t"
    by (rule u32_eqI) (auto simp: qbits bit_and_iff dest: ts)
  show "mkval t p l = Q_LOCKED_VAL \<longleftrightarrow> t = 0 \<and> \<not> p \<and> l"
    using mkval_inj [OF t tailish_0, of p l False True] by auto
  show "mkval t p l = t' \<longleftrightarrow> t = t' \<and> \<not> p \<and> \<not> l" if "tailish t'"
    using mkval_inj [OF t that, of p l False False] n by auto
qed

section \<open>Tail codes\<close>

lemma encode_unat:
  assumes "cpu + 1 < 2 ^ 14" "idx < 4"
  shows "unat (encode_tail cpu idx) = (cpu + 1) * 2 ^ 18 + idx * 2 ^ 16"
proof -
  let ?a = "push_bit 18 (of_nat (cpu + 1)) :: u32" and ?b = "push_bit 16 (of_nat idx) :: u32"
  have idx: "bit idx i \<Longrightarrow> i < 2" for i
    using assms(2) by (metis bit_nat_iff bit_take_bit_iff take_bit_nat_eq_self power2_eq_square numeral_Bit0 mult_2 one_add_one)
  have "\<not> bit ?a i \<or> \<not> bit ?b i" for i
    by (auto simp: bit_and_iff bit_push_bit_iff bit_of_nat_iff dest: idx)
  then have "?a OR ?b = ?a + ?b" by (simp add: disjunctive_add)
  moreover have "unat ?a = (cpu + 1) * 2 ^ 18" "unat ?b = idx * 2 ^ 16"
    using assms by (simp_all add: push_bit_eq_mult unat_word_ariths unsigned_of_nat take_bit_nat_eq_self)
  ultimately show ?thesis using assms by (simp add: encode_tail_def unat_word_ariths)
qed

lemma encode_tailish: "tailish (encode_tail cpu idx)"
  by (auto simp: tailish_def encode_tail_def bit_or_iff bit_push_bit_iff)

lemma decode_encode:
  assumes "cpu + 1 < 2 ^ 14" "idx < 4"
  shows "decode_tail (encode_tail cpu idx) = (cpu, idx)" "encode_tail cpu idx \<noteq> 0"
proof -
  let ?e = "encode_tail cpu idx"
  note u = encode_unat [OF assms]
  show "?e \<noteq> 0" using u by (metis add_is_0 mult_is_0 one_neq_zero unsigned_0 zero_neq_numeral power_not_zero)
  have cpu: "unat (drop_bit 18 ?e) = cpu + 1" unfolding unat_drop_bit_eq u using assms by (simp add: drop_bit_eq_div)
  have "drop_bit 16 (?e AND Q_TAIL_IDX_MASK) = take_bit 2 (drop_bit 16 ?e)"
    by (rule u32_eqI) (auto simp: bit_drop_bit_eq bit_and_iff bit_take_bit_iff Q_TAIL_IDX_MASK_def qbits)
  then have "unat (drop_bit 16 (?e AND Q_TAIL_IDX_MASK)) = unat (take_bit 2 (drop_bit 16 ?e))" by (rule arg_cong)
  also have "\<dots> = idx"
    using assms unfolding unsigned_take_bit_eq unat_drop_bit_eq u
    by (simp add: drop_bit_eq_div take_bit_eq_mod) presburger
  finally have "unat (drop_bit 16 (?e AND Q_TAIL_IDX_MASK)) = idx" .
  with cpu show "decode_tail ?e = (cpu, idx)" by (simp only: decode_tail_def) simp
qed

end
