(* ===== verification/Qspinlock.thy ===== *)
theory Qspinlock
  imports Mutex Qspin_Word
begin

text \<open>
  The queued spinlock of \<open>kernel/spinlock.c\<close> as a transition system over any number of CPUs.
  A step is one atomic access to the lock word or to a node of the queue, with the local
  computation behind it; a spinning loop is a step that is enabled when the loop ends. Memory is
  sequentially consistent. Every CPU runs one context, which may have interrupted others that
  wait for other locks: \<open>ncount\<close> is the number of nodes in use on the CPU.
\<close>

type_synonym qnode = "nat \<times> nat"

definition MAX_NODES :: nat where "MAX_NODES = 4"
definition Q_PENDING_LOOPS :: int where "Q_PENDING_LOOPS = 1"

text \<open>
  The places in \<open>qspin_trylock\<close>, \<open>qspin_lock\<close> and \<open>qspin_lock_slowpath\<close> before an access.
\<close>

datatype qpc = QIdle
  | QTryRead | QTryCas \<comment> \<open>\<open>qspin_trylock\<close>\<close>
  | QFast \<comment> \<open>\<open>qspin_lock\<close>\<close>
  | QPendSpin | QSetPending | QClearPending | QPendWait | QTakePending \<comment> \<open>pending bit\<close>
  | QQueue | QSpinRead | QSpinCas | QNodeInit | QNodeRead | QNodeCas | QXchgTail
  | QLink | QWaitNode | QReadNext | QHeadWait | QClaim | QSetLocked | QWaitNext | QPass \<comment> \<open>queue\<close>
  | QRelease | QCritical

record qsys =
  val :: u32
  nlocked :: "qnode \<Rightarrow> bool"
  nnext :: "qnode \<Rightarrow> qnode option"
  ncount :: "nat \<Rightarrow> nat"
  pc :: "nat \<Rightarrow> qpc"
  lval :: "nat \<Rightarrow> u32"
  lold :: "nat \<Rightarrow> u32"
  lcnt :: "nat \<Rightarrow> int"
  lidx :: "nat \<Rightarrow> nat"
  lnext :: "nat \<Rightarrow> qnode option"

definition qgoto :: "nat \<Rightarrow> qpc \<Rightarrow> qsys \<Rightarrow> qsys" where
  "qgoto c p s = s\<lparr>pc := (pc s)(c := p)\<rparr>"

definition qnode_of :: "qsys \<Rightarrow> nat \<Rightarrow> qnode" where
  "qnode_of s c = (c, lidx s c)"

definition qtail_of :: "qsys \<Rightarrow> nat \<Rightarrow> u32" where
  "qtail_of s c = encode_tail c (lidx s c)"

section \<open>Accesses\<close>

text \<open>\<open>atomic_try_cmpxchg(&lock->val, 0, _Q_LOCKED_VAL)\<close> with the places for success and failure.\<close>

definition qcas :: "qpc \<Rightarrow> qpc \<Rightarrow> nat \<Rightarrow> qsys \<Rightarrow> qsys" where
  "qcas yes no c s = (if val s = 0 then qgoto c yes (s\<lparr>val := Q_LOCKED_VAL\<rparr>) else qgoto c no s)"

text \<open>The tests of \<open>qspin_lock_slowpath\<close> on the value read so far.\<close>

definition slow_check :: "nat \<Rightarrow> u32 \<Rightarrow> qsys \<Rightarrow> qsys" where
  "slow_check c v s = (if v AND NOT Q_LOCKED_MASK \<noteq> 0 then qgoto c QQueue s else qgoto c QSetPending s)"

definition slow_enter :: "nat \<Rightarrow> u32 \<Rightarrow> qsys \<Rightarrow> qsys" where
  "slow_enter c v s =
    (if v = Q_PENDING_VAL then qgoto c QPendSpin (s\<lparr>lcnt := (lcnt s)(c := Q_PENDING_LOOPS)\<rparr>)
     else slow_check c v s)"

definition fast :: "nat \<Rightarrow> qsys \<Rightarrow> qsys" where
  "fast c s = (if val s = 0 then qgoto c QCritical (s\<lparr>val := Q_LOCKED_VAL\<rparr>) else slow_enter c (val s) s)"

text \<open>One turn of the bounded wait for a hand-over: \<open>(VAL != _Q_PENDING_VAL) || !cnt--\<close>.\<close>

definition pend_spin :: "nat \<Rightarrow> qsys \<Rightarrow> qsys" where
  "pend_spin c s =
    (if val s \<noteq> Q_PENDING_VAL then slow_check c (val s) s
     else let s' = s\<lparr>lcnt := (lcnt s)(c := lcnt s c - 1)\<rparr>
       in if lcnt s c = 0 then slow_check c (val s) s' else s')"

definition set_pending :: "nat \<Rightarrow> qsys \<Rightarrow> qsys" where
  "set_pending c s =
    (let v = val s; s = s\<lparr>val := fetch_set_pending v\<rparr>
     in if v AND NOT Q_LOCKED_MASK \<noteq> 0 then
          (if v AND Q_PENDING_MASK = 0 then qgoto c QClearPending s else qgoto c QQueue s)
        else if v AND Q_LOCKED_MASK \<noteq> 0 then qgoto c QPendWait s
        else qgoto c QTakePending s)"

definition queue_node :: "nat \<Rightarrow> qsys \<Rightarrow> qsys" where
  "queue_node c s =
    (let idx = ncount s c; s = s\<lparr>ncount := (ncount s)(c := idx + 1), lidx := (lidx s)(c := idx)\<rparr>
     in if MAX_NODES \<le> idx then qgoto c QSpinRead s else qgoto c QNodeInit s)"

definition node_init :: "nat \<Rightarrow> qsys \<Rightarrow> qsys" where
  "node_init c s = qgoto c QNodeRead
    (s\<lparr>nlocked := (nlocked s)(qnode_of s c := False), nnext := (nnext s)(qnode_of s c := None)\<rparr>)"

definition publish_tail :: "nat \<Rightarrow> qsys \<Rightarrow> qsys" where
  "publish_tail c s =
    (let (old, v) = xchg_tail (val s) (qtail_of s c);
         s = s\<lparr>val := v, lold := (lold s)(c := old), lnext := (lnext s)(c := None)\<rparr>
     in if old AND Q_TAIL_MASK \<noteq> 0 then qgoto c QLink s else qgoto c QHeadWait s)"

definition link_node :: "nat \<Rightarrow> qsys \<Rightarrow> qsys" where
  "link_node c s = qgoto c QWaitNode (s\<lparr>nnext := (nnext s)(decode_tail (lold s c) := Some (qnode_of s c))\<rparr>)"

definition read_next :: "nat \<Rightarrow> qsys \<Rightarrow> qsys" where
  "read_next c s = qgoto c QHeadWait (s\<lparr>lnext := (lnext s)(c := nnext s (qnode_of s c))\<rparr>)"

definition head_wait :: "nat \<Rightarrow> qsys \<Rightarrow> qsys option" where
  "head_wait c s =
    (if val s AND Q_LOCKED_PENDING_MASK = 0 then
       let s = s\<lparr>lval := (lval s)(c := val s)\<rparr>
       in Some (if val s AND Q_TAIL_MASK = qtail_of s c then qgoto c QClaim s else qgoto c QSetLocked s)
     else None)"

definition claim :: "nat \<Rightarrow> qsys \<Rightarrow> qsys" where
  "claim c s =
    (if val s = lval s c then qgoto c QRelease (s\<lparr>val := Q_LOCKED_VAL\<rparr>) else qgoto c QSetLocked s)"

definition own_lock :: "nat \<Rightarrow> qsys \<Rightarrow> qsys" where
  "own_lock c s =
    (let s = s\<lparr>val := set_locked (val s)\<rparr>
     in if lnext s c = None then qgoto c QWaitNext s else qgoto c QPass s)"

definition wait_next :: "nat \<Rightarrow> qsys \<Rightarrow> qsys option" where
  "wait_next c s =
    (if nnext s (qnode_of s c) = None then None
     else Some (qgoto c QPass (s\<lparr>lnext := (lnext s)(c := nnext s (qnode_of s c))\<rparr>)))"

definition pass_node :: "nat \<Rightarrow> qsys \<Rightarrow> qsys" where
  "pass_node c s = qgoto c QRelease (s\<lparr>nlocked := (nlocked s)(the (lnext s c) := True)\<rparr>)"

definition release_node :: "nat \<Rightarrow> qsys \<Rightarrow> qsys" where
  "release_node c s = qgoto c QCritical (s\<lparr>ncount := (ncount s)(c := ncount s c - 1)\<rparr>)"

text \<open>The next access of a CPU, or \<open>None\<close> while it spins or does not use the lock.\<close>

definition qspin_next :: "nat \<Rightarrow> qsys \<Rightarrow> qsys option" where
  "qspin_next c s = (case pc s c of
     QIdle \<Rightarrow> None
   | QTryRead \<Rightarrow> Some (if val s \<noteq> 0 then qgoto c QIdle s else qgoto c QTryCas s)
   | QTryCas \<Rightarrow> Some (qcas QCritical QIdle c s)
   | QFast \<Rightarrow> Some (fast c s)
   | QPendSpin \<Rightarrow> Some (pend_spin c s)
   | QSetPending \<Rightarrow> Some (set_pending c s)
   | QClearPending \<Rightarrow> Some (qgoto c QQueue (s\<lparr>val := clear_pending (val s)\<rparr>))
   | QPendWait \<Rightarrow> if val s AND Q_LOCKED_MASK = 0 then Some (qgoto c QTakePending s) else None
   | QTakePending \<Rightarrow> Some (qgoto c QCritical (s\<lparr>val := clear_pending_set_locked (val s)\<rparr>))
   | QQueue \<Rightarrow> Some (queue_node c s)
   | QSpinRead \<Rightarrow> if val s \<noteq> 0 then None else Some (qgoto c QSpinCas s)
   | QSpinCas \<Rightarrow> Some (qcas QRelease QSpinRead c s)
   | QNodeInit \<Rightarrow> Some (node_init c s)
   | QNodeRead \<Rightarrow> Some (if val s \<noteq> 0 then qgoto c QXchgTail s else qgoto c QNodeCas s)
   | QNodeCas \<Rightarrow> Some (qcas QRelease QXchgTail c s)
   | QXchgTail \<Rightarrow> Some (publish_tail c s)
   | QLink \<Rightarrow> Some (link_node c s)
   | QWaitNode \<Rightarrow> if nlocked s (qnode_of s c) then Some (qgoto c QReadNext s) else None
   | QReadNext \<Rightarrow> Some (read_next c s)
   | QHeadWait \<Rightarrow> head_wait c s
   | QClaim \<Rightarrow> Some (claim c s)
   | QSetLocked \<Rightarrow> Some (own_lock c s)
   | QWaitNext \<Rightarrow> wait_next c s
   | QPass \<Rightarrow> Some (pass_node c s)
   | QRelease \<Rightarrow> Some (release_node c s)
   | QCritical \<Rightarrow> Some (qgoto c QIdle (s\<lparr>val := qspin_unlock (val s)\<rparr>)))"

inductive qspin_step :: "nat \<Rightarrow> qsys \<Rightarrow> qsys \<Rightarrow> bool" for n where
  call_lock: "c < n \<Longrightarrow> pc s c = QIdle \<Longrightarrow> qspin_step n s (qgoto c QFast s)"
| call_trylock: "c < n \<Longrightarrow> pc s c = QIdle \<Longrightarrow> qspin_step n s (qgoto c QTryRead s)"
| run: "c < n \<Longrightarrow> qspin_next c s = Some s' \<Longrightarrow> qspin_step n s s'"

definition qspin_init :: "(nat \<Rightarrow> nat) \<Rightarrow> qsys \<Rightarrow> bool" where
  "qspin_init base s \<longleftrightarrow> val s = 0 \<and> pc s = (\<lambda>_. QIdle) \<and> ncount s = base"

section \<open>Invariant\<close>

text \<open>Classes of places, and the CPUs in a class.\<close>

definition OWN :: "qpc set" where "OWN = {QWaitNext, QPass, QRelease, QCritical}"
definition PEND :: "qpc set" where "PEND = {QClearPending, QPendWait, QTakePending}"
definition CLAIM :: "qpc set" where "CLAIM = {QClaim, QSetLocked}"
definition FRESH :: "qpc set" where "FRESH = {QNodeRead, QNodeCas, QXchgTail}"
definition HEAD :: "qpc set" where
  "HEAD = {QReadNext, QHeadWait, QClaim, QSetLocked, QWaitNext, QPass}"
definition QUEUE :: "qpc set" where "QUEUE = {QLink, QWaitNode} \<union> HEAD"
definition NODE :: "qpc set" where "NODE = {QNodeInit} \<union> FRESH \<union> QUEUE"
definition COUNTED :: "qpc set" where "COUNTED = {QSpinRead, QSpinCas, QRelease} \<union> NODE"

lemmas class_defs = OWN_def PEND_def CLAIM_def FRESH_def HEAD_def QUEUE_def NODE_def COUNTED_def

definition cls :: "nat \<Rightarrow> qpc set \<Rightarrow> qsys \<Rightarrow> nat set" where
  "cls n K s = {c. c < n \<and> pc s c \<in> K}"

definition uniq :: "nat set \<Rightarrow> bool" where
  "uniq A \<longleftrightarrow> (\<forall>a\<in>A. \<forall>b\<in>A. a = b)"

text \<open>
  The lock word says who owns the lock and who has set the pending bit, at most one CPU each;
  a CPU that has seen the lock free at the head of the queue competes with nobody, and neither
  does the one that takes over from pending.
\<close>

definition excl :: "nat \<Rightarrow> qsys \<Rightarrow> u32 \<Rightarrow> bool" where
  "excl n s t \<longleftrightarrow> tailish t \<and> val s = mkval t (cls n PEND s \<noteq> {}) (cls n OWN s \<noteq> {})
     \<and> uniq (cls n OWN s) \<and> uniq (cls n PEND s)
     \<and> (cls n CLAIM s \<noteq> {} \<longrightarrow> cls n OWN s = {} \<and> cls n {QPendWait, QTakePending} s = {} \<and> t \<noteq> 0)
     \<and> (cls n {QTakePending} s \<noteq> {} \<longrightarrow> cls n OWN s = {})"

text \<open>The queue, from its head to its tail: \<open>b\<close> comes behind \<open>a\<close> and will be or is linked to it.\<close>

definition linked :: "qsys \<Rightarrow> nat \<Rightarrow> nat \<Rightarrow> bool" where
  "linked s a b \<longleftrightarrow> \<not> nlocked s (qnode_of s b) \<and>
     (pc s b = QLink \<and> decode_tail (lold s b) = qnode_of s a \<and> nnext s (qnode_of s a) = None \<or>
      pc s b = QWaitNode \<and> nnext s (qnode_of s a) = Some (qnode_of s b))"

definition chain :: "qsys \<Rightarrow> nat list \<Rightarrow> bool" where
  "chain s q \<longleftrightarrow> (\<forall>i. Suc i < length q \<longrightarrow> linked s (q ! i) (q ! Suc i)) \<and>
     (q \<noteq> [] \<longrightarrow> nnext s (qnode_of s (last q)) = None)"

definition head_ok :: "qsys \<Rightarrow> nat \<Rightarrow> bool" where
  "head_ok s a \<longleftrightarrow> pc s a \<in> HEAD \<or> pc s a = QWaitNode \<and> nlocked s (qnode_of s a)"

definition local_ok :: "(nat \<Rightarrow> nat) \<Rightarrow> qsys \<Rightarrow> nat \<Rightarrow> bool" where
  "local_ok base s c \<longleftrightarrow>
     ncount s c = base c + (if pc s c \<in> COUNTED then 1 else 0)
     \<and> (pc s c \<in> NODE \<longrightarrow> lidx s c = base c \<and> base c < MAX_NODES)
     \<and> (pc s c \<in> FRESH \<longrightarrow> \<not> nlocked s (qnode_of s c) \<and> nnext s (qnode_of s c) = None)
     \<and> (pc s c \<in> {QHeadWait, QClaim, QSetLocked} \<longrightarrow> lnext s c = None \<or> lnext s c = nnext s (qnode_of s c))
     \<and> (pc s c = QPass \<longrightarrow> lnext s c \<noteq> None \<and> lnext s c = nnext s (qnode_of s c))
     \<and> (pc s c = QClaim \<longrightarrow> lval s c = qtail_of s c)"

definition queue :: "nat \<Rightarrow> (nat \<Rightarrow> nat) \<Rightarrow> qsys \<Rightarrow> nat list \<Rightarrow> bool" where
  "queue n base s q \<longleftrightarrow> distinct q \<and> set q = cls n QUEUE s \<and> chain s q \<and> (q \<noteq> [] \<longrightarrow> head_ok s (hd q)) \<and>
     (\<forall>c<n. local_ok base s c)"

definition qtail :: "qsys \<Rightarrow> nat list \<Rightarrow> u32" where
  "qtail s q = (if q = [] then 0 else qtail_of s (last q))"

definition qspin_inv :: "nat \<Rightarrow> (nat \<Rightarrow> nat) \<Rightarrow> qsys \<Rightarrow> bool" where
  "qspin_inv n base s \<longleftrightarrow> n < 2 ^ 14 \<and> (\<exists>q. queue n base s q \<and> excl n s (qtail s q))"

subsection \<open>Consequences\<close>

lemma qgoto_simps [simp]:
  "val (qgoto c p s) = val s" "nlocked (qgoto c p s) = nlocked s" "nnext (qgoto c p s) = nnext s"
  "ncount (qgoto c p s) = ncount s" "pc (qgoto c p s) = (pc s)(c := p)" "lval (qgoto c p s) = lval s"
  "lold (qgoto c p s) = lold s" "lcnt (qgoto c p s) = lcnt s" "lidx (qgoto c p s) = lidx s"
  "lnext (qgoto c p s) = lnext s" "qnode_of (qgoto c p s) = qnode_of s" "qtail_of (qgoto c p s) = qtail_of s"
  by (simp_all add: qgoto_def qnode_of_def qtail_of_def fun_eq_iff)

lemma node_simps [simp]:
  "qnode_of (s\<lparr>lval := a\<rparr>) = qnode_of s" "qtail_of (s\<lparr>lval := a\<rparr>) = qtail_of s"
  "qnode_of (s\<lparr>val := b\<rparr>) = qnode_of s" "qtail_of (s\<lparr>val := b\<rparr>) = qtail_of s"
  "qnode_of (s\<lparr>lnext := d\<rparr>) = qnode_of s" "qtail_of (s\<lparr>lnext := d\<rparr>) = qtail_of s"
  "qnode_of (s\<lparr>nlocked := e\<rparr>) = qnode_of s" "qtail_of (s\<lparr>nlocked := e\<rparr>) = qtail_of s"
  "qnode_of (s\<lparr>ncount := f\<rparr>) = qnode_of s" "qtail_of (s\<lparr>ncount := f\<rparr>) = qtail_of s"
  by (simp_all add: qnode_of_def qtail_of_def fun_eq_iff)

lemma cls_upd:
  "pc s' = (pc s)(c := p) \<Longrightarrow> c < n \<Longrightarrow> cls n K s' = (if p \<in> K then insert c (cls n K s) else cls n K s - {c})"
  by (auto simp: cls_def)

lemma cls_in: "c < n \<Longrightarrow> pc s c \<in> K \<Longrightarrow> c \<in> cls n K s"
  by (simp add: cls_def)

lemma cls_out: "pc s c \<notin> K \<Longrightarrow> c \<notin> cls n K s"
  by (simp add: cls_def)

lemma queue_tl:
  assumes "queue n base s q" "b \<in> set (tl q)"
  shows "pc s b = QLink \<or> pc s b = QWaitNode" "\<not> nlocked s (qnode_of s b)"
proof -
  obtain i where i: "i < length (tl q)" "tl q ! i = b" using assms(2) by (auto simp: in_set_conv_nth)
  then have "linked s (q ! i) b" using assms(1) by (auto simp: queue_def chain_def nth_tl)
  then show "pc s b = QLink \<or> pc s b = QWaitNode" "\<not> nlocked s (qnode_of s b)" by (auto simp: linked_def)
qed

lemma queue_head:
  assumes q: "queue n base s q" and c: "c < n" "pc s c \<in> HEAD \<or> pc s c = QWaitNode \<and> nlocked s (qnode_of s c)"
  obtains r where "q = c # r"
proof -
  have "c \<in> set q" using q c by (auto simp: queue_def cls_def QUEUE_def)
  moreover have "c \<notin> set (tl q)" using queue_tl [OF q, of c] c(2) by (auto simp: HEAD_def)
  ultimately obtain r where "q = c # r" by (cases q) auto
  then show ?thesis ..
qed

lemma head_unique:
  assumes "queue n base s q" shows "cls n HEAD s \<subseteq> {hd q}"
proof
  fix x assume "x \<in> cls n HEAD s"
  then have "x < n" "pc s x \<in> HEAD" by (auto simp: cls_def)
  then obtain r where "q = x # r" using queue_head [OF assms] by blast
  then show "x \<in> {hd q}" by simp
qed

lemma queue_code:
  assumes q: "queue n base s q" and n: "n < 2 ^ 14" and c: "c < n" "pc s c \<in> NODE"
  shows "tailish (qtail_of s c)" "qtail_of s c \<noteq> 0" "decode_tail (qtail_of s c) = qnode_of s c"
proof -
  have "lidx s c < 4" using q c by (auto simp: queue_def local_ok_def MAX_NODES_def)
  then show "tailish (qtail_of s c)" "qtail_of s c \<noteq> 0" "decode_tail (qtail_of s c) = qnode_of s c"
    using decode_encode [of c "lidx s c"] n c by (simp_all add: qtail_of_def qnode_of_def encode_tailish)
qed

lemma queue_mem: "queue n base s q \<Longrightarrow> c \<in> set q \<Longrightarrow> c < n \<and> pc s c \<in> NODE"
  by (auto simp: queue_def cls_def NODE_def)

lemma qtail_props:
  assumes q: "queue n base s q" and n: "n < 2 ^ 14"
  shows "tailish (qtail s q)" "qtail s q = 0 \<longleftrightarrow> q = []"
    "q \<noteq> [] \<Longrightarrow> decode_tail (qtail s q) = qnode_of s (last q)"
proof -
  have "last q < n \<and> pc s (last q) \<in> NODE" if "q \<noteq> []" using queue_mem [OF q last_in_set [OF that]] .
  then show "tailish (qtail s q)" "qtail s q = 0 \<longleftrightarrow> q = []"
    "q \<noteq> [] \<Longrightarrow> decode_tail (qtail s q) = qnode_of s (last q)"
    using queue_code [OF q n, of "last q"] by (auto simp: qtail_def)
qed

subsection \<open>Frame\<close>

text \<open>Two states agree on a CPU when its place, its local variables and its node are the same.\<close>

definition agree :: "qsys \<Rightarrow> qsys \<Rightarrow> nat \<Rightarrow> bool" where
  "agree s s' d \<longleftrightarrow> pc s' d = pc s d \<and> lidx s' d = lidx s d \<and> lold s' d = lold s d \<and> lnext s' d = lnext s d
     \<and> lval s' d = lval s d \<and> ncount s' d = ncount s d
     \<and> nlocked s' (qnode_of s d) = nlocked s (qnode_of s d) \<and> nnext s' (qnode_of s d) = nnext s (qnode_of s d)"

lemmas node_defs = qnode_of_def qtail_of_def

lemma agree_local: "agree s s' d \<Longrightarrow> local_ok base s d \<Longrightarrow> local_ok base s' d"
proof -
  assume ag: "agree s s' d" and loc: "local_ok base s d"
  have node: "qnode_of s' d = qnode_of s d" "qtail_of s' d = qtail_of s d" using ag by (simp_all add: agree_def node_defs)
  have eqs: "pc s' d = pc s d" "lidx s' d = lidx s d" "lnext s' d = lnext s d" "lval s' d = lval s d"
    "ncount s' d = ncount s d" "nlocked s' (qnode_of s d) = nlocked s (qnode_of s d)"
    "nnext s' (qnode_of s d) = nnext s (qnode_of s d)"
    using ag by (simp_all add: agree_def)
  show ?thesis using loc unfolding local_ok_def node eqs .
qed

lemma linked_cong:
  "linked s a b \<Longrightarrow> lidx s' a = lidx s a \<Longrightarrow> nnext s' (qnode_of s a) = nnext s (qnode_of s a) \<Longrightarrow> agree s s' b \<Longrightarrow>
   linked s' a b"
  by (simp add: linked_def agree_def node_defs)

lemma chain_cong:
  assumes ch: "chain s q"
    and nn: "\<And>a. a \<in> set q \<Longrightarrow> lidx s' a = lidx s a \<and> nnext s' (qnode_of s a) = nnext s (qnode_of s a)"
    and ag: "\<And>b. b \<in> set (tl q) \<Longrightarrow> agree s s' b"
  shows "chain s' q"
proof -
  have "linked s' (q ! i) (q ! Suc i)" if i: "Suc i < length q" for i
  proof (rule linked_cong)
    show "linked s (q ! i) (q ! Suc i)" using ch i by (simp add: chain_def)
    have "q ! i \<in> set q" using i by simp
    from nn [OF this] show "lidx s' (q ! i) = lidx s (q ! i)"
      "nnext s' (qnode_of s (q ! i)) = nnext s (qnode_of s (q ! i))" by simp_all
    show "agree s s' (q ! Suc i)" using i by (intro ag) (cases q, auto)
  qed
  moreover have "nnext s' (qnode_of s' (last q)) = None" if "q \<noteq> []"
    using ch that nn [of "last q"] by (simp add: chain_def node_defs)
  ultimately show ?thesis by (simp add: chain_def)
qed

lemma cls_same:
  assumes "pc s' = (pc s)(c := p)" "pc s c \<in> K \<longleftrightarrow> p \<in> K" shows "cls n K s' = cls n K s"
  using assms by (auto simp: cls_def)

lemma queue_outside:
  assumes q: "queue n base s q" and c: "pc s c \<notin> QUEUE" "p \<notin> QUEUE" "pc s' = (pc s)(c := p)"
    and ag: "\<And>d. d \<noteq> c \<Longrightarrow> agree s s' d" and loc: "local_ok base s' c"
  shows "queue n base s' q" "qtail s' q = qtail s q"
proof -
  have nc: "d \<noteq> c" if "d \<in> set q" for d using q c(1) that by (auto simp: queue_def cls_def)
  have ag': "agree s s' d" if "d \<in> set q" for d using ag nc that by blast
  have "chain s' q"
  proof (rule chain_cong)
    show "chain s q" using q by (simp add: queue_def)
    show "lidx s' a = lidx s a \<and> nnext s' (qnode_of s a) = nnext s (qnode_of s a)" if "a \<in> set q" for a
      using ag' [OF that] by (simp add: agree_def)
    show "agree s s' b" if "b \<in> set (tl q)" for b using ag' that by (cases q) auto
  qed
  moreover have "head_ok s' (hd q)" if "q \<noteq> []"
    using q ag' [OF hd_in_set [OF that]] that by (simp add: queue_def head_ok_def agree_def node_defs)
  moreover have "local_ok base s' d" if "d < n" for d
    using q loc ag [of d] agree_local [of s s' d base] that by (cases "d = c") (auto simp: queue_def)
  moreover have "cls n QUEUE s' = cls n QUEUE s" using cls_same [OF c(3)] c(1,2) by blast
  ultimately show "queue n base s' q" using q by (simp add: queue_def)
  show "qtail s' q = qtail s q" using ag' [of "last q"] by (auto simp: qtail_def agree_def node_defs)
qed

lemma queue_at_head:
  assumes q: "queue n base s (c # r)" and p: "p \<in> HEAD" "pc s' = (pc s)(c := p)"
    and ag: "\<And>d. d \<noteq> c \<Longrightarrow> agree s s' d"
    and own: "lidx s' c = lidx s c" "nnext s' (qnode_of s c) = nnext s (qnode_of s c)" and loc: "local_ok base s' c"
  shows "queue n base s' (c # r)" "qtail s' (c # r) = qtail s (c # r)"
proof -
  have nc: "d \<noteq> c" if "d \<in> set r" for d using q that by (auto simp: queue_def)
  have c: "pc s c \<in> QUEUE" using q by (auto simp: queue_def cls_def)
  have "chain s' (c # r)"
  proof (rule chain_cong)
    show "chain s (c # r)" using q by (simp add: queue_def)
    show "lidx s' a = lidx s a \<and> nnext s' (qnode_of s a) = nnext s (qnode_of s a)" if "a \<in> set (c # r)" for a
      using ag [of a] own that by (cases "a = c") (auto simp: agree_def)
    show "agree s s' b" if "b \<in> set (tl (c # r))" for b using ag nc that by simp
  qed
  moreover have "local_ok base s' d" if "d < n" for d
    using q loc ag [of d] agree_local [of s s' d base] that by (cases "d = c") (auto simp: queue_def)
  moreover have "cls n QUEUE s' = cls n QUEUE s" using cls_same [OF p(2)] c p(1) by (auto simp: QUEUE_def)
  ultimately show "queue n base s' (c # r)" using q p by (simp add: queue_def head_ok_def)
  show "qtail s' (c # r) = qtail s (c # r)"
    using own(1) ag [of "last r"] nc [of "last r"] by (cases r) (auto simp: qtail_def agree_def node_defs)
qed

subsection \<open>Exclusion\<close>

abbreviation RPEND :: "qpc set" where "RPEND \<equiv> {QPendWait, QTakePending}"

lemma excl_neutral:
  assumes e: "excl n s t" and pc: "pc s' = (pc s)(c := p)" and v: "val s' = val s"
    and same: "pc s c \<in> OWN \<longleftrightarrow> p \<in> OWN" "pc s c \<in> PEND \<longleftrightarrow> p \<in> PEND" "pc s c \<in> CLAIM \<longleftrightarrow> p \<in> CLAIM"
      "pc s c \<in> RPEND \<longleftrightarrow> p \<in> RPEND" "pc s c = QTakePending \<longleftrightarrow> p = QTakePending"
  shows "excl n s' t"
proof -
  have "cls n OWN s' = cls n OWN s" "cls n PEND s' = cls n PEND s" "cls n CLAIM s' = cls n CLAIM s"
    "cls n RPEND s' = cls n RPEND s" "cls n {QTakePending} s' = cls n {QTakePending} s"
    by (rule cls_same [OF pc]; use same in simp)+
  then show ?thesis using e v by (simp add: excl_def)
qed

lemma excl_tail:
  assumes "excl n s t" "tailish t'" "t' \<noteq> 0" "pc s' = pc s" "val s' = mkval t' (cls n PEND s \<noteq> {}) (cls n OWN s \<noteq> {})"
  shows "excl n s' t'"
proof -
  have "cls n K s' = cls n K s" for K using assms(4) by (simp add: cls_def)
  then show ?thesis using assms by (simp add: excl_def)
qed

lemma excl_free:
  assumes "excl n s t" "val s = 0"
  shows "t = 0" "cls n PEND s = {}" "cls n OWN s = {}"
  using assms mkval_tests(6) [of t] by (auto simp: excl_def)

lemma exclD:
  assumes "excl n s t"
  shows "tailish t" "val s = mkval t (cls n PEND s \<noteq> {}) (cls n OWN s \<noteq> {})"
    "c \<in> cls n OWN s \<Longrightarrow> cls n OWN s = {c}" "c \<in> cls n PEND s \<Longrightarrow> cls n PEND s = {c}"
    "c \<in> cls n CLAIM s \<Longrightarrow> cls n OWN s = {} \<and> cls n RPEND s = {} \<and> t \<noteq> 0"
    "c \<in> cls n {QTakePending} s \<Longrightarrow> cls n OWN s = {}"
    "c \<in> cls n RPEND s \<Longrightarrow> cls n CLAIM s = {}"
  using assms unfolding excl_def uniq_def by blast+

lemma RPEND_sub: "cls n RPEND s \<subseteq> cls n PEND s" "cls n {QTakePending} s \<subseteq> cls n RPEND s"
  by (auto simp: cls_def PEND_def)

text \<open>The lock is taken: by a CPU that found the word 0, or by the one that owns the claim.\<close>

lemma excl_acquire:
  assumes e: "excl n s t" and c: "c < n" "pc s' = (pc s)(c := p)" "p \<in> OWN" "p \<notin> PEND" "p \<notin> CLAIM"
    and free: "cls n OWN s = {}" "cls n CLAIM s \<subseteq> {c}" "cls n RPEND s \<subseteq> {c}"
    and v: "tailish t'" "val s' = mkval t' (cls n PEND s - {c} \<noteq> {}) True"
  shows "excl n s' t'"
proof -
  have "p \<notin> RPEND" using c(4) by (auto simp: PEND_def)
  then have "cls n OWN s' = {c}" "cls n PEND s' = cls n PEND s - {c}" "cls n CLAIM s' = {}" "cls n RPEND s' = {}"
    using cls_upd [OF c(2,1)] c free by auto
  moreover have "cls n {QTakePending} s' = {}" using RPEND_sub(2) [of n s'] calculation(4) by simp
  ultimately show ?thesis using e v by (auto simp: excl_def uniq_def)
qed

lemma excl_unlock:
  assumes e: "excl n s t" and c: "c < n" "pc s c \<in> OWN" "pc s' = (pc s)(c := QIdle)" and v: "val s' = qspin_unlock (val s)"
  shows "excl n s' t"
proof -
  have own: "cls n OWN s = {c}" using e cls_in [OF c(1,2)] by (auto simp: excl_def uniq_def)
  have nin: "QIdle \<notin> K" if "K \<in> {OWN, PEND, CLAIM, RPEND, {QTakePending}}" for K using that by (auto simp: class_defs)
  have "cls n CLAIM s = {}" "cls n {QTakePending} s = {}" using e own by (auto simp: excl_def)
  then have "cls n OWN s' = {}" "cls n PEND s' = cls n PEND s - {c}" "cls n CLAIM s' = {}" "cls n {QTakePending} s' = {}"
    using cls_upd [OF c(3,1)] nin own by auto
  moreover have "c \<notin> cls n PEND s" using c(2) by (auto simp: cls_def class_defs)
  ultimately show ?thesis using e v mkval_ops(4) [of t] by (simp add: excl_def uniq_def)
qed

lemma excl_set_pending:
  assumes e: "excl n s t" and c: "c < n" "pc s c = QSetPending" "pc s' = (pc s)(c := p)"
    and free: "cls n PEND s = {}" and v: "val s' = fetch_set_pending (val s)"
    and p: "p = QClearPending \<or> p = QPendWait \<and> t = 0 \<or> p = QTakePending \<and> t = 0 \<and> cls n OWN s = {}"
  shows "excl n s' t"
proof -
  have R: "cls n RPEND s = {}" using RPEND_sub(1) [of n s] free by simp
  have o: "c \<notin> cls n OWN s" "c \<notin> cls n CLAIM s" using c(2) by (auto simp: cls_def class_defs)
  have "p \<notin> OWN" "p \<notin> CLAIM" "p \<in> PEND" using p by (auto simp: class_defs)
  then have "cls n OWN s' = cls n OWN s" "cls n CLAIM s' = cls n CLAIM s" "cls n PEND s' = {c}"
    using cls_upd [OF c(3,1)] o free by auto
  moreover have "cls n RPEND s' = (if p = QClearPending then {} else {c})"
    "cls n {QTakePending} s' = (if p = QTakePending then {c} else {})"
    using cls_upd [OF c(3,1), of RPEND] cls_upd [OF c(3,1), of "{QTakePending}"] R RPEND_sub(2) [of n s] p by auto
  ultimately show ?thesis using e v p mkval_ops(5) [of t] free by (auto simp: excl_def uniq_def)
qed

lemma excl_clear_pending:
  assumes e: "excl n s t" and c: "c < n" "pc s c = QClearPending" "pc s' = (pc s)(c := QQueue)"
    and v: "val s' = clear_pending (val s)"
  shows "excl n s' t"
proof -
  have P: "cls n PEND s = {c}" using e cls_in [OF c(1), of s PEND] c(2) by (auto simp: excl_def uniq_def PEND_def)
  have nin: "QQueue \<notin> K" if "K \<in> {OWN, PEND, CLAIM, RPEND, {QTakePending}}" for K using that by (auto simp: class_defs)
  have o: "c \<notin> cls n OWN s" "c \<notin> cls n CLAIM s" using c(2) by (auto simp: cls_def class_defs)
  have "cls n OWN s' = cls n OWN s" "cls n CLAIM s' = cls n CLAIM s" "cls n PEND s' = {}"
    using cls_upd [OF c(3,1)] nin o P by auto
  moreover have "cls n RPEND s' = {}" "cls n {QTakePending} s' = {}"
    using RPEND_sub [of n s'] calculation(3) by auto
  ultimately show ?thesis using e v mkval_ops(1) [of t] by (auto simp: excl_def uniq_def)
qed

lemma excl_pend_wait:
  assumes e: "excl n s t" and c: "c < n" "pc s c = QPendWait" "pc s' = (pc s)(c := QTakePending)"
    and v: "val s' = val s" "cls n OWN s = {}"
  shows "excl n s' t"
proof -
  have same: "cls n OWN s' = cls n OWN s" "cls n PEND s' = cls n PEND s" "cls n CLAIM s' = cls n CLAIM s" "cls n RPEND s' = cls n RPEND s"
    by (rule cls_same [OF c(3)]; use c(2) in \<open>simp add: class_defs\<close>)+
  show ?thesis using e v unfolding excl_def same by auto
qed

lemma excl_claim:
  assumes e: "excl n s t" and c: "c < n" "pc s c = QHeadWait" "pc s' = (pc s)(c := p)" "p \<in> CLAIM"
    and v: "val s' = val s" "cls n OWN s = {}" "cls n PEND s = {}" "t \<noteq> 0"
  shows "excl n s' t"
proof -
  have p: "p \<notin> OWN" "p \<notin> PEND" "p \<notin> RPEND" "p \<noteq> QTakePending" using c(4) by (auto simp: class_defs)
  have same: "cls n OWN s' = cls n OWN s" "cls n PEND s' = cls n PEND s" "cls n RPEND s' = cls n RPEND s"
    "cls n {QTakePending} s' = cls n {QTakePending} s"
    by (rule cls_same [OF c(3)]; use c(2) p in \<open>simp add: class_defs\<close>)+
  show ?thesis using e v RPEND_sub(1) [of n s] unfolding excl_def same by auto
qed

subsection \<open>Preservation\<close>

lemma local_keep:
  assumes "local_ok base s c" "pc s c \<notin> NODE" "p \<notin> NODE" "pc s c \<in> COUNTED \<longleftrightarrow> p \<in> COUNTED"
    "pc s' c = p" "ncount s' c = ncount s c"
  shows "local_ok base s' c"
proof -
  have sub: "FRESH \<subseteq> NODE" "QPass \<in> NODE" "{QHeadWait, QClaim, QSetLocked} \<subseteq> NODE" by (auto simp: class_defs)
  then have "p \<notin> FRESH" "p \<noteq> QPass" "p \<notin> {QHeadWait, QClaim, QSetLocked}" "p \<noteq> QClaim" using assms(3) by auto
  then show ?thesis using assms by (simp add: local_ok_def)
qed

text \<open>A step of a CPU that is not in the queue and does not touch nodes: only its place, its
  counter variables and the lock word change.\<close>

lemma step_outside:
  assumes q: "queue n base s q" and c: "c < n" "pc s c \<notin> NODE" "p \<notin> NODE" "pc s c \<in> COUNTED \<longleftrightarrow> p \<in> COUNTED"
    and s': "pc s' = (pc s)(c := p)" "nlocked s' = nlocked s" "nnext s' = nnext s" "ncount s' = ncount s"
      "lval s' = lval s" "lold s' = lold s" "lidx s' = lidx s" "lnext s' = lnext s"
  shows "queue n base s' q" "qtail s' q = qtail s q"
proof -
  have "agree s s' d" if "d \<noteq> c" for d using s' that by (simp add: agree_def)
  moreover have "local_ok base s' c"
  proof (rule local_keep [OF _ c(2-4)])
    show "local_ok base s c" using q c(1) by (simp add: queue_def)
    show "pc s' c = p" "ncount s' c = ncount s c" using s'(1,4) by simp_all
  qed
  moreover have "pc s c \<notin> QUEUE" "p \<notin> QUEUE" using c by (auto simp: NODE_def)
  ultimately show "queue n base s' q" "qtail s' q = qtail s q"
    using queue_outside [OF q _ _ s'(1)] by blast+
qed

lemma inv_neutral:
  assumes inv: "qspin_inv n base s" and c: "c < n" "pc s c \<notin> NODE" "p \<notin> NODE" "pc s c \<in> COUNTED \<longleftrightarrow> p \<in> COUNTED"
    and s': "pc s' = (pc s)(c := p)" "nlocked s' = nlocked s" "nnext s' = nnext s" "ncount s' = ncount s"
      "lval s' = lval s" "lold s' = lold s" "lidx s' = lidx s" "lnext s' = lnext s" "val s' = val s"
    and same: "pc s c \<notin> OWN \<union> PEND" "p \<notin> OWN \<union> PEND"
  shows "qspin_inv n base s'"
proof -
  obtain q where q: "queue n base s q" "excl n s (qtail s q)" "n < 2 ^ 14" using inv by (auto simp: qspin_inv_def)
  have "CLAIM \<subseteq> NODE" by (auto simp: class_defs)
  then have "excl n s' (qtail s q)"
    using c same by (intro excl_neutral [OF q(2) s'(1,9)]) (auto simp: PEND_def)
  then show ?thesis using step_outside [OF q(1) c s'(1-8)] q(3) by (auto simp: qspin_inv_def)
qed

lemma inv_acquire_free:
  assumes inv: "qspin_inv n base s" and c: "c < n" "pc s c \<notin> NODE" "p \<in> {QCritical, QRelease}" "pc s c \<in> COUNTED \<longleftrightarrow> p \<in> COUNTED"
    and s': "s' = qgoto c p (s\<lparr>val := Q_LOCKED_VAL\<rparr>)" and v: "val s = 0"
  shows "qspin_inv n base s'"
proof -
  obtain q where q: "queue n base s q" "excl n s (qtail s q)" "n < 2 ^ 14" using inv by (auto simp: qspin_inv_def)
  note f = excl_free [OF q(2) v]
  have "cls n CLAIM s = {}" using f q(2) by (auto simp: excl_def)
  moreover have "cls n RPEND s = {}" using f RPEND_sub(1) [of n s] by simp
  ultimately have "excl n s' 0"
    using f c(1,3) s' by (intro excl_acquire [OF q(2)]) (auto simp: class_defs)
  moreover have "queue n base s' q" "qtail s' q = qtail s q"
    using step_outside [OF q(1) c(1,2), of p s'] c s' by (auto simp: class_defs)
  ultimately show ?thesis using q(3) f(1) by (auto simp: qspin_inv_def)
qed

lemma inv_obtain:
  assumes "qspin_inv n base s"
  obtains q where "queue n base s q" "excl n s (qtail s q)" "n < 2 ^ 14" "tailish (qtail s q)"
  using assms qtail_props(1) by (auto simp: qspin_inv_def)

text \<open>Steps between places where the CPU has no claim on the lock.\<close>

definition AWAY :: "qpc set" where
  "AWAY = {QIdle, QTryRead, QTryCas, QFast, QPendSpin, QSetPending, QQueue}"

lemma away_classes:
  "AWAY \<inter> (NODE \<union> OWN \<union> PEND \<union> COUNTED) = {}" "{QSpinRead, QSpinCas} \<inter> (NODE \<union> OWN \<union> PEND) = {}"
  "{QSpinRead, QSpinCas} \<subseteq> COUNTED"
  by (simp_all add: class_defs AWAY_def)

lemma inv_goto:
  assumes inv: "qspin_inv n base s" and c: "c < n"
    and p: "pc s c \<in> AWAY \<and> p \<in> AWAY \<or> pc s c \<in> {QSpinRead, QSpinCas} \<and> p \<in> {QSpinRead, QSpinCas}"
    and s1: "s1 = s \<or> s1 = s\<lparr>lcnt := k\<rparr>"
  shows "qspin_inv n base (qgoto c p s1)"
proof (rule inv_neutral [OF inv c, of p])
  show "pc s c \<notin> NODE" "p \<notin> NODE" "pc s c \<notin> OWN \<union> PEND" "p \<notin> OWN \<union> PEND"
    "pc s c \<in> COUNTED \<longleftrightarrow> p \<in> COUNTED"
    using p away_classes by blast+
qed (use s1 in auto)

lemma inv_slow_check:
  assumes "qspin_inv n base s" "c < n" "pc s c \<in> AWAY" "s1 = s \<or> s1 = s\<lparr>lcnt := k\<rparr>"
  shows "qspin_inv n base (slow_check c v s1)"
  unfolding slow_check_def using assms inv_goto [of n base s c _ s1 k] by (simp add: AWAY_def)

lemma inv_fast:
  assumes inv: "qspin_inv n base s" and c: "c < n" "pc s c = QFast"
  shows "qspin_inv n base (fast c s)"
proof (cases "val s = 0")
  case True
  have "qspin_inv n base (qgoto c QCritical (s\<lparr>val := Q_LOCKED_VAL\<rparr>))"
    by (rule inv_acquire_free [OF inv c(1), of QCritical]) (use c True in \<open>simp_all add: class_defs\<close>)
  then show ?thesis using True by (simp add: fast_def)
next
  case False
  moreover have "qspin_inv n base (slow_check c (val s) s)" using c by (intro inv_slow_check [OF inv]) (auto simp: AWAY_def)
  moreover have "qspin_inv n base (qgoto c QPendSpin (s\<lparr>lcnt := (lcnt s)(c := Q_PENDING_LOOPS)\<rparr>))"
    using c by (intro inv_goto [OF inv c(1)]) (auto simp: AWAY_def)
  ultimately show ?thesis by (simp add: fast_def slow_enter_def)
qed

lemma inv_pend_spin:
  assumes inv: "qspin_inv n base s" and c: "c < n" "pc s c = QPendSpin"
  shows "qspin_inv n base (pend_spin c s)"
proof -
  define s1 where "s1 = s\<lparr>lcnt := (lcnt s)(c := lcnt s c - 1)\<rparr>"
  have "qspin_inv n base (slow_check c (val s) s)" "qspin_inv n base (slow_check c (val s) s1)"
    using c by (auto intro!: inv_slow_check [OF inv] simp: AWAY_def s1_def)
  moreover have "qspin_inv n base (qgoto c QPendSpin s1)"
    using c by (intro inv_goto [OF inv c(1)]) (auto simp: AWAY_def s1_def)
  moreover have "qgoto c QPendSpin s1 = s1" using c by (cases s) (simp add: qgoto_def s1_def fun_upd_idem)
  ultimately show ?thesis unfolding pend_spin_def Let_def s1_def [symmetric]
    by (cases "val s = Q_PENDING_VAL"; cases "lcnt s c = 0") simp_all
qed

lemma inv_set_pending:
  assumes inv: "qspin_inv n base s" and c: "c < n" "pc s c = QSetPending"
  shows "qspin_inv n base (set_pending c s)"
proof -
  obtain q where q: "queue n base s q" "excl n s (qtail s q)" "n < 2 ^ 14" "tailish (qtail s q)"
    using inv by (rule inv_obtain)
  let ?t = "qtail s q" and ?P = "cls n PEND s \<noteq> {}" and ?O = "cls n OWN s \<noteq> {}"
  have v: "val s = mkval ?t ?P ?O" using q(2) by (simp add: excl_def)
  have out: "queue n base s' q \<and> qtail s' q = ?t"
    if "s' = qgoto c p (s\<lparr>val := w\<rparr>)" "p \<in> {QQueue, QClearPending, QPendWait, QTakePending}" for s' p w
    using step_outside [OF q(1) c(1), of p s'] c(2) that by (auto simp: class_defs)
  show ?thesis
  proof (cases ?P)
    case True
    then have "set_pending c s = qgoto c QQueue (s\<lparr>val := val s\<rparr>)"
      using v mkval_tests(1,2) [OF q(4), of True ?O] mkval_ops(5) [OF q(4), of True ?O]
      by (simp add: set_pending_def Let_def)
    then have "set_pending c s = qgoto c QQueue s" by simp
    then show ?thesis using c inv_goto [OF inv c(1), of QQueue s] by (simp add: AWAY_def)
  next
    case False
    have v': "val s AND NOT Q_LOCKED_MASK = 0 \<longleftrightarrow> ?t = 0" "val s AND Q_PENDING_MASK = 0" "val s AND Q_LOCKED_MASK = 0 \<longleftrightarrow> \<not> ?O"
      using v False mkval_tests(1-3) [OF q(4), of False ?O] by simp_all
    define p where "p = (if ?t \<noteq> 0 then QClearPending else if ?O then QPendWait else QTakePending)"
    have sp: "set_pending c s = qgoto c p (s\<lparr>val := fetch_set_pending (val s)\<rparr>)"
      using v' by (simp add: set_pending_def Let_def p_def)
    have p: "p = QClearPending \<or> p = QPendWait \<and> ?t = 0 \<or> p = QTakePending \<and> ?t = 0 \<and> cls n OWN s = {}"
      by (simp add: p_def)
    have "excl n (set_pending c s) ?t"
      by (rule excl_set_pending [OF q(2) c(1,2) _ _ _ p]) (use False in \<open>simp_all add: sp\<close>)
    moreover have "p \<in> {QQueue, QClearPending, QPendWait, QTakePending}" using p by auto
    ultimately show ?thesis using out [OF sp] q(3) by (auto simp: qspin_inv_def)
  qed
qed

lemma inv_clear_pending:
  assumes inv: "qspin_inv n base s" and c: "c < n" "pc s c = QClearPending"
  shows "qspin_inv n base (qgoto c QQueue (s\<lparr>val := clear_pending (val s)\<rparr>))" (is "qspin_inv n base ?s'")
proof -
  obtain q where q: "queue n base s q" "excl n s (qtail s q)" "n < 2 ^ 14" using inv by (rule inv_obtain)
  have "excl n ?s' (qtail s q)" by (intro excl_clear_pending [OF q(2) c]) simp_all
  moreover have "queue n base ?s' q" "qtail ?s' q = qtail s q"
    using step_outside [OF q(1) c(1), of QQueue ?s'] c(2) by (auto simp: class_defs)
  ultimately show ?thesis using q(3) by (auto simp: qspin_inv_def)
qed

lemma inv_pend_wait:
  assumes inv: "qspin_inv n base s" and c: "c < n" "pc s c = QPendWait" and v: "val s AND Q_LOCKED_MASK = 0"
  shows "qspin_inv n base (qgoto c QTakePending s)" (is "qspin_inv n base ?s'")
proof -
  obtain q where q: "queue n base s q" "excl n s (qtail s q)" "n < 2 ^ 14" "tailish (qtail s q)"
    using inv by (rule inv_obtain)
  have "cls n OWN s = {}" using v q(2) mkval_tests(3) [OF q(4)] by (simp add: excl_def)
  then have "excl n ?s' (qtail s q)" by (intro excl_pend_wait [OF q(2) c]) simp_all
  moreover have "queue n base ?s' q" "qtail ?s' q = qtail s q"
    using step_outside [OF q(1) c(1), of QTakePending ?s'] c(2) by (auto simp: class_defs)
  ultimately show ?thesis using q(3) by (auto simp: qspin_inv_def)
qed

lemma inv_take_pending:
  assumes inv: "qspin_inv n base s" and c: "c < n" "pc s c = QTakePending"
  shows "qspin_inv n base (qgoto c QCritical (s\<lparr>val := clear_pending_set_locked (val s)\<rparr>))" (is "qspin_inv n base ?s'")
proof -
  obtain q where q: "queue n base s q" "excl n s (qtail s q)" "n < 2 ^ 14" "tailish (qtail s q)"
    using inv by (rule inv_obtain)
  have t: "c \<in> cls n {QTakePending} s" "c \<in> cls n PEND s" "c \<in> cls n RPEND s" using c by (auto simp: cls_def PEND_def)
  have f: "cls n OWN s = {}" "cls n PEND s = {c}" "cls n CLAIM s = {}" using exclD(4,6,7) [OF q(2)] t by blast+
  have "excl n ?s' (qtail s q)"
  proof (rule excl_acquire [OF q(2) c(1), of _ QCritical])
    show "cls n RPEND s \<subseteq> {c}" using RPEND_sub(1) [of n s] f(2) by simp
    show "val ?s' = mkval (qtail s q) (cls n PEND s - {c} \<noteq> {}) True"
      using exclD(2) [OF q(2)] mkval_ops(2) [OF q(4)] f(2) by simp
  qed (use f q(4) in \<open>simp_all add: class_defs\<close>)
  moreover have "queue n base ?s' q" "qtail ?s' q = qtail s q"
    using step_outside [OF q(1) c(1), of QCritical ?s'] c(2) by (auto simp: class_defs)
  ultimately show ?thesis using q(3) by (auto simp: qspin_inv_def)
qed

text \<open>Steps outside the queue that change the node of the CPU.\<close>

lemma inv_fresh:
  assumes inv: "qspin_inv n base s" and c: "pc s c \<notin> QUEUE \<union> OWN \<union> PEND" "p \<notin> QUEUE \<union> OWN \<union> PEND"
    and s': "pc s' = (pc s)(c := p)" "val s' = val s"
    and ag: "\<And>d. d \<noteq> c \<Longrightarrow> agree s s' d" and loc: "local_ok base s' c"
  shows "qspin_inv n base s'"
proof -
  obtain q where q: "queue n base s q" "excl n s (qtail s q)" "n < 2 ^ 14" using inv by (rule inv_obtain)
  have sub: "CLAIM \<subseteq> QUEUE" "RPEND \<subseteq> PEND" "QTakePending \<in> PEND" by (auto simp: class_defs)
  have "excl n s' (qtail s q)"
  proof (rule excl_neutral [OF q(2) s'])
    show "pc s c = QTakePending \<longleftrightarrow> p = QTakePending" using c sub by auto
  qed (use c sub in blast)+
  then show ?thesis using queue_outside [OF q(1) _ _ s'(1) ag loc] c q(3) by (auto simp: qspin_inv_def)
qed

lemma inv_local: "qspin_inv n base s \<Longrightarrow> c < n \<Longrightarrow> local_ok base s c"
  by (auto simp: qspin_inv_def queue_def)

lemma inv_queue_node:
  assumes inv: "qspin_inv n base s" and c: "c < n" "pc s c = QQueue"
  shows "qspin_inv n base (queue_node c s)"
proof -
  have nc: "ncount s c = base c" using inv_local [OF inv c(1)] c(2) by (simp add: local_ok_def class_defs)
  let ?p = "if MAX_NODES \<le> base c then QSpinRead else QNodeInit"
  let ?s' = "qgoto c ?p (s\<lparr>ncount := (ncount s)(c := base c + 1), lidx := (lidx s)(c := base c)\<rparr>)"
  have "qspin_inv n base ?s'"
  proof (rule inv_fresh [OF inv, of c ?p])
    show "pc s c \<notin> QUEUE \<union> OWN \<union> PEND" "?p \<notin> QUEUE \<union> OWN \<union> PEND" using c(2) by (auto simp: class_defs)
    show "agree s ?s' d" if "d \<noteq> c" for d using that by (simp add: agree_def)
    show "local_ok base ?s' c" by (simp add: local_ok_def class_defs)
  qed simp_all
  then show ?thesis using nc by (auto simp: queue_node_def Let_def)
qed

lemma inv_node_init:
  assumes inv: "qspin_inv n base s" and c: "c < n" "pc s c = QNodeInit"
  shows "qspin_inv n base (node_init c s)"
proof (rule inv_fresh [OF inv, of c QNodeRead])
  show "agree s (node_init c s) d" if "d \<noteq> c" for d using that by (simp add: agree_def node_init_def node_defs)
  show "local_ok base (node_init c s) c"
    using inv_local [OF inv c(1)] c(2) by (simp add: local_ok_def node_init_def node_defs class_defs)
qed (use c in \<open>simp_all add: node_init_def class_defs\<close>)

lemma inv_fresh_goto:
  assumes inv: "qspin_inv n base s" and c: "c < n" "pc s c \<in> FRESH" "p \<in> FRESH"
  shows "qspin_inv n base (qgoto c p s)"
proof (rule inv_fresh [OF inv, of c p])
  have sub: "FRESH \<inter> (QUEUE \<union> OWN \<union> PEND) = {}" "FRESH \<subseteq> NODE" "NODE \<subseteq> COUNTED"
    "FRESH \<inter> {QHeadWait, QClaim, QSetLocked, QPass} = {}" by (auto simp: class_defs)
  show "pc s c \<notin> QUEUE \<union> OWN \<union> PEND" "p \<notin> QUEUE \<union> OWN \<union> PEND" using sub c by blast+
  show "agree s (qgoto c p s) d" if "d \<noteq> c" for d using that by (simp add: agree_def)
  have "pc s c \<in> NODE" "pc s c \<in> COUNTED" "p \<in> NODE" "p \<in> COUNTED" "p \<notin> {QHeadWait, QClaim, QSetLocked, QPass}"
    using sub c by blast+
  then show "local_ok base (qgoto c p s) c"
    using inv_local [OF inv c(1)] c(2,3) by (simp add: local_ok_def)
qed simp_all

lemma inv_node_cas:
  assumes inv: "qspin_inv n base s" and c: "c < n" "pc s c = QNodeCas"
  shows "qspin_inv n base (qcas QRelease QXchgTail c s)"
proof (cases "val s = 0")
  case False
  then show ?thesis using inv_fresh_goto [OF inv c(1), of QXchgTail] c(2) by (simp add: qcas_def FRESH_def)
next
  case True
  let ?s' = "qgoto c QRelease (s\<lparr>val := Q_LOCKED_VAL\<rparr>)"
  obtain q where q: "queue n base s q" "excl n s (qtail s q)" "n < 2 ^ 14" using inv by (rule inv_obtain)
  note f = excl_free [OF q(2) True]
  have "cls n CLAIM s = {}" using f exclD(5) [OF q(2)] by blast
  moreover have "cls n RPEND s = {}" using f RPEND_sub(1) [of n s] by simp
  ultimately have "excl n ?s' 0"
    using f c(1) by (intro excl_acquire [OF q(2), of c _ QRelease]) (simp_all add: class_defs)
  moreover have "queue n base ?s' q" "qtail ?s' q = qtail s q"
  proof -
    have ag: "agree s ?s' d" if "d \<noteq> c" for d using that by (simp add: agree_def)
    have loc: "local_ok base ?s' c" using inv_local [OF inv c(1)] c(2) by (simp add: local_ok_def class_defs)
    have nq: "pc s c \<notin> QUEUE" "QRelease \<notin> QUEUE" using c(2) by (simp_all add: class_defs)
    show "queue n base ?s' q" "qtail ?s' q = qtail s q"
      by (rule queue_outside [OF q(1) nq _ ag loc]; simp)+
  qed
  ultimately show ?thesis using True q(3) f(1) by (auto simp: qspin_inv_def qcas_def)
qed

lemma tail_mask: "tailish t \<Longrightarrow> t AND Q_TAIL_MASK = t"
  using mkval_tests(5) [of t False False] by (simp add: mkval_def)

lemma chain_snoc:
  assumes ch: "chain s q" and ag: "\<And>a. a \<in> set q \<Longrightarrow> agree s s' a"
    and c: "q \<noteq> [] \<Longrightarrow> linked s' (last q) c" "nnext s' (qnode_of s' c) = None"
  shows "chain s' (q @ [c])"
proof -
  have "linked s' ((q @ [c]) ! i) ((q @ [c]) ! Suc i)" if "Suc i < length (q @ [c])" for i
  proof (cases "Suc i < length q")
    case True
    have m: "q ! i \<in> set q" "q ! Suc i \<in> set q" using True by simp_all
    have "linked s (q ! i) (q ! Suc i)" using ch True by (simp add: chain_def)
    then have "linked s' (q ! i) (q ! Suc i)"
      by (rule linked_cong) (use ag [OF m(1)] ag [OF m(2)] in \<open>simp_all add: agree_def\<close>)
    then show ?thesis using True by (simp add: nth_append)
  next
    case False
    then have i: "Suc i = length q" using that by simp
    then have "q \<noteq> []" by auto
    then have "last q = q ! i" using i by (simp add: last_conv_nth flip: i)
    then show ?thesis using c(1) i \<open>q \<noteq> []\<close> by (simp add: nth_append)
  qed
  then show ?thesis using c(2) by (simp add: chain_def)
qed

lemma inv_publish_tail:
  assumes inv: "qspin_inv n base s" and c: "c < n" "pc s c = QXchgTail"
  shows "qspin_inv n base (publish_tail c s)"
proof -
  obtain q where q: "queue n base s q" "excl n s (qtail s q)" "n < 2 ^ 14" "tailish (qtail s q)"
    using inv by (rule inv_obtain)
  have fr: "pc s c \<in> NODE" "pc s c \<in> FRESH" "pc s c \<notin> QUEUE" using c(2) by (simp_all add: class_defs)
  note code = queue_code [OF q(1,3) c(1) fr(1)] and tl = qtail_props [OF q(1,3)] and loc = inv_local [OF inv c(1)]
  let ?p = "if q = [] then QHeadWait else QLink"
  define s' where "s' = qgoto c ?p (s\<lparr>val := mkval (qtail_of s c) (cls n PEND s \<noteq> {}) (cls n OWN s \<noteq> {}),
    lold := (lold s)(c := qtail s q), lnext := (lnext s)(c := None)\<rparr>)"
  have eq: "publish_tail c s = s'"
    using exclD(2) [OF q(2)] mkval_ops(6) [OF q(4) code(1)] tail_mask [OF q(4)] tl(2)
    by (simp add: publish_tail_def s'_def)
  have s': "pc s' = (pc s)(c := ?p)" "qnode_of s' = qnode_of s" "qtail_of s' = qtail_of s" "nnext s' = nnext s" "nlocked s' = nlocked s"
    by (simp_all add: s'_def node_defs fun_eq_iff)
  have ag: "agree s s' d" if "d \<noteq> c" for d using that by (simp add: agree_def s'_def)
  have nin: "c \<notin> set q" using q(1) fr(3) by (simp add: queue_def cls_def)
  have fresh: "\<not> nlocked s (qnode_of s c)" "nnext s (qnode_of s c) = None" using loc fr(2) by (simp_all add: local_ok_def)
  have "excl n s' (qtail_of s c)"
  proof (rule excl_neutral [OF excl_tail [OF q(2) code(1,2), of "s\<lparr>val := val s'\<rparr>"], of s' c ?p])
    show "pc s' = (pc (s\<lparr>val := val s'\<rparr>))(c := ?p)" using s'(1) by simp
  qed (use c(2) in \<open>simp_all add: s'_def class_defs\<close>)
  moreover have "chain s' (q @ [c])"
  proof (rule chain_snoc)
    show "chain s q" using q(1) by (simp add: queue_def)
    show "agree s s' a" if "a \<in> set q" for a by (rule ag) (use nin that in auto)
    show "nnext s' (qnode_of s' c) = None" using fresh s' by simp
    show "linked s' (last q) c" if ne: "q \<noteq> []"
      using ne q(1) fresh s' tl(3) [OF ne] by (simp add: linked_def s'_def queue_def chain_def)
  qed
  moreover have "local_ok base s' d" if "d < n" for d
  proof (cases "d = c")
    case True
    then show ?thesis using loc c(2) s' by (simp add: local_ok_def class_defs s'_def)
  next
    case False
    then show ?thesis using agree_local [OF ag inv_local [OF inv that]] by blast
  qed
  moreover have "head_ok s' (hd (q @ [c]))"
  proof (cases q)
    case Nil
    then show ?thesis by (simp add: head_ok_def s'(1) HEAD_def)
  next
    case (Cons a r)
    then show ?thesis using ag [of a] nin q(1) s'(2) by (auto simp: head_ok_def agree_def queue_def)
  qed
  moreover have "set (q @ [c]) = cls n QUEUE s'"
    using q(1) cls_upd [OF s'(1) c(1), of QUEUE] by (simp add: queue_def class_defs)
  ultimately have "queue n base s' (q @ [c])" "excl n s' (qtail s' (q @ [c]))"
    using q(1) nin s'(3) by (simp_all add: queue_def qtail_def)
  then show ?thesis using q(3) eq unfolding qspin_inv_def by blast
qed

lemma inv_link_node:
  assumes inv: "qspin_inv n base s" and c: "c < n" "pc s c = QLink"
  shows "qspin_inv n base (link_node c s)"
proof -
  obtain q where q: "queue n base s q" "excl n s (qtail s q)" "n < 2 ^ 14" using inv by (rule inv_obtain)
  let ?s' = "link_node c s"
  have "c \<in> set q" using q(1) c by (simp add: queue_def cls_def QUEUE_def)
  moreover have "q \<noteq> [] \<Longrightarrow> hd q \<noteq> c" using q(1) c(2) by (auto simp: queue_def head_ok_def HEAD_def)
  ultimately obtain k where k: "Suc k < length q" "q ! Suc k = c"
    by (metis hd_conv_nth in_set_conv_nth length_pos_if_in_set length_greater_0_conv not0_implies_Suc)
  have lk: "linked s (q ! i) (q ! Suc i)" if "Suc i < length q" for i using q(1) that by (simp add: queue_def chain_def)
  let ?a = "q ! k"
  have a: "decode_tail (lold s c) = qnode_of s ?a" "nnext s (qnode_of s ?a) = None" "\<not> nlocked s (qnode_of s c)"
    using lk [OF k(1)] k(2) c(2) by (auto simp: linked_def)
  have dist: "distinct q" using q(1) by (simp add: queue_def)
  have ac: "?a \<noteq> c" using dist k by (auto simp: nth_eq_iff_index_eq)
  have s': "pc ?s' = (pc s)(c := QWaitNode)" "nnext ?s' = (nnext s)(qnode_of s ?a := Some (qnode_of s c))"
    "nlocked ?s' = nlocked s" "qnode_of ?s' = qnode_of s" "qtail_of ?s' = qtail_of s" "val ?s' = val s"
    "lidx ?s' = lidx s" "lold ?s' = lold s" "lnext ?s' = lnext s" "lval ?s' = lval s" "ncount ?s' = ncount s"
    using a(1) by (simp_all add: link_node_def node_defs fun_eq_iff)
  have ag: "agree s ?s' d" if "d \<noteq> c" "d \<noteq> ?a" for d using that s' by (simp add: agree_def node_defs)
  have "linked ?s' (q ! i) (q ! Suc i)" if i: "Suc i < length q" for i
  proof (cases "i = k")
    case True
    then show ?thesis using k a s' by (simp add: linked_def)
  next
    case False
    have ne: "q ! Suc i \<noteq> c" "q ! i \<noteq> ?a" using False i k dist by (auto simp: nth_eq_iff_index_eq simp flip: k(2))
    then show ?thesis using lk [OF i] s' by (auto simp: linked_def node_defs)
  qed
  moreover have "last q \<noteq> ?a"
  proof
    assume "last q = ?a"
    then have "q ! (length q - 1) = q ! k" using k(1) last_conv_nth [of q] by force
    then show False using dist k(1) by (simp add: nth_eq_iff_index_eq)
  qed
  then have "q \<noteq> [] \<Longrightarrow> nnext ?s' (qnode_of ?s' (last q)) = None"
    using q(1) s' by (simp add: queue_def chain_def node_defs)
  moreover have "local_ok base ?s' d" if d: "d < n" for d
  proof -
    have loc: "local_ok base s d" by (rule inv_local [OF inv d])
    consider "d = c" | "d = ?a" "d \<noteq> c" | "d \<noteq> c" "d \<noteq> ?a" by blast
    then show ?thesis
    proof cases
      case 1
      then show ?thesis using loc c(2) s' by (simp add: local_ok_def class_defs)
    next
      case 2
      have "?a \<in> set q" using k(1) by simp
      then have "pc s d \<notin> FRESH" using q(1) 2(1) by (auto simp: queue_def cls_def class_defs)
      then show ?thesis using loc 2 a(2) s' by (auto simp: local_ok_def)
    next
      case 3
      then show ?thesis using agree_local [OF ag loc] by blast
    qed
  qed
  moreover have "head_ok ?s' (hd q)" if "q \<noteq> []"
    using q(1) that s' \<open>q \<noteq> [] \<Longrightarrow> hd q \<noteq> c\<close> by (auto simp: queue_def head_ok_def)
  moreover have "cls n QUEUE ?s' = cls n QUEUE s" by (rule cls_same [OF s'(1)]) (simp add: c(2) QUEUE_def)
  ultimately have "queue n base ?s' q" using q(1) by (simp add: queue_def chain_def)
  moreover have "qtail ?s' q = qtail s q" using s'(5) by (simp add: qtail_def)
  moreover have "excl n ?s' (qtail s q)"
    by (rule excl_neutral [OF q(2) s'(1,6)]) (simp_all add: c(2) class_defs)
  ultimately show ?thesis using q(3) by (auto simp: qspin_inv_def)
qed

subsection \<open>Steps at the head of the queue\<close>

lemma inv_head:
  assumes inv: "qspin_inv n base s" and c: "c < n" "pc s c \<in> HEAD \<or> pc s c = QWaitNode \<and> nlocked s (qnode_of s c)"
    and p: "p \<in> HEAD" "pc s' = (pc s)(c := p)"
    and ag: "\<And>d. d \<noteq> c \<Longrightarrow> agree s s' d"
    and own: "lidx s' c = lidx s c" "nnext s' = nnext s" and loc: "local_ok base s' c"
    and ex: "\<And>r. queue n base s (c # r) \<Longrightarrow> excl n s (qtail s (c # r)) \<Longrightarrow> excl n s' (qtail s (c # r))"
  shows "qspin_inv n base s'"
proof -
  obtain q where q: "queue n base s q" "excl n s (qtail s q)" "n < 2 ^ 14" using inv by (rule inv_obtain)
  obtain r where r: "q = c # r" using queue_head [OF q(1) c] .
  have "nnext s' (qnode_of s c) = nnext s (qnode_of s c)" using own(2) by simp
  from queue_at_head [OF q(1) [unfolded r] p ag own(1) this loc] ex [of r] q r show ?thesis
    by (auto simp: qspin_inv_def)
qed

lemma inv_wait_node:
  assumes inv: "qspin_inv n base s" and c: "c < n" "pc s c = QWaitNode" "nlocked s (qnode_of s c)"
  shows "qspin_inv n base (qgoto c QReadNext s)"
proof (rule inv_head [OF inv c(1), of QReadNext])
  show "local_ok base (qgoto c QReadNext s) c"
    using inv_local [OF inv c(1)] c(2) by (simp add: local_ok_def class_defs)
  show "excl n (qgoto c QReadNext s) (qtail s (c # r))" if "excl n s (qtail s (c # r))" for r
    by (rule excl_neutral [OF that, of _ c QReadNext]) (simp_all add: c(2) class_defs)
qed (use c in \<open>simp_all add: HEAD_def agree_def\<close>)

lemma inv_read_next:
  assumes inv: "qspin_inv n base s" and c: "c < n" "pc s c = QReadNext"
  shows "qspin_inv n base (read_next c s)"
proof (rule inv_head [OF inv c(1), of QHeadWait])
  show "local_ok base (read_next c s) c"
    using inv_local [OF inv c(1)] c(2) by (simp add: local_ok_def class_defs read_next_def qnode_of_def)
  show "excl n (read_next c s) (qtail s (c # r))" if "excl n s (qtail s (c # r))" for r
    by (rule excl_neutral [OF that, of _ c QHeadWait]) (simp_all add: c(2) class_defs read_next_def)
qed (use c in \<open>simp_all add: HEAD_def agree_def read_next_def\<close>)

lemma inv_wait_next:
  assumes inv: "qspin_inv n base s" and c: "c < n" "pc s c = QWaitNext" and w: "wait_next c s = Some s'"
  shows "qspin_inv n base s'"
proof -
  have s': "s' = qgoto c QPass (s\<lparr>lnext := (lnext s)(c := nnext s (qnode_of s c))\<rparr>)" "nnext s (qnode_of s c) \<noteq> None"
    using w by (auto simp: wait_next_def split: if_splits)
  show ?thesis
  proof (rule inv_head [OF inv c(1), of QPass])
    have "lidx s c = base c" using inv_local [OF inv c(1)] c(2) by (simp add: local_ok_def class_defs)
    then show "local_ok base s' c"
      using inv_local [OF inv c(1)] c(2) s' by (simp add: local_ok_def class_defs qnode_of_def)
    show "excl n s' (qtail s (c # r))" if "excl n s (qtail s (c # r))" for r
      by (rule excl_neutral [OF that, of _ c QPass]) (simp_all add: c(2) class_defs s'(1))
  qed (use c s'(1) in \<open>simp_all add: HEAD_def agree_def\<close>)
qed

lemma inv_head_wait:
  assumes inv: "qspin_inv n base s" and c: "c < n" "pc s c = QHeadWait" and w: "head_wait c s = Some s'"
  shows "qspin_inv n base s'"
proof -
  define p where "p = (if val s AND Q_TAIL_MASK = qtail_of s c then QClaim else QSetLocked)"
  have s': "s' = qgoto c p (s\<lparr>lval := (lval s)(c := val s)\<rparr>)" and v: "val s AND Q_LOCKED_PENDING_MASK = 0"
    using w by (auto simp: head_wait_def Let_def p_def qtail_of_def split: if_splits)
  have p: "p \<in> CLAIM" "p \<in> HEAD" by (simp_all add: p_def class_defs)
  obtain q where q: "queue n base s q" "excl n s (qtail s q)" "n < 2 ^ 14" "tailish (qtail s q)"
    using inv by (rule inv_obtain)
  have f: "cls n OWN s = {}" "cls n PEND s = {}"
    using v exclD(2) [OF q(2)] mkval_tests(4) [OF q(4)] by simp_all
  have val: "val s = qtail s q" using exclD(2) [OF q(2)] f by (simp add: mkval_def)
  show ?thesis
  proof (rule inv_head [OF inv c(1) _ p(2)])
    have "p = QClaim \<Longrightarrow> val s = qtail_of s c" using val tail_mask [OF q(4)] by (simp add: p_def split: if_splits)
    moreover have "p \<in> COUNTED" "p \<in> NODE" "p \<notin> FRESH" "p \<noteq> QPass" by (simp_all add: p_def class_defs)
    moreover have "qnode_of s' c = qnode_of s c" "qtail_of s' c = qtail_of s c" by (simp_all add: s' node_defs)
    moreover have "ncount s c = base c + 1" "lidx s c = base c" "base c < MAX_NODES"
        "lnext s c = None \<or> lnext s c = nnext s (qnode_of s c)"
      using inv_local [OF inv c(1)] c(2) by (simp_all add: local_ok_def class_defs)
    ultimately show "local_ok base s' c" unfolding local_ok_def s' by simp
    show "excl n s' (qtail s (c # r))" if "queue n base s (c # r)" "excl n s (qtail s (c # r))" for r
      using qtail_props(2) [OF that(1) q(3)] f s'
      by (intro excl_claim [OF that(2) c _ p(1)]) simp_all
  qed (use c s' in \<open>simp_all add: HEAD_def agree_def\<close>)
qed

lemma head_claim:
  assumes q: "queue n base s (c # r)" and c: "c < n" "pc s c \<in> CLAIM"
  shows "cls n CLAIM s = {c}"
proof -
  have "CLAIM \<subseteq> HEAD" by (auto simp: class_defs)
  then have "cls n CLAIM s \<subseteq> {c}" using head_unique [OF q] by (auto simp: cls_def)
  then show ?thesis using cls_in [OF c] by blast
qed

lemma inv_own_lock:
  assumes inv: "qspin_inv n base s" and c: "c < n" "pc s c = QSetLocked"
  shows "qspin_inv n base (own_lock c s)"
proof -
  define p where "p = (if lnext s c = None then QWaitNext else QPass)"
  have eq: "own_lock c s = qgoto c p (s\<lparr>val := set_locked (val s)\<rparr>)" (is "_ = ?s'")
    by (simp add: own_lock_def Let_def p_def)
  have p: "p \<in> HEAD" "p \<in> OWN" "p \<notin> PEND" "p \<notin> CLAIM" by (simp_all add: p_def class_defs)
  have cl: "pc s c \<in> CLAIM" by (simp add: c(2) CLAIM_def)
  have "qspin_inv n base ?s'"
  proof (rule inv_head [OF inv c(1) _ p(1)])
    have "p \<in> COUNTED" "p \<in> NODE" "p \<notin> FRESH" "p \<noteq> QClaim" "p \<notin> {QHeadWait, QClaim, QSetLocked}"
      by (simp_all add: p_def class_defs)
    moreover have "p = QPass \<Longrightarrow> lnext s c \<noteq> None" by (simp add: p_def split: if_splits)
    moreover have "ncount s c = base c + 1" "lidx s c = base c" "base c < MAX_NODES"
        "lnext s c = None \<or> lnext s c = nnext s (qnode_of s c)"
      using inv_local [OF inv c(1)] c(2) by (simp_all add: local_ok_def class_defs)
    moreover have "qnode_of ?s' c = qnode_of s c" by (simp add: node_defs)
    ultimately show "local_ok base ?s' c" unfolding local_ok_def by auto
    show "excl n ?s' (qtail s (c # r))" if q: "queue n base s (c # r)" and e: "excl n s (qtail s (c # r))" for r
    proof (rule excl_acquire [OF e c(1) _ p(2-4)])
      have f: "cls n OWN s = {}" "cls n RPEND s = {}" using exclD(5) [OF e cls_in [OF c(1) cl]] by simp_all
      then show "cls n OWN s = {}" "cls n RPEND s \<subseteq> {c}" by simp_all
      show "cls n CLAIM s \<subseteq> {c}" using head_claim [OF q c(1) cl] by simp
      have "c \<notin> cls n PEND s" by (rule cls_out) (simp add: c(2) PEND_def)
      then show "val ?s' = mkval (qtail s (c # r)) (cls n PEND s - {c} \<noteq> {}) True"
        using exclD(2) [OF e] mkval_ops(3) [OF exclD(1) [OF e]] by simp
    qed (use exclD(1) [OF e] in simp_all)
  qed (use c in \<open>simp_all add: HEAD_def agree_def node_defs\<close>)
  then show ?thesis using eq by simp
qed

text \<open>The only CPU in the queue leaves it together with the tail code.\<close>

lemma inv_claim:
  assumes inv: "qspin_inv n base s" and c: "c < n" "pc s c = QClaim"
  shows "qspin_inv n base (claim c s)"
proof (cases "val s = lval s c")
  case False
  have "qspin_inv n base (qgoto c QSetLocked s)"
  proof (rule inv_head [OF inv c(1), of QSetLocked])
    show "local_ok base (qgoto c QSetLocked s) c"
      using inv_local [OF inv c(1)] c(2) by (simp add: local_ok_def class_defs)
    show "excl n (qgoto c QSetLocked s) (qtail s (c # r))" if "excl n s (qtail s (c # r))" for r
      by (rule excl_neutral [OF that, of _ c QSetLocked]) (simp_all add: c(2) class_defs)
  qed (use c in \<open>simp_all add: HEAD_def agree_def\<close>)
  then show ?thesis using False by (simp add: claim_def)
next
  case True
  let ?s' = "qgoto c QRelease (s\<lparr>val := Q_LOCKED_VAL\<rparr>)"
  obtain q where q: "queue n base s q" "excl n s (qtail s q)" "n < 2 ^ 14" "tailish (qtail s q)"
    using inv by (rule inv_obtain)
  have hd: "pc s c \<in> HEAD" "pc s c \<in> NODE" "pc s c \<in> CLAIM" by (simp_all add: c(2) class_defs)
  obtain r where r: "q = c # r" using queue_head [OF q(1) c(1)] hd(1) by blast
  note loc = inv_local [OF inv c(1)] and code = queue_code [OF q(1,3) c(1) hd(2)]
  have "val s = qtail_of s c" using True loc c(2) by (simp add: local_ok_def)
  then have f: "qtail s q = qtail_of s c" "cls n PEND s = {}" "cls n OWN s = {}"
    using exclD(2) [OF q(2)] mkval_tests(8) [OF q(4) code(1)] by auto
  then have "qnode_of s (last q) = qnode_of s c" using qtail_props(3) [OF q(1,3)] r code(3) by simp
  then have "last q = c" by (simp add: qnode_of_def)
  then have r0: "q = [c]" using r q(1) by (cases r rule: rev_cases) (auto simp: queue_def)
  have "queue n base ?s' []"
  proof -
    have "cls n QUEUE s = {c}" using q(1) r0 by (simp add: queue_def)
    then have "cls n QUEUE ?s' = {}" using cls_upd [of ?s' s c QRelease n QUEUE] c(1) by (simp add: class_defs)
    moreover have "local_ok base ?s' d" if "d < n" for d
    proof (cases "d = c")
      case True
      then show ?thesis using loc c(2) by (simp add: local_ok_def class_defs)
    next
      case False
      then have "agree s ?s' d" by (simp add: agree_def)
      then show ?thesis by (rule agree_local) (rule inv_local [OF inv that])
    qed
    ultimately show ?thesis by (simp add: queue_def chain_def)
  qed
  moreover have "excl n ?s' 0"
  proof (rule excl_acquire [OF q(2) c(1), of _ QRelease])
    show "cls n CLAIM s \<subseteq> {c}" using head_claim [OF q(1) [unfolded r] c(1) hd(3)] by simp
    show "cls n RPEND s \<subseteq> {c}" using RPEND_sub(1) [of n s] f(2) by simp
  qed (use f in \<open>simp_all add: class_defs\<close>)
  ultimately show ?thesis using True q(3) unfolding qspin_inv_def claim_def by (auto simp: qtail_def intro!: exI [of _ "[]"])
qed

lemma inv_pass_node:
  assumes inv: "qspin_inv n base s" and c: "c < n" "pc s c = QPass"
  shows "qspin_inv n base (pass_node c s)"
proof -
  obtain q where q: "queue n base s q" "excl n s (qtail s q)" "n < 2 ^ 14" using inv by (rule inv_obtain)
  have "pc s c \<in> HEAD" by (simp add: c(2) HEAD_def)
  then obtain q' where "q = c # q'" using queue_head [OF q(1) c(1)] by blast
  moreover have nx: "lnext s c \<noteq> None" "lnext s c = nnext s (qnode_of s c)"
    using inv_local [OF inv c(1)] c(2) unfolding local_ok_def by blast+
  ultimately obtain b r where r: "q = c # b # r"
    using q(1) by (cases q') (auto simp: queue_def chain_def)
  have lk: "linked s (q ! i) (q ! Suc i)" if "Suc i < length q" for i using q(1) that by (simp add: queue_def chain_def)
  have b: "pc s b = QWaitNode" "nnext s (qnode_of s c) = Some (qnode_of s b)"
    using lk [of 0] nx r by (auto simp: linked_def)
  let ?s' = "qgoto c QRelease (s\<lparr>nlocked := (nlocked s)(qnode_of s b := True)\<rparr>)"
  have eq: "pass_node c s = ?s'" using nx b(2) by (simp add: pass_node_def)
  have dist: "distinct q" using q(1) by (simp add: queue_def)
  have ag: "agree s ?s' d" if "d \<noteq> c" "d \<noteq> b" for d using that by (simp add: agree_def qnode_of_def)
  have "chain s (b # r)"
    using q(1) r by (auto simp: queue_def chain_def)
  then have "chain ?s' (b # r)"
  proof (rule chain_cong)
    show "agree s ?s' d" if "d \<in> set (tl (b # r))" for d using that dist r by (intro ag) auto
  qed simp
  moreover have "set (b # r) = cls n QUEUE ?s'"
    using q(1) r dist cls_upd [of ?s' s c QRelease n QUEUE] c(1) by (auto simp: queue_def class_defs)
  moreover have "head_ok ?s' b" using b(1) dist r by (simp add: head_ok_def)
  moreover have "local_ok base ?s' d" if d: "d < n" for d
  proof -
    have loc: "local_ok base s d" by (rule inv_local [OF inv d])
    consider "d = c" | "d = b" "d \<noteq> c" | "d \<noteq> c" "d \<noteq> b" by blast
    then show ?thesis
    proof cases
      case 1
      then show ?thesis using loc c(2) by (simp add: local_ok_def class_defs)
    next
      case 2
      then show ?thesis using loc b(1) by (simp add: local_ok_def class_defs)
    next
      case 3
      then show ?thesis using agree_local [OF ag loc] by blast
    qed
  qed
  ultimately have "queue n base ?s' (b # r)" using dist r by (simp add: queue_def)
  moreover have "qtail ?s' (b # r) = qtail s q" using r by (simp add: qtail_def)
  moreover have "excl n ?s' (qtail s q)"
    by (rule excl_neutral [OF q(2), of _ c QRelease]) (simp_all add: c(2) class_defs)
  ultimately show ?thesis using q(3) eq unfolding qspin_inv_def by metis
qed

lemma inv_release_node:
  assumes inv: "qspin_inv n base s" and c: "c < n" "pc s c = QRelease"
  shows "qspin_inv n base (release_node c s)"
proof -
  obtain q where q: "queue n base s q" "excl n s (qtail s q)" "n < 2 ^ 14" using inv by (rule inv_obtain)
  let ?s' = "release_node c s"
  have nq: "pc s c \<notin> QUEUE" "QCritical \<notin> QUEUE" by (simp_all add: c(2) class_defs)
  have ag: "agree s ?s' d" if "d \<noteq> c" for d using that by (simp add: agree_def release_node_def)
  have loc: "local_ok base ?s' c"
    using inv_local [OF inv c(1)] c(2) by (simp add: local_ok_def class_defs release_node_def)
  have pc: "pc ?s' = (pc s)(c := QCritical)" by (simp add: release_node_def)
  have "excl n ?s' (qtail s q)"
    by (rule excl_neutral [OF q(2) pc]) (simp_all add: c(2) class_defs release_node_def)
  then show ?thesis using queue_outside [OF q(1) nq pc ag loc] q(3) by (auto simp: qspin_inv_def)
qed

lemma inv_unlock:
  assumes inv: "qspin_inv n base s" and c: "c < n" "pc s c = QCritical"
  shows "qspin_inv n base (qgoto c QIdle (s\<lparr>val := qspin_unlock (val s)\<rparr>))" (is "qspin_inv n base ?s'")
proof -
  obtain q where q: "queue n base s q" "excl n s (qtail s q)" "n < 2 ^ 14" using inv by (rule inv_obtain)
  have "excl n ?s' (qtail s q)" by (rule excl_unlock [OF q(2) c(1)]) (simp_all add: c(2) OWN_def)
  moreover have "queue n base ?s' q" "qtail ?s' q = qtail s q"
    by (rule step_outside [OF q(1) c(1), of QIdle]; simp add: c(2) class_defs)+
  ultimately show ?thesis using q(3) by (auto simp: qspin_inv_def)
qed

lemma inv_cas:
  assumes inv: "qspin_inv n base s" and c: "c < n" "pc s c = QTryCas \<and> yes = QCritical \<and> no = QIdle \<or> pc s c = QSpinCas \<and> yes = QRelease \<and> no = QSpinRead"
  shows "qspin_inv n base (qcas yes no c s)"
proof (cases "val s = 0")
  case True
  have "qspin_inv n base (qgoto c yes (s\<lparr>val := Q_LOCKED_VAL\<rparr>))"
    by (rule inv_acquire_free [OF inv c(1), of yes]) (use c(2) True in \<open>auto simp: class_defs\<close>)
  then show ?thesis using True by (simp add: qcas_def)
next
  case False
  then show ?thesis using inv_goto [OF inv c(1), of no s] c(2) by (auto simp: qcas_def AWAY_def)
qed

lemma qspin_next_inv:
  assumes inv: "qspin_inv n base s" and c: "c < n" and nx: "qspin_next c s = Some s'"
  shows "qspin_inv n base s'"
proof -
  note st = nx [unfolded qspin_next_def]
  show ?thesis
  proof (cases "pc s c")
    case QPendWait
    then show ?thesis using st inv_pend_wait [OF inv c] by (auto split: if_splits)
  next
    case QSpinRead
    then show ?thesis using st inv_goto [OF inv c, of QSpinCas s] by (auto split: if_splits)
  next
    case QNodeRead
    then show ?thesis using st inv_fresh_goto [OF inv c] by (auto simp: FRESH_def split: if_splits)
  next
    case QTryRead
    then show ?thesis using st inv_goto [OF inv c, of _ s] by (auto simp: AWAY_def split: if_splits)
  next
    case QWaitNode
    then show ?thesis using st inv_wait_node [OF inv c] by (auto split: if_splits)
  qed (use st in \<open>simp_all; blast intro: inv_fast [OF inv c] inv_pend_spin [OF inv c] inv_set_pending [OF inv c]
      inv_clear_pending [OF inv c] inv_take_pending [OF inv c] inv_queue_node [OF inv c] inv_cas [OF inv c]
      inv_node_init [OF inv c] inv_node_cas [OF inv c] inv_publish_tail [OF inv c] inv_link_node [OF inv c]
      inv_read_next [OF inv c] inv_head_wait [OF inv c] inv_claim [OF inv c] inv_own_lock [OF inv c]
      inv_wait_next [OF inv c] inv_pass_node [OF inv c] inv_release_node [OF inv c] inv_unlock [OF inv c]\<close>)+
qed

lemma qspin_init_inv:
  assumes n: "n < 2 ^ 14" and init: "qspin_init base s"
  shows "qspin_inv n base s"
proof -
  have none: "cls n K s = {}" if "QIdle \<notin> K" for K using init that by (auto simp: cls_def qspin_init_def)
  have e: "cls n OWN s = {}" "cls n PEND s = {}" "cls n CLAIM s = {}" "cls n {QTakePending} s = {}" "cls n QUEUE s = {}"
    by (rule none; simp add: class_defs)+
  have "local_ok base s c" for c using init by (simp add: local_ok_def qspin_init_def class_defs)
  then have "queue n base s []" using e by (simp add: queue_def chain_def)
  moreover have "excl n s (qtail s [])" using e init by (simp add: excl_def qtail_def uniq_def qspin_init_def)
  ultimately show ?thesis using n by (auto simp: qspin_inv_def)
qed

lemma qspin_step_inv:
  assumes "qspin_inv n base s" "qspin_step n s s'"
  shows "qspin_inv n base s'"
  using assms(2)
proof cases
  case (call_lock c)
  then show ?thesis using inv_goto [OF assms(1), of c QFast s] by (simp add: AWAY_def)
next
  case (call_trylock c)
  then show ?thesis using inv_goto [OF assms(1), of c QTryRead s] by (simp add: AWAY_def)
next
  case (run c)
  then show ?thesis using qspin_next_inv [OF assms(1)] by blast
qed

section \<open>Mutual exclusion\<close>

text \<open>A CPU owns the lock from the access that takes it until \<open>qspin_unlock\<close>.\<close>

definition qspin_owns :: "nat \<Rightarrow> qsys \<Rightarrow> nat \<Rightarrow> bool" where
  "qspin_owns n s c \<longleftrightarrow> c < n \<and> pc s c \<in> {QWaitNext, QPass, QRelease, QCritical}"

interpretation qs: mutex "\<lambda>s. n < 2 ^ 14 \<and> qspin_init base s" "qspin_step n" "qspin_owns n" "qspin_inv n base"
proof
  show "qspin_inv n base s" if "n < 2 ^ 14 \<and> qspin_init base s" for s using that qspin_init_inv by blast
  show "qspin_inv n base s'" if "qspin_inv n base s" "qspin_step n s s'" for s s' using that by (rule qspin_step_inv)
  show "c = d" if inv: "qspin_inv n base s" and own: "qspin_owns n s c" "qspin_owns n s d" for s c d
  proof -
    obtain q where "excl n s (qtail s q)" using inv by (rule inv_obtain)
    then have "uniq (cls n OWN s)" by (simp add: excl_def)
    then show ?thesis using own by (auto simp: uniq_def cls_def qspin_owns_def OWN_def)
  qed
qed

text \<open>
  C1: the queued spinlock excludes. With fewer than \<open>2 ^ 14\<close> CPUs, however their calls of
  \<open>qspin_lock\<close>, \<open>qspin_trylock\<close> and \<open>qspin_unlock\<close> and their accesses to the word and to the nodes
  interleave, and whatever number of nodes is in use on each CPU for other locks, at most one CPU
  owns the lock, the lock word is locked exactly when one does, and a CPU has given back its
  node when it is in the critical section.
\<close>

theorem qspin_mutex:
  assumes "n < 2 ^ 14" "qspin_init base s0" "(qspin_step n)\<^sup>*\<^sup>* s0 s"
  shows "(\<forall>c d. qspin_owns n s c \<and> qspin_owns n s d \<longrightarrow> c = d) \<and>
    (val s AND Q_LOCKED_MASK \<noteq> 0) = (\<exists>c. qspin_owns n s c) \<and>
    (\<forall>c<n. pc s c \<in> {QIdle, QCritical} \<longrightarrow> ncount s c = base c)"
proof (intro conjI allI impI)
  show "c = d" if "qspin_owns n s c \<and> qspin_owns n s d" for c d
    using qs.mutual_exclusion [OF _ assms(3)] assms(1,2) that by blast
  have inv: "qspin_inv n base s" using qs.reach_inv [OF assms(3)] assms(1,2) by blast
  then obtain q where q: "excl n s (qtail s q)" by (rule inv_obtain)
  show "(val s AND Q_LOCKED_MASK \<noteq> 0) = (\<exists>c. qspin_owns n s c)"
    using exclD(2) [OF q] mkval_tests(3) [OF exclD(1) [OF q]] by (auto simp: qspin_owns_def cls_def OWN_def)
  show "ncount s c = base c" if "c < n" "pc s c \<in> {QIdle, QCritical}" for c
  proof -
    have "pc s c \<notin> COUNTED" using that(2) by (auto simp: class_defs)
    then show ?thesis using inv_local [OF inv that(1)] unfolding local_ok_def by simp
  qed
qed

definition qspin_demo :: qsys where
  "qspin_demo = \<lparr>val = 0, nlocked = \<lambda>_. False, nnext = \<lambda>_. None, ncount = \<lambda>_. 0, pc = \<lambda>_. QIdle,
     lval = \<lambda>_. 0, lold = \<lambda>_. 0, lcnt = \<lambda>_. 0, lidx = \<lambda>_. 0, lnext = \<lambda>_. None\<rparr>"

lemma qspin_demo_init: "qspin_init (\<lambda>_. 0) qspin_demo"
  by (simp add: qspin_init_def qspin_demo_def)

theorem qspin_mutex_witness:
  "\<exists>s. (qspin_step 2)\<^sup>*\<^sup>* qspin_demo s \<and> qspin_owns 2 s 1 \<and> (\<forall>c. qspin_owns 2 s c \<longrightarrow> c = 1)"
proof -
  let ?s1 = "qgoto 1 QFast qspin_demo" let ?s2 = "fast 1 ?s1"
  have "qspin_step 2 qspin_demo ?s1" by (rule call_lock) (simp_all add: qspin_demo_def)
  moreover have "qspin_step 2 ?s1 ?s2" by (rule run [of 1]) (simp_all add: qspin_next_def)
  ultimately have reach: "(qspin_step 2)\<^sup>*\<^sup>* qspin_demo ?s2" by auto
  have own: "qspin_owns 2 ?s2 1" by (simp add: qspin_owns_def fast_def qspin_demo_def)
  have "c = 1" if "qspin_owns 2 ?s2 c" for c
    using qspin_mutex [of 2, OF _ qspin_demo_init reach] own that by auto
  then show ?thesis using reach own by blast
qed

end
