(* ===== verification/Qspin_Progress.thy ===== *)
theory Qspin_Progress
  imports Qspinlock
begin

text \<open>
  Progress of the queued spinlock of \<open>kernel/spinlock.c\<close>: while no new call is made, the calls
  under way take a bounded number of accesses and end with the lock free, provided that no CPU
  runs out of its four nodes.
\<close>

unbundle bit_operations_syntax

lemmas qstep_defs = qcas_def slow_check_def slow_enter_def fast_def pend_spin_def set_pending_def queue_node_def
  node_init_def publish_tail_def link_node_def read_next_def head_wait_def claim_def own_lock_def wait_next_def
  pass_node_def release_node_def

section \<open>Effect of an access\<close>

lemma next_frame:
  assumes "qspin_next c s = Some s'" "d \<noteq> c"
  shows "pc s' d = pc s d \<and> lidx s' d = lidx s d \<and> lcnt s' d = lcnt s d"
  using assms by (cases "pc s c") (auto simp: qspin_next_def qstep_defs Let_def split: if_splits prod.splits)

lemma next_lidx:
  assumes "qspin_next c s = Some s'" "pc s c \<noteq> QQueue"
  shows "lidx s' c = lidx s c"
  using assms by (cases "pc s c") (auto simp: qspin_next_def qstep_defs Let_def split: if_splits prod.splits)

lemma tail_ops:
  "clear_pending v AND Q_TAIL_MASK = v AND Q_TAIL_MASK"
  "clear_pending_set_locked v AND Q_TAIL_MASK = v AND Q_TAIL_MASK"
  "set_locked v AND Q_TAIL_MASK = v AND Q_TAIL_MASK"
  "qspin_unlock v AND Q_TAIL_MASK = v AND Q_TAIL_MASK"
  "fetch_set_pending v AND Q_TAIL_MASK = v AND Q_TAIL_MASK"
  "Q_LOCKED_VAL AND Q_TAIL_MASK = 0"
  by (rule u32_eqI; auto simp: clear_pending_def clear_pending_set_locked_def set_locked_def qspin_unlock_def
      fetch_set_pending_def qbits bit_and_iff bit_or_iff bit_not_iff)+

lemma next_tail:
  assumes "qspin_next c s = Some s'" "pc s c \<noteq> QXchgTail" "pc s c \<noteq> QClaim"
  shows "val s' AND Q_TAIL_MASK = val s AND Q_TAIL_MASK"
  using assms
  by (cases "pc s c") (auto simp: qspin_next_def qstep_defs Let_def tail_ops split: if_splits)

section \<open>Invariant\<close>

text \<open>
  The CPUs that are about to come into the queue: one that saw the word contended and has taken
  back its pending bit, up to the exchange of the tail.
\<close>

definition COMING :: "qpc set" where
  "COMING = {QClearPending, QQueue, QNodeInit, QNodeRead, QNodeCas, QXchgTail}"

text \<open>
  A head that takes the lock without the compare-and-exchange is the tail of the queue only while
  another CPU is coming: that CPU will link itself behind it.
\<close>

definition followed :: "nat \<Rightarrow> qsys \<Rightarrow> nat \<Rightarrow> bool" where
  "followed n s c \<longleftrightarrow> (pc s c \<in> {QSetLocked, QWaitNext} \<and> val s AND Q_TAIL_MASK = qtail_of s c \<longrightarrow>
     (\<exists>u<n. pc s u \<in> COMING))"

definition live_local :: "qsys \<Rightarrow> nat \<Rightarrow> bool" where
  "live_local s c \<longleftrightarrow> pc s c \<notin> {QSpinRead, QSpinCas} \<and> (pc s c = QPendSpin \<longrightarrow> 0 \<le> lcnt s c \<and> lcnt s c \<le> 1)"

definition live_inv :: "nat \<Rightarrow> (nat \<Rightarrow> nat) \<Rightarrow> qsys \<Rightarrow> bool" where
  "live_inv n base s \<longleftrightarrow> qspin_inv n base s \<and> (\<forall>c<n. base c < MAX_NODES \<and> live_local s c \<and> followed n s c)"

lemma live_local_next:
  assumes inv: "qspin_inv n base s" and c: "c < n" "base c < MAX_NODES" "live_local s c" and nx: "qspin_next c s = Some s'"
  shows "live_local s' c"
proof (cases "pc s c = QQueue")
  case True
  then have "ncount s c = base c" using inv_local [OF inv c(1)] by (simp add: local_ok_def class_defs)
  then show ?thesis using nx c(2) True by (auto simp: qspin_next_def queue_node_def Let_def live_local_def)
next
  case False
  then show ?thesis using nx c(3)
    by (cases "pc s c")
      (auto simp: live_local_def qspin_next_def qstep_defs Let_def Q_PENDING_LOOPS_def split: if_splits prod.splits)
qed

text \<open>A CPU that comes stays one until it has published the tail, if the word is not free.\<close>

lemma coming_next:
  assumes inv: "qspin_inv n base s" and u: "u < n" "base u < MAX_NODES" "pc s u \<in> COMING" "pc s u \<noteq> QXchgTail"
    and nx: "qspin_next u s = Some s'" and v: "val s \<noteq> 0"
  shows "pc s' u \<in> COMING"
proof (cases "pc s u = QQueue")
  case True
  then have "ncount s u = base u" using inv_local [OF inv u(1)] by (simp add: local_ok_def class_defs)
  then show ?thesis using nx u(2) True by (auto simp: qspin_next_def queue_node_def Let_def COMING_def)
next
  case False
  then show ?thesis using nx u(3,4) v
    by (cases "pc s u") (auto simp: COMING_def qspin_next_def qstep_defs Let_def split: if_splits)
qed

lemma inv_tail:
  assumes "qspin_inv n base s"
  obtains q where "queue n base s q" "n < 2 ^ 14" "excl n s (qtail s q)" "val s AND Q_TAIL_MASK = qtail s q"
proof -
  obtain q where q: "queue n base s q" "excl n s (qtail s q)" "n < 2 ^ 14" using assms by (rule inv_obtain)
  then show ?thesis using exclD(2) [OF q(2)] mkval_tests(5) [OF exclD(1) [OF q(2)]] by (intro that) simp_all
qed

lemma code_inj:
  assumes inv: "qspin_inv n base s" and c: "c < n" "d < n" "pc s c \<in> NODE" "pc s d \<in> NODE"
    and eq: "qtail_of s c = qtail_of s d"
  shows "c = d"
proof -
  obtain q where q: "queue n base s q" "n < 2 ^ 14" using inv by (rule inv_tail)
  have "qnode_of s c = qnode_of s d"
    unfolding queue_code(3) [OF q c(1,3), symmetric] queue_code(3) [OF q c(2,4), symmetric] eq ..
  then show ?thesis by (simp add: qnode_of_def)
qed

lemma code_nz:
  assumes inv: "qspin_inv n base s" and c: "c < n" "pc s c \<in> NODE"
  shows "qtail_of s c \<noteq> 0"
proof -
  obtain q where q: "queue n base s q" "n < 2 ^ 14" using inv by (rule inv_tail)
  show ?thesis by (rule queue_code(2) [OF q c])
qed

lemma SETNEXT_classes: "{QSetLocked, QWaitNext} \<subseteq> HEAD" "{QSetLocked, QWaitNext} \<subseteq> NODE" "{QSetLocked, QWaitNext} \<inter> COMING = {}"
  by (auto simp: class_defs COMING_def)

lemma publish_tail_mask:
  assumes inv: "qspin_inv n base s" and c: "c < n" "pc s c = QXchgTail"
  shows "val (publish_tail c s) AND Q_TAIL_MASK = qtail_of s c"
proof -
  obtain q where q: "queue n base s q" "n < 2 ^ 14" "excl n s (qtail s q)" using inv by (rule inv_tail)
  have "pc s c \<in> NODE" using c(2) by (simp add: class_defs)
  then have t: "tailish (qtail_of s c)" using queue_code(1) [OF q(1,2) c(1)] by blast
  then show ?thesis using exclD(2) [OF q(3)] mkval_ops(6) [OF exclD(1) [OF q(3)] t] mkval_tests(5) [OF t]
    by (simp add: publish_tail_def Let_def)
qed

text \<open>The exchange fails for the tail of the queue only if another CPU has set the pending bit.\<close>

lemma claim_fails:
  assumes inv: "qspin_inv n base s" and c: "c < n" "pc s c = QClaim" "val s \<noteq> lval s c"
    and t: "val s AND Q_TAIL_MASK = qtail_of s c"
  shows "\<exists>u<n. pc s u = QClearPending"
proof -
  obtain q where q: "queue n base s q" "excl n s (qtail s q)" "val s AND Q_TAIL_MASK = qtail s q"
    using inv by (rule inv_tail)
  have "c \<in> cls n CLAIM s" using c by (simp add: cls_def CLAIM_def)
  then have none: "cls n OWN s = {}" "cls n RPEND s = {}" using exclD(5) [OF q(2)] by blast+
  have "lval s c = qtail_of s c" using inv_local [OF inv c(1)] c(2) by (simp add: local_ok_def)
  then have "val s \<noteq> qtail s q" using c(3) t q(3) by simp
  then have "cls n PEND s \<noteq> {}" using exclD(2) [OF q(2)] none(1) by (auto simp: mkval_def)
  then show ?thesis using none(2) by (auto simp: cls_def PEND_def)
qed

lemma into_set_locked:
  assumes "qspin_next c s = Some s'" "pc s' c \<in> {QSetLocked, QWaitNext}"
  shows "pc s c = QHeadWait \<and> val s AND Q_TAIL_MASK \<noteq> qtail_of s c \<or>
    pc s c = QClaim \<and> val s \<noteq> lval s c \<and> val s' = val s \<or> pc s c = QSetLocked"
  using assms by (cases "pc s c") (auto simp: qspin_next_def qstep_defs Let_def split: if_splits prod.splits)

lemma followed_self:
  assumes live: "live_inv n base s" and c: "c < n" and nx: "qspin_next c s = Some s'"
  shows "followed n s' c"
  unfolding followed_def
proof (intro impI, elim conjE)
  assume p: "pc s' c \<in> {QSetLocked, QWaitNext}" and t: "val s' AND Q_TAIL_MASK = qtail_of s' c"
  have inv: "qspin_inv n base s" and fol: "followed n s c" using live c by (simp_all add: live_inv_def)
  have code: "qtail_of s' c = qtail_of s c" using next_lidx [OF nx] into_set_locked [OF nx p] by (auto simp: qtail_of_def)
  have "\<exists>u<n. u \<noteq> c \<and> pc s u \<in> COMING"
    using into_set_locked [OF nx p]
  proof (elim disjE conjE)
    assume "pc s c = QHeadWait" "val s AND Q_TAIL_MASK \<noteq> qtail_of s c"
    then show ?thesis using next_tail [OF nx] t code by simp
  next
    assume cl: "pc s c = QClaim" "val s \<noteq> lval s c" "val s' = val s"
    then obtain u where "u < n" "pc s u = QClearPending" using claim_fails [OF inv c] t code by auto
    then show ?thesis using cl(1) by (auto simp: COMING_def)
  next
    assume sl: "pc s c = QSetLocked"
    then obtain u where "u < n" "pc s u \<in> COMING"
      using fol next_tail [OF nx] t code by (auto simp: followed_def)
    then show ?thesis using sl SETNEXT_classes(3) by force
  qed
  then show "\<exists>u<n. pc s' u \<in> COMING" using next_frame [OF nx] by metis
qed

lemma followed_other:
  assumes live: "live_inv n base s" and c: "c < n" "d < n" "d \<noteq> c" and nx: "qspin_next d s = Some s'"
  shows "followed n s' c"
  unfolding followed_def
proof (intro impI, elim conjE)
  assume p: "pc s' c \<in> {QSetLocked, QWaitNext}" and t: "val s' AND Q_TAIL_MASK = qtail_of s' c"
  have inv: "qspin_inv n base s" and fol: "followed n s c" and bd: "base d < MAX_NODES"
    using live c by (simp_all add: live_inv_def)
  have pc: "pc s c \<in> {QSetLocked, QWaitNext}" and code: "qtail_of s' c = qtail_of s c"
    using p next_frame [OF nx, of c] c(3) by (simp_all add: qtail_of_def)
  then have cls: "pc s c \<in> HEAD" "pc s c \<in> NODE" using SETNEXT_classes by auto
  have "pc s d \<noteq> QXchgTail"
  proof
    assume x: "pc s d = QXchgTail"
    then have "s' = publish_tail d s" using nx by (simp add: qspin_next_def)
    then have "qtail_of s d = qtail_of s c" using publish_tail_mask [OF inv c(2) x] t code by simp
    moreover have "pc s d \<in> NODE" using x by (simp add: class_defs)
    ultimately show False using code_inj [OF inv c(2,1)] cls(2) c(3) by blast
  qed
  moreover have "pc s d \<noteq> QClaim"
  proof
    assume "pc s d = QClaim"
    then have "d \<in> cls n HEAD s" "c \<in> cls n HEAD s" using cls(1) c by (simp_all add: cls_def HEAD_def)
    moreover obtain q where "queue n base s q" using inv by (rule inv_tail)
    ultimately show False using head_unique c(3) by blast
  qed
  ultimately have tl: "val s AND Q_TAIL_MASK = qtail_of s c" using next_tail [OF nx] t code by simp
  then obtain u where u: "u < n" "pc s u \<in> COMING" using fol pc by (auto simp: followed_def)
  have "val s \<noteq> 0" using tl code_nz [OF inv c(1) cls(2)] by auto
  then have "pc s' u \<in> COMING"
    using coming_next [OF inv c(2) bd _ \<open>pc s d \<noteq> QXchgTail\<close> nx] u(2) next_frame [OF nx, of u] by (cases "u = d") auto
  then show "\<exists>u<n. pc s' u \<in> COMING" using u(1) by blast
qed

lemma live_next:
  assumes live: "live_inv n base s" and c: "c < n" and nx: "qspin_next c s = Some s'"
  shows "live_inv n base s'"
  unfolding live_inv_def
proof (intro conjI allI impI)
  have inv: "qspin_inv n base s" using live by (simp add: live_inv_def)
  show "qspin_inv n base s'" by (rule qspin_next_inv [OF inv c nx])
  fix d assume d: "d < n"
  show "base d < MAX_NODES" using live d by (simp add: live_inv_def)
  show "followed n s' d" using followed_self [OF live c nx] followed_other [OF live d c _ nx] by blast
  have "live_local s d" "base c < MAX_NODES" using live d c by (simp_all add: live_inv_def)
  then show "live_local s' d"
    using live_local_next [OF inv c _ _ nx] next_frame [OF nx, of d] by (cases "d = c") (auto simp: live_local_def)
qed

lemma live_call:
  assumes live: "live_inv n base s" and c: "c < n" "pc s c = QIdle" and p: "p \<in> {QFast, QTryRead}"
  shows "live_inv n base (qgoto c p s)"
  unfolding live_inv_def
proof (intro conjI allI impI)
  show "qspin_inv n base (qgoto c p s)"
    using inv_goto [of n base s c p s] live c p by (auto simp: live_inv_def AWAY_def)
  fix d assume d: "d < n"
  then have old: "base d < MAX_NODES" "live_local s d" "followed n s d" using live by (simp_all add: live_inv_def)
  then show "base d < MAX_NODES" "live_local (qgoto c p s) d" using p by (auto simp: live_local_def)
  have "\<exists>u<n. pc (qgoto c p s) u \<in> COMING" if some: "\<exists>u<n. pc s u \<in> COMING"
  proof -
    obtain u where u: "u < n" "pc s u \<in> COMING" using some by blast
    then have "u \<noteq> c" using c(2) by (auto simp: COMING_def)
    then show ?thesis using u by (intro exI [of _ u]) simp
  qed
  then show "followed n (qgoto c p s) d" using old(3) p by (auto simp: followed_def split: if_splits)
qed

lemma live_step:
  assumes "live_inv n base s" "qspin_step n s s'" shows "live_inv n base s'"
  using assms(2)
proof cases
  case (run c)
  then show ?thesis using live_next [OF assms(1)] by blast
qed (use live_call [OF assms(1)] in auto)

lemma live_reach:
  assumes n: "n < 2 ^ 14" "qspin_init base s0" "\<And>c. c < n \<Longrightarrow> base c < MAX_NODES" and reach: "(qspin_step n)\<^sup>*\<^sup>* s0 s"
  shows "live_inv n base s"
  using reach
proof (induction rule: rtranclp_induct)
  case base
  show ?case using qspin_init_inv [OF n(1,2)] n(2,3)
    by (simp add: live_inv_def live_local_def followed_def qspin_init_def)
next
  case (step s s')
  then show ?case using live_step by blast
qed

section \<open>No deadlock\<close>

text \<open>The places where a CPU spins, and the condition under which it does.\<close>

lemma next_None:
  assumes "qspin_next c s = None" "live_local s c"
  shows "pc s c = QIdle \<or> pc s c = QPendWait \<and> val s AND Q_LOCKED_MASK \<noteq> 0 \<or>
    pc s c = QWaitNode \<and> \<not> nlocked s (qnode_of s c) \<or> pc s c = QHeadWait \<and> val s AND Q_LOCKED_PENDING_MASK \<noteq> 0 \<or>
    pc s c = QWaitNext \<and> nnext s (qnode_of s c) = None"
  using assms
  by (cases "pc s c") (auto simp: qspin_next_def head_wait_def wait_next_def live_local_def Let_def split: if_splits)

lemma stuck_no_wait_next:
  assumes live: "live_inv n base s" and st: "\<And>c. c < n \<Longrightarrow> qspin_next c s = None" and c: "c < n"
  shows "pc s c \<noteq> QWaitNext"
proof
  assume w: "pc s c = QWaitNext"
  have none: "pc s d \<in> {QIdle, QPendWait, QWaitNode, QHeadWait, QWaitNext}" if "d < n" for d
    using next_None [OF st [OF that]] live that by (auto simp: live_inv_def)
  have nn: "nnext s (qnode_of s c) = None"
    using next_None [OF st [OF c]] live c w by (auto simp: live_inv_def)
  obtain q where q: "queue n base s q" "val s AND Q_TAIL_MASK = qtail s q"
    using live by (auto simp: live_inv_def elim: inv_tail)
  obtain r where r: "q = c # r" using queue_head [OF q(1) c] w by (auto simp: HEAD_def)
  show False
  proof (cases r)
    case Nil
    then obtain u where "u < n" "pc s u \<in> COMING"
      using live c w q(2) r by (auto simp: live_inv_def followed_def qtail_def)
    then show False using none [of u] by (auto simp: COMING_def)
  next
    case (Cons b r')
    have "chain s q" using q(1) by (simp add: queue_def)
    moreover have "Suc 0 < length q" using r Cons by simp
    ultimately have "linked s (q ! 0) (q ! Suc 0)" unfolding chain_def by blast
    then have "linked s c b" using r Cons by simp
    moreover have "b < n" using queue_mem [OF q(1), of b] r Cons by simp
    ultimately show False using nn none [of b] by (auto simp: linked_def)
  qed
qed

lemma stuck_idle:
  assumes live: "live_inv n base s" and st: "\<And>c. c < n \<Longrightarrow> qspin_next c s = None" and c: "c < n"
  shows "pc s c = QIdle"
proof -
  note nx = next_None [OF st]
  have loc: "live_local s d" if "d < n" for d using live that by (simp add: live_inv_def)
  obtain q where q: "queue n base s q" "excl n s (qtail s q)" using live by (auto simp: live_inv_def elim: inv_tail)
  note v = exclD(2) [OF q(2)] and tests = mkval_tests [OF exclD(1) [OF q(2)]]
  have own: "cls n OWN s = {}"
    using nx [OF _ loc] stuck_no_wait_next [OF live st] by (fastforce simp: cls_def OWN_def)
  then have pw: "pc s d \<noteq> QPendWait" if "d < n" for d using nx [OF that loc [OF that]] v tests(3) by auto
  have "cls n PEND s = {}" using nx [OF _ loc] pw by (force simp: cls_def PEND_def)
  then have hw: "pc s d \<noteq> QHeadWait" if "d < n" for d using nx [OF that loc [OF that]] own v tests(4) by auto
  have "q = []"
  proof (rule ccontr)
    assume "q \<noteq> []"
    then have h: "head_ok s (hd q)" "hd q < n" using q(1) queue_mem [OF q(1), of "hd q"] hd_in_set by (auto simp: queue_def)
    then show False using nx [OF h(2) loc [OF h(2)]] pw hw stuck_no_wait_next [OF live st] by (auto simp: head_ok_def HEAD_def)
  qed
  then have "cls n QUEUE s = {}" using q(1) by (simp add: queue_def)
  then have "pc s c \<noteq> QWaitNode" using c by (auto simp: cls_def class_defs)
  then show ?thesis using nx [OF c loc [OF c]] pw hw stuck_no_wait_next [OF live st] c by blast
qed

section \<open>Bound\<close>

text \<open>An access of some CPU in a call under way.\<close>

definition qspin_run :: "nat \<Rightarrow> qsys \<Rightarrow> qsys \<Rightarrow> bool" where
  "qspin_run n s s' \<longleftrightarrow> (\<exists>c<n. qspin_next c s = Some s')"

text \<open>A bound of the accesses to the end of a call: every access takes a CPU to a later place.\<close>

fun rank :: "qpc \<Rightarrow> int \<Rightarrow> nat" where
  "rank QFast k = 24"
| "rank QPendSpin k = 22 + nat k"
| "rank QSetPending k = 21"
| "rank QClearPending k = 20"
| "rank QPendWait k = 20"
| "rank QTakePending k = 19"
| "rank QQueue k = 18"
| "rank QNodeInit k = 17"
| "rank QNodeRead k = 16"
| "rank QNodeCas k = 15"
| "rank QXchgTail k = 14"
| "rank QLink k = 13"
| "rank QWaitNode k = 12"
| "rank QReadNext k = 11"
| "rank QHeadWait k = 10"
| "rank QClaim k = 9"
| "rank QSetLocked k = 8"
| "rank QWaitNext k = 7"
| "rank QPass k = 6"
| "rank QRelease k = 5"
| "rank QTryRead k = 6"
| "rank QTryCas k = 5"
| "rank QCritical k = 4"
| "rank QSpinRead k = 0"
| "rank QSpinCas k = 0"
| "rank QIdle k = 0"

definition load :: "nat \<Rightarrow> qsys \<Rightarrow> nat" where
  "load n s = (\<Sum>c<n. rank (pc s c) (lcnt s c))"

lemma rank_next:
  assumes nx: "qspin_next c s = Some s'" and loc: "live_local s c" "live_local s' c"
  shows "rank (pc s' c) (lcnt s' c) < rank (pc s c) (lcnt s c)"
  using assms
  by (cases "pc s c")
    (auto simp: live_local_def qspin_next_def qstep_defs Let_def Q_PENDING_LOOPS_def split: if_splits prod.splits)

lemma load_run:
  assumes live: "live_inv n base s" and r: "qspin_run n s s'"
  shows "live_inv n base s'" "load n s' < load n s"
proof -
  obtain c where c: "c < n" "qspin_next c s = Some s'" using r by (auto simp: qspin_run_def)
  show live': "live_inv n base s'" by (rule live_next [OF live c])
  show "load n s' < load n s" unfolding load_def
  proof (rule sum_strict_mono_ex1)
    have lt: "rank (pc s' c) (lcnt s' c) < rank (pc s c) (lcnt s c)"
      using rank_next [OF c(2)] live live' c(1) by (simp add: live_inv_def)
    then show "\<exists>c\<in>{..<n}. rank (pc s' c) (lcnt s' c) < rank (pc s c) (lcnt s c)" using c(1) by blast
    have "rank (pc s' d) (lcnt s' d) \<le> rank (pc s d) (lcnt s d)" for d
      using lt next_frame [OF c(2), of d] by (cases "d = c") auto
    then show "\<forall>d\<in>{..<n}. rank (pc s' d) (lcnt s' d) \<le> rank (pc s d) (lcnt s d)" by blast
  qed simp
qed

lemma load_runs:
  assumes "(qspin_run n ^^ k) s s'" "live_inv n base s"
  shows "live_inv n base s'" "load n s' + k \<le> load n s"
proof -
  have "live_inv n base s' \<and> load n s' + k \<le> load n s" using assms
  proof (induction k arbitrary: s')
    case (Suc k)
    then obtain s1 where "(qspin_run n ^^ k) s s1" "qspin_run n s1 s'" by auto
    then show ?case using Suc load_run [of n base s1 s'] by force
  qed simp
  then show "live_inv n base s'" "load n s' + k \<le> load n s" by simp_all
qed

lemma live_runs_on:
  assumes live: "live_inv n base s" and c: "c < n" "pc s c \<noteq> QIdle"
  shows "\<exists>s'. qspin_run n s s'"
proof (rule ccontr)
  assume "\<nexists>s'. qspin_run n s s'"
  then have "qspin_next d s = None" if "d < n" for d using that by (cases "qspin_next d s") (auto simp: qspin_run_def)
  then show False using stuck_idle [OF live _ c(1)] c(2) by blast
qed

lemma load_bound:
  assumes "live_inv n base s" shows "load n s \<le> 24 * n"
proof -
  have "rank (pc s c) (lcnt s c) \<le> 24" if "c < n" for c
  proof -
    have "live_local s c" using assms that by (simp add: live_inv_def)
    then show ?thesis by (cases "pc s c") (auto simp: live_local_def)
  qed
  then have "load n s \<le> of_nat (card {..<n}) * 24" unfolding load_def by (intro sum_bounded_above) simp
  then show ?thesis by simp
qed

lemma idle_free:
  assumes "qspin_inv n base s" "\<forall>c<n. pc s c = QIdle" shows "val s = 0"
proof -
  obtain q where q: "queue n base s q" "excl n s (qtail s q)" using assms(1) by (rule inv_obtain)
  have none: "cls n OWN s = {}" "cls n PEND s = {}" "cls n QUEUE s = {}" using assms(2) by (auto simp: cls_def class_defs)
  then have "q = []" using q(1) by (simp add: queue_def)
  then show ?thesis using exclD(2) [OF q(2)] none by (simp add: qtail_def)
qed

lemma live_drains:
  assumes "live_inv n base s"
  shows "\<exists>s'. (qspin_run n)\<^sup>*\<^sup>* s s' \<and> (\<forall>c<n. pc s' c = QIdle) \<and> val s' = 0"
  using assms
proof (induction "load n s" arbitrary: s rule: less_induct)
  case less
  show ?case
  proof (cases "\<exists>s'. qspin_run n s s'")
    case True
    then obtain s1 where s1: "qspin_run n s s1" by blast
    then obtain s' where "(qspin_run n)\<^sup>*\<^sup>* s1 s'" "\<forall>c<n. pc s' c = QIdle" "val s' = 0"
      using less.hyps [OF load_run(2,1)] less.prems by blast
    then show ?thesis using s1 by (meson converse_rtranclp_into_rtranclp)
  next
    case False
    then have "\<forall>c<n. pc s c = QIdle" using live_runs_on [OF less.prems] by blast
    moreover have "qspin_inv n base s" using less.prems by (simp add: live_inv_def)
    ultimately show ?thesis using idle_free by blast
  qed
qed

text \<open>
  C6: the queued spinlock makes progress when no CPU has used up its four nodes. From every
  state that is reached, the calls under way take at most 24 accesses per CPU, as long as no new
  call is made; a state in which every CPU that uses the lock spins is never reached, so that
  such a run ends only when all calls have returned, the owner has released the lock and the
  word is free again.
\<close>

theorem qspin_progress:
  assumes "n < 2 ^ 14" "qspin_init base s0" "\<forall>c<n. base c < MAX_NODES" "(qspin_step n)\<^sup>*\<^sup>* s0 s"
  shows "(\<forall>k s'. (qspin_run n ^^ k) s s' \<longrightarrow> k \<le> 24 * n) \<and>
    (\<forall>c<n. pc s c \<noteq> QIdle \<longrightarrow> (\<exists>s'. qspin_run n s s')) \<and>
    (\<exists>s'. (qspin_run n)\<^sup>*\<^sup>* s s' \<and> (\<forall>c<n. pc s' c = QIdle) \<and> val s' = 0)"
proof (intro conjI allI impI)
  have live: "live_inv n base s" using live_reach assms by blast
  show "k \<le> 24 * n" if "(qspin_run n ^^ k) s s'" for k s'
    using load_runs(2) [OF that live] load_bound [OF live] by linarith
  show "\<exists>s'. qspin_run n s s'" if "c < n" "pc s c \<noteq> QIdle" for c
    by (rule live_runs_on [OF live that])
  show "\<exists>s'. (qspin_run n)\<^sup>*\<^sup>* s s' \<and> (\<forall>c<n. pc s' c = QIdle) \<and> val s' = 0" by (rule live_drains [OF live])
qed

theorem qspin_progress_witness:
  "qspin_init (\<lambda>_. 0) qspin_demo \<and> (\<exists>s'. (qspin_run 2)\<^sup>*\<^sup>* (qgoto 1 QFast qspin_demo) s' \<and> pc s' 1 = QIdle)"
proof -
  have "qspin_step 2 qspin_demo (qgoto 1 QFast qspin_demo)" by (rule call_lock) (simp_all add: qspin_demo_def)
  then have "(qspin_step 2)\<^sup>*\<^sup>* qspin_demo (qgoto 1 QFast qspin_demo)" by blast
  from qspin_progress [of 2, OF _ qspin_demo_init _ this] show ?thesis
    using qspin_demo_init by (auto simp: MAX_NODES_def)
qed

section \<open>Out of nodes\<close>







end
