(* ===== verification/Vsnprintf.thy ===== *)
theory Vsnprintf
  imports CString Muldiv
begin

text \<open>
  Formatted output of \<open>lib/vsnprintf.c\<close>, for builds without \<open>CONFIG_PRINT_FP\<close>: \<open>vsnprintf\<close>,
  which writes into a buffer of bounded size, and \<open>vtxprintf\<close>, which passes the bytes to a
  function. The format is the list of its bytes before the terminator; \<open>va_arg\<close> takes the next
  argument, a number in a 64-bit slot or a string, and faults when there is none or it has
  the other type. Signed overflow of \<open>width\<close> and \<open>precision\<close> is undefined in C and not modelled:
  they are integers, converted to 32 bits where the source converts.
\<close>

unbundle bit_operations_syntax

abbreviation ch :: "char \<Rightarrow> u8" where "ch \<equiv> of_char"

definition SIGN :: u8 where "SIGN = 0x01"
definition SIGN_PLUS :: u8 where "SIGN_PLUS = 0x02"
definition SIGN_PLUS_SPACE :: u8 where "SIGN_PLUS_SPACE = 0x04"
definition ZEROPAD :: u8 where "ZEROPAD = 0x08"
definition LEFT :: u8 where "LEFT = 0x10"
definition LARGE :: u8 where "LARGE = 0x20"
definition PREFIX :: u8 where "PREFIX = 0x40"

lemmas flag_defs = SIGN_def SIGN_PLUS_def SIGN_PLUS_SPACE_def ZEROPAD_def LEFT_def LARGE_def PREFIX_def

definition has :: "u8 \<Rightarrow> u8 \<Rightarrow> bool" where
  "has type flag \<longleftrightarrow> type AND flag \<noteq> 0"

definition isdigit :: "u8 \<Rightarrow> bool" where
  "isdigit c \<longleftrightarrow> c \<ge> ch CHR ''0'' \<and> c \<le> ch CHR ''9''"

datatype arg = Num u64 | Str "u8 list option"

section \<open>Bounded output\<close>

text \<open>The position of the next byte and the store.\<close>

type_synonym cursor = "nat \<times> store"

definition bound_string_output :: "nat \<Rightarrow> u8 \<Rightarrow> cursor \<Rightarrow> cursor" where
  "bound_string_output end' c = (\<lambda>(string, m). (string + 1, if string < end' then m(string := c) else m))"

fun bound_string_length :: "u8 list \<Rightarrow> nat \<Rightarrow> nat" where
  "bound_string_length (c # cs) (Suc count) = bound_string_length cs count + 1"
| "bound_string_length cs count = 0"

section \<open>Numbers\<close>

definition lower_hex_digits :: "u8 list" where
  "lower_hex_digits = map ch ''0123456789abcdefghijklmnopqrstuvwxyz''"

definition upper_hex_digits :: "u8 list" where
  "upper_hex_digits = map ch ''0123456789ABCDEFGHIJKLMNOPQRSTUVWXYZ''"

text \<open>\<open>put_number\<close> stores the digits from the lowest one up; its buffer is the list of them.\<close>

partial_function (option) put_loop :: "u8 list \<Rightarrow> u64 \<Rightarrow> u64 \<Rightarrow> u8 list option" where
  "put_loop digits base num =
    (if num = 0 then Some []
     else Option.bind (mod64u num base) (\<lambda>digit_index.
       Option.bind (put_loop digits base (div64u num base)) (\<lambda>pos. Some (digits ! unat digit_index # pos))))"

definition put_number :: "u64 \<Rightarrow> u8 \<Rightarrow> bool \<Rightarrow> u8 list option" where
  "put_number num base upper =
    (let digits = if upper then upper_hex_digits else lower_hex_digits
     in if num = 0 then Some [ch CHR ''0''] else put_loop digits (ucast base) num)"

fun scan_number :: "u8 list \<Rightarrow> u64 \<Rightarrow> u64 \<times> u8 list" where
  "scan_number (c # cs) num =
    (if isdigit c then scan_number cs (num * 10 + ucast (c - ch CHR ''0'')) else (num, c # cs))"
| "scan_number [] num = (num, [])"

text \<open>\<open>while (--width >= 0)\<close> with one byte of output per turn.\<close>

function pad_loop :: "nat \<Rightarrow> u8 \<Rightarrow> int \<Rightarrow> cursor \<Rightarrow> int \<times> cursor" where
  "pad_loop end' c width st =
    (let width = width - 1
     in if width \<ge> 0 then pad_loop end' c width (bound_string_output end' c st) else (width, st))"
  by pat_completeness auto
termination
  by (relation "measure (\<lambda>(end', c, width, st). nat width)") auto

text \<open>\<open>while (i <= --precision)\<close>.\<close>

function zero_loop :: "nat \<Rightarrow> int \<Rightarrow> int \<Rightarrow> cursor \<Rightarrow> cursor" where
  "zero_loop end' i precision st =
    (let precision = precision - 1
     in if i \<le> precision then zero_loop end' i precision (bound_string_output end' (ch CHR ''0'') st) else st)"
  by pat_completeness auto
termination
  by (relation "measure (\<lambda>(end', i, precision, st). nat (precision - i))") auto

text \<open>\<open>while (--i >= 0)\<close> over the digits in reverse.\<close>

primrec rev_loop :: "nat \<Rightarrow> u8 list \<Rightarrow> nat \<Rightarrow> cursor \<Rightarrow> cursor" where
  "rev_loop end' rs 0 st = st"
| "rev_loop end' rs (Suc i) st = rev_loop end' rs i (bound_string_output end' (rs ! i) st)"

declare pad_loop.simps [simp del] zero_loop.simps [simp del]

text \<open>The sign character, 0 for none, and the magnitude.\<close>

definition number_sign :: "u8 \<Rightarrow> u64 \<Rightarrow> u8 \<times> u64" where
  "number_sign type num =
    (if has type SIGN then
       if sint num < 0 then (ch CHR ''-'', - num)
       else if has type SIGN_PLUS then (ch CHR ''+'', num)
       else if has type SIGN_PLUS_SPACE then (ch CHR '' '', num)
       else (0, num)
     else (0, num))"

definition number_width :: "int \<Rightarrow> u8 \<Rightarrow> bool \<Rightarrow> u8 \<Rightarrow> int" where
  "number_width width sign need_prefix base =
    (let width = if sign \<noteq> 0 then width - 1 else width
     in if need_prefix then (if base = 16 then width - 2 else width - 1) else width)"

definition out_sign :: "nat \<Rightarrow> u8 \<Rightarrow> cursor \<Rightarrow> cursor" where
  "out_sign end' sign st = (if sign \<noteq> 0 then bound_string_output end' sign st else st)"

definition out_prefix :: "nat \<Rightarrow> bool \<Rightarrow> u8 \<Rightarrow> bool \<Rightarrow> cursor \<Rightarrow> cursor" where
  "out_prefix end' need_prefix base upper st =
    (if need_prefix then
       let st = bound_string_output end' (ch CHR ''0'') st
       in if base = 16 then bound_string_output end' (if upper then ch CHR ''X'' else ch CHR ''x'') st else st
     else st)"

definition format_number :: "nat \<Rightarrow> u64 \<Rightarrow> u8 \<Rightarrow> int \<Rightarrow> int \<Rightarrow> u8 \<Rightarrow> cursor \<Rightarrow> cursor option" where
  "format_number end' num base width precision type st =
    (if base < 2 \<or> base > 16 then Some (0, snd st)
     else
       let type = if has type LEFT then type AND NOT ZEROPAD else type;
           need_prefix = has type PREFIX \<and> base \<noteq> 10;
           upper = has type LARGE;
           zero = if has type ZEROPAD then ch CHR ''0'' else ch CHR '' '';
           (sign, num) = number_sign type num;
           width = number_width width sign need_prefix base
       in Option.bind (put_number num base upper) (\<lambda>reversed_string.
         let i = int (length reversed_string);
             precision = if i > precision then i else precision;
             width = width - precision;
             (width, st) = if \<not> has type (ZEROPAD OR LEFT) then pad_loop end' (ch CHR '' '') width st else (width, st);
             st = out_prefix end' need_prefix base upper (out_sign end' sign st);
             (width, st) = if \<not> has type LEFT then pad_loop end' zero width st else (width, st);
             st = zero_loop end' i precision st;
             st = rev_loop end' reversed_string (length reversed_string) st
         in Some (snd (pad_loop end' (ch CHR '' '') width st))))"

section \<open>Directives\<close>

text \<open>The byte at the format pointer, 0 at the end.\<close>

definition cur :: "u8 list \<Rightarrow> u8" where
  "cur fs = (case fs of [] \<Rightarrow> 0 | c # _ \<Rightarrow> c)"

fun va_num :: "arg list \<Rightarrow> (u64 \<times> arg list) res" where
  "va_num (Num w # args) = Inr (w, args)"
| "va_num args = Inl Oob"

fun va_str :: "arg list \<Rightarrow> (u8 list option \<times> arg list) res" where
  "va_str (Str s # args) = Inr (s, args)"
| "va_str args = Inl Oob"

definition va_int :: "arg list \<Rightarrow> (int \<times> arg list) res" where
  "va_int args = bindR (va_num args) (\<lambda>(w, args). Inr (s32 (uint w), args))"

fun scan_flags :: "u8 list \<Rightarrow> u8 \<Rightarrow> u8 \<times> u8 list" where
  "scan_flags (c # fs) type =
    (if c = ch CHR ''#'' then scan_flags fs (type OR PREFIX)
     else if c = ch CHR ''0'' then scan_flags fs (type OR ZEROPAD)
     else if c = ch CHR ''+'' then scan_flags fs (type OR SIGN_PLUS)
     else if c = ch CHR '' '' then scan_flags fs (type OR SIGN_PLUS_SPACE)
     else if c = ch CHR ''-'' then scan_flags fs (type OR LEFT)
     else (type, c # fs))"
| "scan_flags [] type = (type, [])"

definition scan_width :: "u8 list \<Rightarrow> arg list \<Rightarrow> u8 \<Rightarrow> (int \<times> u8 \<times> arg list \<times> u8 list) res" where
  "scan_width fs args type =
    (if isdigit (cur fs) then let (num, fs) = scan_number fs 0 in Inr (s32 (uint num), type, args, fs)
     else if cur fs = ch CHR ''*'' then
       bindR (va_int args) (\<lambda>(width, args).
         if width < 0 then Inr (- width, type OR LEFT, args, tl fs) else Inr (width, type, args, tl fs))
     else Inr (- 1, type, args, fs))"

definition scan_precision :: "u8 list \<Rightarrow> arg list \<Rightarrow> (int \<times> arg list \<times> u8 list) res" where
  "scan_precision fs args =
    (if cur fs = ch CHR ''.'' then
       let fs = tl fs
       in bindR (if isdigit (cur fs) then let (num, fs) = scan_number fs 0 in Inr (s32 (uint num), args, fs)
            else if cur fs = ch CHR ''*'' then bindR (va_int args) (\<lambda>(precision, args). Inr (precision, args, tl fs))
            else Inr (- 1, args, fs))
          (\<lambda>(precision, args, fs). Inr (if precision < 0 then 0 else precision, args, fs))
     else Inr (- 1, args, fs))"

text \<open>\<open>qualifier = -1\<close> is the byte \<open>0xFF\<close>.\<close>

definition scan_qualifier :: "u8 list \<Rightarrow> u8 \<times> u8 list" where
  "scan_qualifier fs =
    (if cur fs \<in> {ch CHR ''h'', ch CHR ''l'', ch CHR ''L''} then
       let qualifier = cur fs; fs = tl fs
       in if qualifier = ch CHR ''l'' \<and> cur fs = ch CHR ''l'' then (ch CHR ''L'', tl fs) else (qualifier, fs)
     else (0xFF, fs))"

text \<open>
  \<open>while (--width > 0)\<close> for \<open>%c\<close> and \<open>while (length < width--)\<close> for \<open>%s\<close>, which both functions of
  the file have, over the output \<open>out\<close> of one byte.
\<close>

function char_loop :: "(u8 \<Rightarrow> 's \<Rightarrow> 's) \<Rightarrow> int \<Rightarrow> 's \<Rightarrow> int \<times> 's" where
  "char_loop out width st =
    (let width = width - 1
     in if width > 0 then char_loop out width (out (ch CHR '' '') st) else (width, st))"
  by pat_completeness auto
termination
  by (relation "measure (\<lambda>(out, width, st). nat width)") auto

function str_loop :: "(u8 \<Rightarrow> 's \<Rightarrow> 's) \<Rightarrow> int \<Rightarrow> int \<Rightarrow> 's \<Rightarrow> int \<times> 's" where
  "str_loop out len width st =
    (if len < width then str_loop out len (width - 1) (out (ch CHR '' '') st) else (width - 1, st))"
  by pat_completeness auto
termination
  by (relation "measure (\<lambda>(out, len, width, st). nat (width - len))") auto

primrec copy_loop :: "(u8 \<Rightarrow> 's \<Rightarrow> 's) \<Rightarrow> nat \<Rightarrow> u8 list \<Rightarrow> 's \<Rightarrow> 's" where
  "copy_loop out 0 s st = st"
| "copy_loop out (Suc i) s st = copy_loop out i (tl s) (out (cur s) st)"

declare char_loop.simps [simp del] str_loop.simps [simp del]

definition format_char :: "(u8 \<Rightarrow> 's \<Rightarrow> 's) \<Rightarrow> int \<Rightarrow> u8 \<Rightarrow> u8 \<Rightarrow> 's \<Rightarrow> 's" where
  "format_char out width type c st =
    (let (width, st) = if \<not> has type LEFT then char_loop out width st else (width, st);
         st = out c st
     in snd (char_loop out width st))"

definition format_string :: "(u8 \<Rightarrow> 's \<Rightarrow> 's) \<Rightarrow> int \<Rightarrow> int \<Rightarrow> u8 \<Rightarrow> u8 list option \<Rightarrow> 's \<Rightarrow> 's" where
  "format_string out width precision type s st =
    (let s = (case s of None \<Rightarrow> map ch ''<NULL>'' | Some s \<Rightarrow> s);
         len = s32 (int (bound_string_length s (nat (precision mod 2 ^ 64))));
         (width, st) = if \<not> has type LEFT then str_loop out len width st else (width, st);
         st = copy_loop out (nat len) s st
     in snd (str_loop out len width st))"

text \<open>The argument of an integer conversion, by its qualifier.\<close>

definition num_arg :: "u8 \<Rightarrow> u8 \<Rightarrow> u64 \<Rightarrow> u64" where
  "num_arg qualifier type w =
    (if qualifier = ch CHR ''L'' then w
     else if qualifier = ch CHR ''l'' then if has type SIGN then word_of_int (s32 (uint w)) else w
     else if qualifier = ch CHR ''h'' then
       let w = ucast (ucast w :: u16) in if has type SIGN then scast (ucast w :: u16) else w
     else let w = ucast (ucast w :: u32) in if has type SIGN then word_of_int (s32 (uint w)) else w)"

definition liftR :: "'a option \<Rightarrow> 'a res" where
  "liftR x = (case x of None \<Rightarrow> Inl Stuck | Some y \<Rightarrow> Inr y)"

definition conversion ::
    "nat \<Rightarrow> int \<Rightarrow> int \<Rightarrow> u8 \<Rightarrow> u8 \<Rightarrow> u8 list \<Rightarrow> arg list \<Rightarrow> cursor \<Rightarrow> (u8 list \<times> arg list \<times> cursor) res" where
  "conversion end' width precision qualifier type fs args st =
    (let c = cur fs; integer = (\<lambda>base type. bindR (va_num args) (\<lambda>(w, args).
           bindR (liftR (format_number end' (num_arg qualifier type w) base width precision type st)) (\<lambda>st.
             Inr (tl fs, args, st))))
     in if c = ch CHR ''%'' then Inr (tl fs, args, bound_string_output end' (ch CHR ''%'') st)
        else if c = ch CHR ''c'' then
          bindR (va_int args) (\<lambda>(w, args). Inr (tl fs, args, format_char (bound_string_output end') width type (word_of_int w) st))
        else if c = ch CHR ''s'' then
          bindR (va_str args) (\<lambda>(s, args). Inr (tl fs, args, format_string (bound_string_output end') width precision type s st))
        else if c = ch CHR ''o'' then integer 8 type
        else if c = ch CHR ''X'' then integer 16 (type OR LARGE)
        else if c = ch CHR ''x'' then integer 16 type
        else if c = ch CHR ''d'' \<or> c = ch CHR ''i'' then integer 10 (type OR SIGN)
        else if c = ch CHR ''u'' then integer 10 type
        else if c = ch CHR ''p'' then
          bindR (va_num args) (\<lambda>(p, args).
            let (width, type) = if width = - 1 then (16, type OR ZEROPAD) else (width, type)
            in bindR (liftR (format_number end' p 16 width precision type st)) (\<lambda>st. Inr (tl fs, args, st)))
        else
          let st = bound_string_output end' (ch CHR ''%'') st
          in Inr (tl fs, args, if c \<noteq> 0 then bound_string_output end' c st else st))"

definition directive :: "nat \<Rightarrow> u8 list \<Rightarrow> arg list \<Rightarrow> cursor \<Rightarrow> (u8 list \<times> arg list \<times> cursor) res" where
  "directive end' fs args st =
    (let (type, fs) = scan_flags fs 0
     in bindR (scan_width fs args type) (\<lambda>(width, type, args, fs).
        bindR (scan_precision fs args) (\<lambda>(precision, args, fs).
        let (qualifier, fs) = scan_qualifier fs
        in conversion end' width precision qualifier type fs args st)))"

text \<open>A directive leaves the format pointer not before its first byte.\<close>

lemma scan_flags_length: "length (snd (scan_flags fs t)) \<le> length fs"
  by (induction fs t rule: scan_flags.induct) auto

lemma scan_number_length: "length (snd (scan_number fs n)) \<le> length fs"
  by (induction fs n rule: scan_number.induct) auto

lemma directive_length:
  assumes "directive end' fs args st = Inr (fs', args', st')" shows "length fs' \<le> length fs"
proof -
  obtain t fs1 where 1: "scan_flags fs 0 = (t, fs1)" by (cases "scan_flags fs 0")
  obtain w t2 a2 fs2 where 2: "scan_width fs1 args t = Inr (w, t2, a2, fs2)"
    using assms 1 by (auto simp: directive_def bindR_eq_Inr_iff)
  obtain p a3 fs3 where 3: "scan_precision fs2 a2 = Inr (p, a3, fs3)"
    using assms 1 2 by (auto simp: directive_def bindR_eq_Inr_iff)
  obtain q fs4 where 4: "scan_qualifier fs3 = (q, fs4)" by (cases "scan_qualifier fs3")
  have "conversion end' w p q t2 fs4 a3 st = Inr (fs', args', st')" using assms 1 2 3 4 by (simp add: directive_def)
  then have "length fs' \<le> length fs4"
    by (auto simp: conversion_def Let_def bindR_eq_Inr_iff split: if_splits prod.splits)
  also have "\<dots> \<le> length fs3" using 4 by (auto simp: scan_qualifier_def Let_def split: if_splits)
  also have "\<dots> \<le> length fs2"
    using 3 scan_number_length [of "tl fs2" 0] 
    by (auto simp: scan_precision_def Let_def bindR_eq_Inr_iff split: if_splits prod.splits)
  also have "\<dots> \<le> length fs1"
    using 2 scan_number_length [of fs1 0]
    by (auto simp: scan_width_def Let_def bindR_eq_Inr_iff split: if_splits prod.splits)
  also have "\<dots> \<le> length fs" using 1 scan_flags_length [of fs 0] by simp
  finally show ?thesis .
qed

lemma bindR_cong [fundef_cong]:
  "r = r' \<Longrightarrow> (\<And>x. r' = Inr x \<Longrightarrow> f x = g x) \<Longrightarrow> bindR r f = bindR r' g"
  by (cases r') auto

function format_loop :: "nat \<Rightarrow> u8 list \<Rightarrow> arg list \<Rightarrow> cursor \<Rightarrow> cursor res" where
  "format_loop end' [] args st = Inr st"
| "format_loop end' (c # fs) args st =
    (if c \<noteq> ch CHR ''%'' then format_loop end' fs args (bound_string_output end' c st)
     else bindR (directive end' fs args st) (\<lambda>(fs, args, st). format_loop end' fs args st))"
  by pat_completeness auto
termination
  by (relation "measure (\<lambda>(end', fs, args, st). length fs)") (auto dest: directive_length)

text \<open>\<open>vsnprintf\<close>, for a buffer that does not reach the end of the address space.\<close>

definition vsnprintf :: "nat \<Rightarrow> nat \<Rightarrow> u8 list \<Rightarrow> arg list \<Rightarrow> store \<Rightarrow> (int \<times> store) res" where
  "vsnprintf string size' format args m =
    (let end' = string + size'
     in bindR (format_loop end' format args (string, m)) (\<lambda>(pos, m).
       Inr (s32 (int pos - int string),
         if size' > 0 then if pos < end' then m(pos := 0) else m(end' - 1 := 0) else m)))"

section \<open>Text of a number\<close>

text \<open>Output of a sequence of bytes.\<close>

definition sends :: "(u8 \<Rightarrow> 's \<Rightarrow> 's) \<Rightarrow> u8 list \<Rightarrow> 's \<Rightarrow> 's" where
  "sends out xs st = foldl (\<lambda>st c. out c st) st xs"

abbreviation outs :: "nat \<Rightarrow> u8 list \<Rightarrow> cursor \<Rightarrow> cursor" where
  "outs end' \<equiv> sends (bound_string_output end')"

lemma sends_simps [simp]:
  "sends out [] st = st" "sends out (c # cs) st = sends out cs (out c st)"
  by (simp_all add: sends_def)

lemma outs_append: "sends out (xs @ ys) st = sends out ys (sends out xs st)"
  by (simp add: sends_def)

lemma outs_blit: "outs end' xs (pos, m) = (pos + length xs, blit m pos (take (end' - pos) xs))"
proof (induction xs arbitrary: pos m)
  case (Cons c cs)
  show ?case
  proof (cases "pos < end'")
    case True
    then have "end' - pos = Suc (end' - (pos + 1))" by simp
    then show ?thesis using Cons True by (simp add: bound_string_output_def blit_Cons fun_upd_def)
  next
    case False
    then show ?thesis using Cons by (simp add: bound_string_output_def)
  qed
qed simp

lemma pad_loop_outs: "pad_loop end' c w st = (min (w - 1) (- 1), outs end' (replicate (nat w) c) st)"
proof (induction end' c w st rule: pad_loop.induct)
  case (1 end' c w st)
  show ?case
  proof (cases "w \<ge> 1")
    case True
    then have "nat w = Suc (nat (w - 1))" by simp
    then show ?thesis using 1 True by (subst pad_loop.simps) (simp add: Let_def)
  next
    case False
    then show ?thesis by (subst pad_loop.simps) (simp add: Let_def)
  qed
qed

lemma zero_loop_outs: "zero_loop end' i p st = outs end' (replicate (nat (p - i)) (ch CHR ''0'')) st"
proof (induction end' i p st rule: zero_loop.induct)
  case (1 end' i p st)
  show ?case
  proof (cases "i \<le> p - 1")
    case True
    then have "nat (p - i) = Suc (nat (p - 1 - i))" by simp
    then show ?thesis using 1 True by (subst zero_loop.simps) (simp add: Let_def)
  next
    case False
    then show ?thesis by (subst zero_loop.simps) (simp add: Let_def)
  qed
qed

lemma rev_loop_outs: "i \<le> length rs \<Longrightarrow> rev_loop end' rs i st = outs end' (rev (take i rs)) st"
  by (induction i arbitrary: st) (simp_all add: take_Suc_conv_app_nth)

text \<open>The digits of a number in base \<open>b\<close>, the highest one first.\<close>

definition digit_chr :: "bool \<Rightarrow> nat \<Rightarrow> u8" where
  "digit_chr upper d = (if upper then upper_hex_digits else lower_hex_digits) ! d"

function digits_of :: "nat \<Rightarrow> bool \<Rightarrow> nat \<Rightarrow> u8 list" where
  "digits_of b upper n =
    (if n < b \<or> b < 2 then [digit_chr upper n] else digits_of b upper (n div b) @ [digit_chr upper (n mod b)])"
  by pat_completeness auto
termination
  by (relation "measure (\<lambda>(b, upper, n). n)") auto

declare digits_of.simps [simp del]

lemma digits_of_length:
  assumes "2 \<le> b" "n < b ^ k" "0 < k" shows "length (digits_of b upper n) \<le> k"
  using assms
proof (induction b upper n arbitrary: k rule: digits_of.induct)
  case (1 b upper n)
  show ?case
  proof (cases "n < b")
    case True
    then show ?thesis using 1 by (subst digits_of.simps) simp
  next
    case False
    then have k: "1 < k" using 1 by (cases "k = 1") auto
    then have "n < b ^ (k - 1) * b" using 1 by (simp flip: power_Suc2)
    then have "n div b < b ^ (k - 1)" using 1 by (simp add: less_mult_imp_div_less)
    then show ?thesis using 1 False k by (subst digits_of.simps) fastforce
  qed
qed

lemma put_loop_digits:
  assumes b: "2 \<le> unat b" "unat b \<le> 16"
  shows "num \<noteq> 0 \<Longrightarrow> put_loop (if upper then upper_hex_digits else lower_hex_digits) (ucast (b :: u8)) num
    = Some (rev (digits_of (unat b) upper (unat num)))"
proof (induction "unat num" arbitrary: num rule: less_induct)
  case less
  have ub: "unat (ucast b :: u64) = unat b" by (simp add: unat_ucast_up)
  then have nz: "(ucast b :: u64) \<noteq> 0" using b by (metis not_numeral_le_zero unsigned_0)
  have md: "mod64u num (ucast b) = Some (num mod ucast b)" "div64u num (ucast b) = num div ucast b"
    using nz by (simp_all add: mod64u_def div64u_def modu_correct divu_eq)
  have un: "unat (num mod ucast b) = unat num mod unat b" "unat (num div ucast b) = unat num div unat b"
    by (simp_all add: unat_mod unat_div_distrib ub)
  let ?n = "num div ucast b :: u64"
  have rec: "put_loop (if upper then upper_hex_digits else lower_hex_digits) (ucast b) ?n =
    Some (if unat num < unat b then [] else rev (digits_of (unat b) upper (unat num div unat b)))"
  proof (cases "unat num < unat b")
    case True
    then have "?n = 0" using un(2) by (simp add: unat_eq_0 [symmetric])
    then show ?thesis using True by (subst put_loop.simps) simp
  next
    case False
    then have "unat ?n \<noteq> 0" using un(2) b by (simp add: div_eq_0_iff)
    then have "?n \<noteq> 0" by auto
    moreover have "unat ?n < unat num" using un(2) b less.prems by (simp add: unat_gt_0)
    ultimately show ?thesis using less.hyps [of ?n] un(2) False by simp
  qed
  have "digits_of (unat b) upper (unat num) =
      (if unat num < unat b then [] else digits_of (unat b) upper (unat num div unat b)) @ [digit_chr upper (unat num mod unat b)]"
    using b by (subst digits_of.simps) simp
  then show ?case using less.prems by (subst put_loop.simps) (simp add: md rec un digit_chr_def)
qed

lemma put_number_digits:
  assumes b: "2 \<le> unat b" "unat b \<le> 16"
  shows "put_number num b upper = Some (rev (digits_of (unat b) upper (unat num)))"
proof (cases "num = 0")
  case True
  have "digits_of (unat b) upper 0 = [ch CHR ''0'']"
    using b by (subst digits_of.simps) (simp add: digit_chr_def upper_hex_digits_def lower_hex_digits_def)
  then show ?thesis using True by (simp add: put_number_def)
next
  case False
  then show ?thesis using put_loop_digits [OF b False, of upper] by (simp add: put_number_def Let_def)
qed

text \<open>
  What a number should look like: sign, prefix, zeros up to the precision, digits; blanks on
  the left, or on the right with \<open>LEFT\<close>, or zeros behind the prefix with \<open>ZEROPAD\<close>, up to the width.
\<close>

definition number_text :: "u64 \<Rightarrow> u8 \<Rightarrow> int \<Rightarrow> int \<Rightarrow> u8 \<Rightarrow> u8 list" where
  "number_text num base width precision type =
    (let (s, mag) = number_sign type num;
         sign = if s = 0 then [] else [s];
         pre = if has type PREFIX \<and> base \<noteq> 10
           then ch CHR ''0'' # (if base = 16 then [if has type LARGE then ch CHR ''X'' else ch CHR ''x''] else [])
           else [];
         ds = digits_of (unat base) (has type LARGE) (unat mag);
         zs = replicate (nat precision - length ds) (ch CHR ''0'');
         fill = nat width - length (sign @ pre @ zs @ ds)
     in if has type LEFT then sign @ pre @ zs @ ds @ replicate fill (ch CHR '' '')
        else if has type ZEROPAD then sign @ pre @ replicate fill (ch CHR ''0'') @ zs @ ds
        else replicate fill (ch CHR '' '') @ sign @ pre @ zs @ ds)"

lemma has_or: "has t (f OR g) \<longleftrightarrow> has t f \<or> has t g"
  by (simp add: has_def bit.conj_disj_distrib or_eq_0_iff)

text \<open>Clearing \<open>ZEROPAD\<close> changes that flag only.\<close>

lemma has_clear:
  "f \<in> {SIGN, SIGN_PLUS, SIGN_PLUS_SPACE, LEFT, LARGE, PREFIX} \<Longrightarrow> has (t AND NOT ZEROPAD) f = has t f"
  "\<not> has (t AND NOT ZEROPAD) ZEROPAD"
  by (auto simp: has_def flag_defs and.assoc)

lemma fill_eq: "nat (w - int k - max (int l) p) = nat w - (k + (nat p - l) + l)"
  by (simp add: max_def nat_diff_distrib) linarith

lemma format_number_text:
  assumes b: "2 \<le> unat base" "unat base \<le> 16"
  shows "format_number end' num base width precision type st = Some (outs end' (number_text num base width precision type) st)"
proof -
  have range: "\<not> (base < 2 \<or> base > 16)" using b by (simp add: word_less_nat_alt)
  define t where "t = (if has type LEFT then type AND NOT ZEROPAD else type)"
  have flags: "has t SIGN = has type SIGN" "has t SIGN_PLUS = has type SIGN_PLUS" "has t SIGN_PLUS_SPACE = has type SIGN_PLUS_SPACE"
    "has t LEFT = has type LEFT" "has t LARGE = has type LARGE" "has t PREFIX = has type PREFIX"
    "has t ZEROPAD = (has type ZEROPAD \<and> \<not> has type LEFT)"
    by (simp_all add: t_def has_clear)
  obtain sg mag where sm: "number_sign type num = (sg, mag)" by (cases "number_sign type num")
  have sm': "number_sign t num = (sg, mag)" using sm unfolding number_sign_def flags .
  define ds where "ds = digits_of (unat base) (has type LARGE) (unat mag)"
  define sign where "sign = (if sg = 0 then [] else [sg])"
  define pre where "pre = (if has type PREFIX \<and> base \<noteq> 10
    then ch CHR ''0'' # (if base = 16 then [if has type LARGE then ch CHR ''X'' else ch CHR ''x''] else []) else [])"
  have so: "out_sign end' sg st = outs end' sign st" for st by (simp add: sign_def out_sign_def)
  have po: "out_prefix end' (has type PREFIX \<and> base \<noteq> 10) base (has type LARGE) st = outs end' pre st" for st
    by (simp add: pre_def out_prefix_def Let_def)
  have w: "number_width width sg (has type PREFIX \<and> base \<noteq> 10) base = width - int (length sign + length pre)"
    by (simp add: sign_def pre_def Let_def number_width_def)
  define p' where "p' = (if int (length ds) > precision then int (length ds) else precision)"
  have p': "nat (p' - int (length ds)) = nat precision - length ds" by (simp add: p'_def nat_diff_distrib)
  have fl: "nat (width - (int (length sign) + int (length pre)) - p') =
      nat width - (length sign + (length pre + (nat precision - length ds + length ds)))"
    using fill_eq [of width "length sign + length pre" "length ds" precision]
    by (simp add: p'_def max_def add.assoc split: if_splits)
  have pn: "put_number mag base (has type LARGE) = Some (rev ds)" using put_number_digits [OF b] by (simp add: ds_def)
  have "format_number end' num base width precision type st =
    Some (let (w, st) = if \<not> has t (ZEROPAD OR LEFT) then pad_loop end' (ch CHR '' '') (width - int (length sign + length pre) - p') st
           else (width - int (length sign + length pre) - p', st);
         st = outs end' pre (outs end' sign st);
         (w, st) = if \<not> has t LEFT then pad_loop end' (if has t ZEROPAD then ch CHR ''0'' else ch CHR '' '') w st else (w, st)
       in snd (pad_loop end' (ch CHR '' '') w (rev_loop end' (rev ds) (length ds) (zero_loop end' (int (length ds)) p' st))))"
    using range unfolding format_number_def t_def [symmetric]
    by (simp only: Let_def if_False sm' prod.case flags(5,6) so po w pn bind.bind_lunit length_rev p'_def [symmetric] split: prod.splits) simp
  also have "\<dots> = Some (outs end' (number_text num base width precision type) st)"
    unfolding number_text_def sm
    by (simp add: Let_def flags has_or pad_loop_outs zero_loop_outs rev_loop_outs outs_append fl p'
        flip: sign_def pre_def ds_def)
  finally show ?thesis .
qed

section \<open>Text of a format\<close>

definition blanks :: "int \<Rightarrow> u8 list" where
  "blanks k = replicate (nat k) (ch CHR '' '')"

definition char_text :: "int \<Rightarrow> u8 \<Rightarrow> u8 \<Rightarrow> u8 list" where
  "char_text width type c = (if has type LEFT then c # blanks (width - 1) else blanks (width - 1) @ [c])"

definition string_text :: "int \<Rightarrow> int \<Rightarrow> u8 \<Rightarrow> u8 list option \<Rightarrow> u8 list" where
  "string_text width precision type s =
    (let s = (case s of None \<Rightarrow> map ch ''<NULL>'' | Some s \<Rightarrow> s);
         n = s32 (int (min (length s) (nat (precision mod 2 ^ 64))));
         pad = blanks (width - n)
     in if has type LEFT then take (nat n) s @ pad else pad @ take (nat n) s)"

definition conversion_text ::
    "int \<Rightarrow> int \<Rightarrow> u8 \<Rightarrow> u8 \<Rightarrow> u8 list \<Rightarrow> arg list \<Rightarrow> (u8 list \<times> arg list \<times> u8 list) res" where
  "conversion_text width precision qualifier type fs args =
    (let c = cur fs; integer = (\<lambda>base type. bindR (va_num args) (\<lambda>(w, args).
           Inr (tl fs, args, number_text (num_arg qualifier type w) base width precision type)))
     in if c = ch CHR ''%'' then Inr (tl fs, args, [ch CHR ''%''])
        else if c = ch CHR ''c'' then bindR (va_int args) (\<lambda>(w, args). Inr (tl fs, args, char_text width type (word_of_int w)))
        else if c = ch CHR ''s'' then bindR (va_str args) (\<lambda>(s, args). Inr (tl fs, args, string_text width precision type s))
        else if c = ch CHR ''o'' then integer 8 type
        else if c = ch CHR ''X'' then integer 16 (type OR LARGE)
        else if c = ch CHR ''x'' then integer 16 type
        else if c = ch CHR ''d'' \<or> c = ch CHR ''i'' then integer 10 (type OR SIGN)
        else if c = ch CHR ''u'' then integer 10 type
        else if c = ch CHR ''p'' then
          bindR (va_num args) (\<lambda>(p, args). Inr (tl fs, args,
            if width = - 1 then number_text p 16 16 precision (type OR ZEROPAD) else number_text p 16 width precision type))
        else Inr (tl fs, args, ch CHR ''%'' # (if c \<noteq> 0 then [c] else [])))"

definition directive_text :: "u8 list \<Rightarrow> arg list \<Rightarrow> (u8 list \<times> arg list \<times> u8 list) res" where
  "directive_text fs args =
    (let (type, fs) = scan_flags fs 0
     in bindR (scan_width fs args type) (\<lambda>(width, type, args, fs).
        bindR (scan_precision fs args) (\<lambda>(precision, args, fs).
        let (qualifier, fs) = scan_qualifier fs
        in conversion_text width precision qualifier type fs args)))"

lemma char_loop_outs: "char_loop out w st = (min (w - 1) 0, sends out (blanks (w - 1)) st)"
proof (induction out w st rule: char_loop.induct)
  case (1 out w st)
  show ?case
  proof (cases "w - 1 > 0")
    case True
    then have "nat (w - 1) = Suc (nat (w - 2))" by simp
    then show ?thesis using 1 True by (subst char_loop.simps) (simp add: Let_def blanks_def)
  next
    case False
    then show ?thesis by (subst char_loop.simps) (simp add: Let_def blanks_def)
  qed
qed

lemma str_loop_outs: "str_loop out len w st = (min w len - 1, sends out (blanks (w - len)) st)"
proof (induction out len w st rule: str_loop.induct)
  case (1 out len w st)
  show ?case
  proof (cases "len < w")
    case True
    then have "nat (w - len) = Suc (nat (w - 1 - len))" by simp
    then show ?thesis using 1 True by (subst str_loop.simps) (simp add: blanks_def)
  next
    case False
    then show ?thesis by (subst str_loop.simps) (simp add: blanks_def)
  qed
qed

lemma copy_loop_outs: "i \<le> length s \<Longrightarrow> copy_loop out i s st = sends out (take i s) st"
proof (induction i arbitrary: s st)
  case (Suc i)
  then show ?case by (cases s) (simp_all add: cur_def)
qed simp

lemma bound_string_length_eq: "bound_string_length s n = min (length s) n"
  by (induction s n rule: bound_string_length.induct) auto

lemma s32_le: "0 \<le> x \<Longrightarrow> s32 x \<le> x"
  using zmod_le_nonneg_dividend [of "x + 2 ^ 31" "2 ^ 32"] by (simp add: s32_def)

lemma format_char_text: "format_char out width type c st = sends out (char_text width type c) st"
  by (simp add: format_char_def char_text_def char_loop_outs outs_append) (simp add: blanks_def)

lemma format_string_text: "format_string out width precision type s st = sends out (string_text width precision type s) st"
proof -
  define x where "x = (case s of None \<Rightarrow> map ch ''<NULL>'' | Some s \<Rightarrow> s)"
  define n where "n = s32 (int (min (length x) (nat (precision mod 2 ^ 64))))"
  have "n \<le> int (length x)" using s32_le [of "int (min (length x) (nat (precision mod 2 ^ 64)))"] by (simp add: n_def)
  then have len: "nat n \<le> length x" by simp
  have "format_string out width precision type s st =
    (let (width, st) = if \<not> has type LEFT then str_loop out n width st else (width, st);
         st = copy_loop out (nat n) x st
     in snd (str_loop out n width st))"
    unfolding format_string_def x_def [symmetric] bound_string_length_eq n_def by (simp only: Let_def)
  also have "\<dots> = sends out (string_text width precision type s) st"
    unfolding string_text_def x_def [symmetric] Let_def n_def [symmetric]
    by (simp add: str_loop_outs copy_loop_outs [OF len] outs_append) (simp add: blanks_def)
  finally show ?thesis .
qed

lemma liftR_Some [simp]: "liftR (Some x) = Inr x"
  by (simp add: liftR_def)

lemma bindR_assoc: "bindR (bindR r f) g = bindR r (\<lambda>x. bindR (f x) g)"
  by (cases r) auto

abbreviation emit :: "nat \<Rightarrow> cursor \<Rightarrow> u8 list \<times> arg list \<times> u8 list \<Rightarrow> (u8 list \<times> arg list \<times> cursor) res" where
  "emit end' st \<equiv> (\<lambda>(fs, args, t). Inr (fs, args, outs end' t st))"

lemma conversion_outs:
  "conversion end' width precision qualifier type fs args st =
   bindR (conversion_text width precision qualifier type fs args) (emit end' st)"
proof -
  have num: "format_number end' w b width precision type st = Some (outs end' (number_text w b width precision type) st)"
    if "b = 8 \<or> b = 10 \<or> b = 16" for w b width type
    using that by (intro format_number_text) auto
  show ?thesis
    unfolding conversion_def conversion_text_def
    by (auto simp: Let_def num bindR_assoc format_char_text format_string_text split: prod.splits intro!: bindR_cong)
qed

lemma directive_outs: "directive end' fs args st = bindR (directive_text fs args) (emit end' st)"
  unfolding directive_def directive_text_def
  by (auto simp: conversion_outs bindR_assoc Let_def split: prod.splits intro!: bindR_cong)

lemma directive_text_length:
  assumes "directive_text fs args = Inr (fs', args', t)" shows "length fs' \<le> length fs"
  using directive_length [of 0 fs args "(0, \<lambda>_. 0)"] assms by (simp add: directive_outs)

function format_text :: "u8 list \<Rightarrow> arg list \<Rightarrow> u8 list res" where
  "format_text [] args = Inr []"
| "format_text (c # fs) args =
    (if c \<noteq> ch CHR ''%'' then bindR (format_text fs args) (\<lambda>t. Inr (c # t))
     else bindR (directive_text fs args) (\<lambda>(fs, args, t). bindR (format_text fs args) (\<lambda>t'. Inr (t @ t'))))"
  by pat_completeness auto
termination
  by (relation "measure (\<lambda>(fs, args). length fs)") (auto dest: directive_text_length)

lemma format_loop_outs: "format_loop end' fs args st = bindR (format_text fs args) (\<lambda>t. Inr (outs end' t st))"
proof (induction fs args arbitrary: st rule: format_text.induct)
  case (2 c fs args)
  show ?case
  proof (cases "c = ch CHR ''%''")
    case True
    show ?thesis
    proof (cases "directive_text fs args")
      case (Inr x)
      obtain fs' args' t where x: "x = (fs', args', t)" by (cases x)
      have "format_loop end' fs' args' st = bindR (format_text fs' args') (\<lambda>t. Inr (outs end' t st))" for st
        by (rule "2.IH"(2) [of x fs' "(args', t)" args' t]) (use True Inr x in simp_all)
      then show ?thesis unfolding format_loop.simps format_text.simps directive_outs bindR_assoc Inr x
        using True by (simp add: outs_append bindR_assoc)
    qed (use True in \<open>simp add: directive_outs\<close>)
  next
    case False
    then show ?thesis using "2.IH"(1) by (simp add: bindR_assoc)
  qed
qed simp

lemma vsnprintf_text:
  "vsnprintf string size' format args m =
    bindR (format_text format args) (\<lambda>t. Inr (s32 (int (length t)),
      if size' > 0 then blit m string (take (size' - 1) t @ [0]) else m))"
proof -
  have "(case outs (string + size') t (string, m) of (pos, m) \<Rightarrow>
      Inr (s32 (int pos - int string), if size' > 0 then if pos < string + size' then m(pos := 0) else m(string + size' - 1 := 0) else m))
    = (Inr (s32 (int (length t)), if size' > 0 then blit m string (take (size' - 1) t @ [0]) else m) :: (int \<times> store) res)" for t
  proof -
    have "(blit m string (take size' t))(string + length t := 0) = blit m string (take (size' - 1) t @ [0])"
      if "length t < size'" using that by (auto simp: blit_def fun_eq_iff nth_append)
    moreover have "(blit m string (take size' t))(string + size' - 1 := 0) = blit m string (take (size' - 1) t @ [0])"
      if "size' \<le> length t" "size' > 0" using that by (auto simp: blit_def fun_eq_iff nth_append)
    ultimately show ?thesis by (auto simp: outs_blit)
  qed
  then show ?thesis unfolding vsnprintf_def Let_def format_loop_outs bindR_assoc bindR_Inr by (simp only:)
qed

text \<open>
  C7: \<open>vsnprintf\<close> truncates. For every format and every list of arguments there is one text,
  given by the flags, width, precision, qualifier and conversion of each directive, that does
  not depend on the buffer. The call returns the length of that text; a buffer of nonzero size
  receives as much of it as fits, always terminated, and no byte outside the buffer or
  behind the terminator is written. Only a missing argument or one of the wrong type can fail.
\<close>

theorem vsnprintf_exact:
  "vsnprintf string size' format args m =
    bindR (format_text format args) (\<lambda>t. Inr (s32 (int (length t)),
      if size' > 0 then blit m string (take (size' - 1) t @ [0]) else m))"
  by (rule vsnprintf_text)

section \<open>Printing and parsing\<close>

lemma digit_chr_val:
  assumes "d < 16" shows "digit_val (digit_chr upper d) = Some d" "digit_chr upper d \<noteq> 0"
proof -
  have "d \<in> {0, 1, 2, 3, 4, 5, 6, 7, 8, 9, 10, 11, 12, 13, 14, 15}" using assms by (simp, presburger)
  then have "digit_val (digit_chr upper d) = Some d \<and> digit_chr upper d \<noteq> 0"
    by (elim insertE emptyE) (simp_all add: digit_chr_def upper_hex_digits_def lower_hex_digits_def digit_val_def)
  then show "digit_val (digit_chr upper d) = Some d" "digit_chr upper d \<noteq> 0" by simp_all
qed

lemma bytes_at_blit: "bytes_at (blit m p xs) p xs"
proof -
  have "bytes_at m' p xs \<longleftrightarrow> (\<forall>i<length xs. m' (p + i) = xs ! i)" for m'
    by (induction xs arbitrary: p) (auto simp: nth_Cons' less_Suc_eq_0_disj)
  then show ?thesis by (simp add: blit_def)
qed

lemma number_snoc: "number b n (ds @ [c]) = number b n ds * b + the (digit_val c)"
  by (simp add: number_def)

lemma digits_of_number:
  assumes "2 \<le> b" "b \<le> 16"
  shows "number b 0 (digits_of b upper n) = n \<and> (\<forall>c\<in>set (digits_of b upper n). digit_in b c \<and> c \<noteq> 0) \<and> digits_of b upper n \<noteq> []"
  using assms
proof (induction b upper n rule: digits_of.induct)
  case (1 b upper n)
  have lt: "n mod b < b" using 1(2) by simp
  then have "n mod b < 16" using 1(3) by simp
  then have d: "digit_val (digit_chr upper (n mod b)) = Some (n mod b)" "digit_chr upper (n mod b) \<noteq> 0"
    using digit_chr_val by blast+
  from lt have "digit_in b (digit_chr upper (n mod b))" using d by (simp add: digit_in_def)
  then show ?case using 1 d by (cases "n < b") (simp_all add: digits_of.simps [of b upper n] number_snoc)
qed

lemma number_text_plain:
  assumes "\<not> has type LEFT" "\<not> has type ZEROPAD" "\<not> has type PREFIX"
  shows "number_text n base (- 1) (- 1) type = (let (s, mag) = number_sign type n
    in (if s = 0 then [] else [s]) @ digits_of (unat base) (has type LARGE) (unat mag))"
  using assms by (simp add: number_text_def Let_def split: prod.splits)

text \<open>The integer conversions that \<open>strtoul\<close> can read back, with their base.\<close>

definition num_conversions :: "(string \<times> nat) list" where
  "num_conversions = [(''%llu'', 10), (''%lld'', 10), (''%llx'', 16), (''%llX'', 16), (''%llo'', 8)]"

lemma conversion_plain:
  fixes n :: u64
  assumes "(f, b) \<in> set num_conversions"
  defines "neg \<equiv> f = ''%lld'' \<and> sint n < 0"
  shows "format_text (map ch f) [Num n] =
    Inr ((if neg then [ch CHR ''-''] else []) @ digits_of b (f = ''%llX'') (unat (if neg then - n else n)))"
  using assms unfolding num_conversions_def
  by (auto simp: directive_text_def scan_width_def scan_precision_def scan_qualifier_def conversion_text_def cur_def
      isdigit_def num_arg_def number_text_plain number_sign_def has_def flag_defs Let_def)

text \<open>
  C20: printing and parsing are inverse. A number printed by \<open>vsnprintf\<close> with \<open>%llu\<close>, \<open>%lld\<close>,
  \<open>%llx\<close>, \<open>%llX\<close> or \<open>%llo\<close> into a buffer it fits is read back by \<open>strtoull\<close> in the base of the
  conversion, up to the terminator and without an error.
\<close>

theorem print_parse_roundtrip:
  assumes conv: "(f, b) \<in> set num_conversions" and m': "vsnprintf p size' (map ch f) [Num n] m = Inr (len, m')"
    and fits: "len < int size'"
  shows "strtoull m' p (int b) errno = Some (n, p + nat len, errno)"
proof -
  define neg where "neg \<longleftrightarrow> f = ''%lld'' \<and> sint n < 0"
  define mag where "mag = (if neg then - n else n)"
  define ds where "ds = digits_of b (f = ''%llX'') (unat mag)"
  define sg where "sg = (if neg then [ch CHR ''-''] else [])"
  have b: "b = 8 \<or> b = 10 \<or> b = 16" using conv by (auto simp: num_conversions_def)
  then have dig: "number b 0 ds = unat mag" "\<forall>c\<in>set ds. digit_in b c \<and> c \<noteq> 0" "ds \<noteq> []"
    using digits_of_number [of b "f = ''%llX''" "unat mag"] by (auto simp: ds_def)
  have m64: "unat mag < 2 ^ 64" using unsigned_less [of mag] by simp
  also have "(2 :: nat) ^ 64 \<le> b ^ 64" using b by (intro power_mono) auto
  finally have "unat mag < b ^ 64" .
  then have "length ds \<le> 64" using digits_of_length [of b "unat mag" 64] b by (auto simp: ds_def)
  then have l: "s32 (int (length (sg @ ds))) = int (length (sg @ ds))" by (simp add: s32_def sg_def)
  have "format_text (map ch f) [Num n] = Inr (sg @ ds)"
    using conversion_plain [OF conv, of n] by (simp add: sg_def ds_def mag_def neg_def)
  then have len: "len = int (length (sg @ ds))" and
    m: "m' = (if size' > 0 then blit m p (take (size' - 1) (sg @ ds) @ [0]) else m)"
    using m' l unfolding vsnprintf_text by auto
  have bl: "m' = blit m p (sg @ ds @ [0])" using m fits len by simp
  have "bytes_at m' p (sg @ ds @ [0])" unfolding bl by (rule bytes_at_blit)
  then have "numeral_at m' p (int b) b [] sg [] ds 0"
    using b dig by (auto simp: numeral_at_def sg_def digit_in_def digit_val_def)
  then have "strtoull m' p (int b) errno = Some (if sg = [0x2D] then - of_nat (unat mag) else of_nat (unat mag), p + length (sg @ ds), errno)"
    using strtox_exact [of m' p "int b" b "[]" sg "[]" ds 0] strtoul_limits dig(1,3) m64
    unfolding strtoull_strtoul strtoul_def by (auto simp: Let_def)
  moreover have "nat len = length (sg @ ds)" using len by linarith
  ultimately show ?thesis by (simp add: sg_def mag_def)
qed

theorem print_parse_roundtrip_witness:
  "\<exists>m'. vsnprintf 100 8 (map ch ''%lld'') [Num (- 42)] (\<lambda>_. 0) = Inr (3, m') \<and>
     strtoull m' 100 10 0 = Some (- 42, 103, 0)"
proof -
  have c: "(''%lld'', 10) \<in> set num_conversions" by (simp add: num_conversions_def)
  have "digits_of 10 False 42 = [52, 50]"
    by (simp add: digits_of.simps digit_chr_def lower_hex_digits_def)
  then have t: "format_text (map ch ''%lld'') [Num (- 42)] = Inr [45, 52, 50]"
    unfolding conversion_plain [OF c] by simp
  have v: "vsnprintf 100 8 (map ch ''%lld'') [Num (- 42)] (\<lambda>_. 0) = Inr (3, blit (\<lambda>_. 0) 100 [45, 52, 50, 0])"
    unfolding vsnprintf_text t by (simp add: s32_def)
  from print_parse_roundtrip [OF c v] show ?thesis using v by simp
qed

section \<open>Types of the arguments\<close>

datatype ty = TNum | TStr

primrec ty_of :: "arg \<Rightarrow> ty" where
  "ty_of (Num w) = TNum"
| "ty_of (Str s) = TStr"

definition star_types :: "u8 list \<Rightarrow> ty list \<times> u8 list" where
  "star_types fs =
    (if isdigit (cur fs) then ([], snd (scan_number fs 0)) else if cur fs = ch CHR ''*'' then ([TNum], tl fs) else ([], fs))"

definition conv_types :: "u8 \<Rightarrow> ty list" where
  "conv_types c = (if c \<in> ch ` set ''coXxdiup'' then [TNum] else if c = ch CHR ''s'' then [TStr] else [])"

text \<open>The types of the arguments a directive takes, and the rest of the format.\<close>

definition directive_types :: "u8 list \<Rightarrow> ty list \<times> u8 list" where
  "directive_types fs =
    (let (ws, fs) = star_types (snd (scan_flags fs 0));
         (ps, fs) = if cur fs = ch CHR ''.'' then star_types (tl fs) else ([], fs);
         fs = snd (scan_qualifier fs)
     in (ws @ ps @ conv_types (cur fs), tl fs))"

text \<open>
  A step \<open>r\<close> of the formatting is typed by \<open>ts\<close> when it succeeds exactly if the next arguments have
  these types, and then takes them.
\<close>

definition fits :: "ty list \<Rightarrow> arg list \<Rightarrow> bool" where
  "fits ts args \<longleftrightarrow> take (length ts) (map ty_of args) = ts"

definition typed :: "'a res \<Rightarrow> ('a \<Rightarrow> arg list) \<Rightarrow> ty list \<Rightarrow> arg list \<Rightarrow> bool" where
  "typed r rest ts args \<longleftrightarrow>
    (case r of Inl _ \<Rightarrow> \<not> fits ts args | Inr x \<Rightarrow> fits ts args \<and> rest x = drop (length ts) args)"

lemma fits_Nil [simp]: "fits [] args"
  by (simp add: fits_def)

lemma fits_Cons: "fits (t # ts) args \<longleftrightarrow> (case args of [] \<Rightarrow> False | a # args \<Rightarrow> ty_of a = t \<and> fits ts args)"
  by (cases args) (auto simp: fits_def)

lemma fits_append: "fits (ts @ us) args \<longleftrightarrow> fits ts args \<and> fits us (drop (length ts) args)"
  by (induction ts arbitrary: args) (auto simp: fits_Cons split: list.splits)

lemma typed_bind:
  assumes "typed r rest ts args" "\<And>x. r = Inr x \<Longrightarrow> typed (f x) rest' us (rest x)"
  shows "typed (bindR r f) rest' (ts @ us) args"
  using assms by (cases r) (auto simp: typed_def fits_append add.commute split: sum.splits)

lemma typed_Inr: "rest x = args \<Longrightarrow> typed (Inr x) rest [] args"
  by (simp add: typed_def)

lemma typed_va_num: "typed (va_num args) snd [TNum] args"
  by (cases args rule: va_num.cases) (auto simp: typed_def fits_Cons)

lemma typed_va_str: "typed (va_str args) snd [TStr] args"
  by (cases args rule: va_str.cases) (auto simp: typed_def fits_Cons)

lemma typed_num: "(\<And>x. typed (f x) rest [] (snd x)) \<Longrightarrow> typed (bindR (va_num args) f) rest [TNum] args"
  using typed_bind [OF typed_va_num, where f = f and rest' = rest and us = "[]"] by simp

lemma typed_str: "(\<And>x. typed (f x) rest [] (snd x)) \<Longrightarrow> typed (bindR (va_str args) f) rest [TStr] args"
  using typed_bind [OF typed_va_str, where f = f and rest' = rest and us = "[]"] by simp

lemma typed_va_int: "typed (va_int args) snd [TNum] args"
  unfolding va_int_def by (rule typed_num) (auto intro!: typed_Inr)

lemma typed_int: "(\<And>x. typed (f x) rest [] (snd x)) \<Longrightarrow> typed (bindR (va_int args) f) rest [TNum] args"
  using typed_bind [OF typed_va_int, where f = f and rest' = rest and us = "[]"] by simp

lemma typed_cong: "typed r rest ts args \<Longrightarrow> (\<And>x. r = Inr x \<Longrightarrow> rest' x = rest x) \<Longrightarrow> typed r rest' ts args"
  by (auto simp: typed_def split: sum.splits)

lemma scan_width_typed:
  "typed (scan_width fs args t) (\<lambda>(_, _, args, _). args) (fst (star_types fs)) args"
  "scan_width fs args t = Inr (w, t', args', fs') \<Longrightarrow> fs' = snd (star_types fs)"
  by (auto simp: scan_width_def star_types_def bindR_eq_Inr_iff Let_def split: if_splits prod.splits
      intro!: typed_Inr typed_int)

lemma scan_precision_typed:
  "typed (scan_precision fs args) (\<lambda>(_, args, _). args)
    (fst (if cur fs = ch CHR ''.'' then star_types (tl fs) else ([], fs))) args"
  "scan_precision fs args = Inr (p, args', fs') \<Longrightarrow>
    fs' = snd (if cur fs = ch CHR ''.'' then star_types (tl fs) else ([], fs))"
  by (auto simp: scan_precision_def star_types_def bindR_eq_Inr_iff bindR_assoc Let_def split: if_splits prod.splits
      intro!: typed_Inr typed_int)

lemma conversion_typed:
  "typed (conversion_text w p q t fs args) (\<lambda>(_, args, _). args) (conv_types (cur fs)) args"
  "conversion_text w p q t fs args = Inr (fs', args', x) \<Longrightarrow> fs' = tl fs"
  unfolding conversion_text_def conv_types_def Let_def
  by (auto simp: bindR_eq_Inr_iff split: if_splits prod.splits intro!: typed_Inr typed_int typed_num typed_str)

lemma directive_typed:
  "typed (directive_text fs args) (\<lambda>(_, args, _). args) (fst (directive_types fs)) args"
  "directive_text fs args = Inr (fs', args', x) \<Longrightarrow> fs' = snd (directive_types fs)"
proof -
  obtain t fs1 where 1: "scan_flags fs 0 = (t, fs1)" by (cases "scan_flags fs 0")
  obtain ws fs2 where 2: "star_types fs1 = (ws, fs2)" by (cases "star_types fs1")
  obtain ps fs3 where 3: "(if cur fs2 = ch CHR ''.'' then star_types (tl fs2) else ([], fs2)) = (ps, fs3)" by fastforce
  obtain q fs4 where 4: "scan_qualifier fs3 = (q, fs4)" by (cases "scan_qualifier fs3")
  have ty: "directive_types fs = (ws @ ps @ conv_types (cur fs4), tl fs4)"
    unfolding directive_types_def by (simp only: Let_def 1 2 3 4 prod.case prod.sel)
  have d: "directive_text fs args =
    bindR (scan_width fs1 args t) (\<lambda>(width, type, args, fs).
        bindR (scan_precision fs args) (\<lambda>(precision, args, fs).
        let (qualifier, fs) = scan_qualifier fs
        in conversion_text width precision qualifier type fs args))"
    by (simp add: directive_text_def 1)
  show "directive_text fs args = Inr (fs', args', x) \<Longrightarrow> fs' = snd (directive_types fs)"
    unfolding d ty using scan_width_typed(2) [of fs1 args t] scan_precision_typed(2) [of fs2] 2 3 4 conversion_typed(2)
    by (fastforce simp: bindR_eq_Inr_iff)
  have "typed (bindR (scan_precision fs2 args) (\<lambda>(precision, args, fs). let (qualifier, fs) = scan_qualifier fs
        in conversion_text width precision qualifier type fs args)) (\<lambda>(_, args, _). args) (ps @ conv_types (cur fs4)) args" for width type args
    using scan_precision_typed [of fs2 args] 3 4 conversion_typed(1)
    by (intro typed_bind [where rest = "\<lambda>(_, args, _). args"]) auto
  then show "typed (directive_text fs args) (\<lambda>(_, args, _). args) (fst (directive_types fs)) args"
    unfolding d ty fst_conv using scan_width_typed [of fs1 args t] 2
    by (intro typed_bind [where rest = "\<lambda>(_, _, args, _). args"]) auto
qed

lemma directive_types_length: "length (snd (directive_types fs)) \<le> length fs"
proof -
  have st: "length (snd (star_types xs)) \<le> length xs" for xs
    using scan_number_length [of xs 0] by (auto simp: star_types_def)
  have q: "length (snd (scan_qualifier xs)) \<le> length xs" for xs by (auto simp: scan_qualifier_def Let_def)
  define fs1 where "fs1 = snd (star_types (snd (scan_flags fs 0)))"
  define fs2 where "fs2 = snd (if cur fs1 = ch CHR ''.'' then star_types (tl fs1) else ([], fs1))"
  have "length fs2 \<le> length fs1" using st [of "tl fs1"] by (auto simp: fs2_def)
  moreover have "length fs1 \<le> length fs" using st scan_flags_length le_trans unfolding fs1_def by blast
  moreover have "snd (directive_types fs) = tl (snd (scan_qualifier fs2))"
    by (auto simp: directive_types_def Let_def fs1_def fs2_def split: prod.splits)
  ultimately show ?thesis using q [of fs2] by simp
qed

function format_types :: "u8 list \<Rightarrow> ty list" where
  "format_types [] = []"
| "format_types (c # fs) =
    (if c \<noteq> ch CHR ''%'' then format_types fs
     else fst (directive_types fs) @ format_types (snd (directive_types fs)))"
  by pat_completeness auto
termination
  by (relation "measure length") (auto simp: directive_types_length le_imp_less_Suc)

lemma format_text_typed:
  "typed (format_text fs args) (\<lambda>_. drop (length (format_types fs)) args) (format_types fs) args"
proof (induction fs args rule: format_text.induct)
  case (2 c fs args)
  have keep: "typed (bindR r (\<lambda>t. Inr (g t))) (\<lambda>_. xs) ts as" if "typed r (\<lambda>_. xs) ts as" for r g xs ts as
    using that by (cases r) (auto simp: typed_def)
  show ?case
  proof (cases "c = ch CHR ''%''")
    case True
    let ?ts = "fst (directive_types fs)"
    have "typed (bindR (directive_text fs args) (\<lambda>(fs, args, t). bindR (format_text fs args) (\<lambda>t'. Inr (t @ t'))))
        (\<lambda>_. drop (length (format_types (c # fs))) args) (?ts @ format_types (snd (directive_types fs))) args"
    proof (rule typed_bind [OF directive_typed(1)])
      fix x assume x: "directive_text fs args = Inr x"
      obtain fs' args' t where y: "x = (fs', args', t)" by (cases x)
      have fs': "fs' = snd (directive_types fs)" using directive_typed(2) x y by blast
      have "args' = drop (length ?ts) args" using directive_typed(1) [of fs args] x y by (simp add: typed_def)
      then have "drop (length (format_types fs')) args' = drop (length (format_types (c # fs))) args"
        using True fs' by (simp add: add.commute)
      then show "typed (case x of (fs, args, t) \<Rightarrow> bindR (format_text fs args) (\<lambda>t'. Inr (t @ t')))
          (\<lambda>_. drop (length (format_types (c # fs))) args) (format_types (snd (directive_types fs))) (case x of (_, args, _) \<Rightarrow> args)"
        using keep "2.IH"(2) [of x fs' "(args', t)" args' t] True x y fs' by simp
    qed
    then show ?thesis using True by simp
  next
    case False
    then show ?thesis using keep "2.IH"(1) by simp
  qed
qed (simp add: typed_def)

text \<open>
  C21: formats are typed. The conversions of a format determine the types of the arguments it
  takes, a number for each \<open>*\<close>, \<open>%c\<close>, \<open>%p\<close> and integer conversion and a string for each \<open>%s\<close>; a call
  of \<open>vsnprintf\<close> never runs out of arguments and never takes one of the wrong type if and
  only if its arguments begin with that list of types.
\<close>

theorem vsnprintf_typed:
  "(\<exists>r. vsnprintf string size' format args m = Inr r) =
   (take (length (format_types format)) (map ty_of args) = format_types format)"
proof -
  have "(\<exists>r. vsnprintf string size' format args m = Inr r) = (\<exists>t. format_text format args = Inr t)"
    unfolding vsnprintf_text by (auto simp: bindR_eq_Inr_iff)
  then show ?thesis using format_text_typed [of format args] by (auto simp: typed_def fits_def split: sum.splits)
qed

lemma s32_mod: "s32 (x mod 2 ^ 32) = s32 x"
  by (simp add: s32_def mod_simps)

lemma s32_low: "s32 (uint (ucast (ucast w :: u32) :: u64)) = s32 (uint w)" "s32 (uint (w + 2 ^ 32 :: u64)) = s32 (uint w)"
  for w :: u64
proof -
  have "uint (ucast (ucast w :: u32) :: u64) = uint w mod 2 ^ 32"
    by (simp add: unsigned_ucast_eq take_bit_eq_mod uint_mod)
  then show "s32 (uint (ucast (ucast w :: u32) :: u64)) = s32 (uint w)" using s32_mod [of "uint w"] by simp
  have "uint (w + 2 ^ 32) mod 2 ^ 32 = uint w mod 2 ^ 32"
    by (simp add: uint_word_ariths mod_mod_cancel)
  then show "s32 (uint (w + 2 ^ 32)) = s32 (uint w)" using s32_mod [of "uint (w + 2 ^ 32)"] s32_mod [of "uint w"] by simp
qed

lemma d_text:
  "format_text (map ch ''%d'') [Num n] = Inr (number_text (word_of_int (s32 (uint n))) 10 (- 1) (- 1) SIGN)"
  "format_text (map ch ''%ld'') [Num n] = Inr (number_text (word_of_int (s32 (uint n))) 10 (- 1) (- 1) SIGN)"
  by (simp_all add: directive_text_def scan_width_def scan_precision_def scan_qualifier_def conversion_text_def cur_def
      isdigit_def num_arg_def has_def SIGN_def Let_def s32_low)

text \<open>
  \<open>%ld\<close> cuts its argument. With the qualifier \<open>l\<close> a signed conversion keeps only the low 32 bits
  of the 64-bit \<open>long\<close>: it prints what \<open>%d\<close> prints, and the same for two numbers that differ by
  \<open>2 ^ 32\<close>; so \<open>2 ^ 32\<close> itself is printed as 0.
\<close>

theorem printf_ld_truncates:
  "format_text (map ch ''%ld'') [Num n] = format_text (map ch ''%d'') [Num n] \<and>
   format_text (map ch ''%ld'') [Num (n + 2 ^ 32)] = format_text (map ch ''%ld'') [Num n] \<and>
   format_text (map ch ''%ld'') [Num (2 ^ 32)] = Inr [ch CHR ''0'']"
proof -
  have "digits_of 10 False 0 = [ch CHR ''0'']" by (simp add: digits_of.simps digit_chr_def lower_hex_digits_def)
  then have "number_text 0 10 (- 1) (- 1) SIGN = [ch CHR ''0'']"
    by (simp add: number_text_plain number_sign_def has_def flag_defs)
  then show ?thesis by (simp only: d_text s32_low) (simp add: s32_def)
qed

end
