(* ===== verification/Vtxprintf.thy ===== *)
theory Vtxprintf
  imports Vsnprintf
begin

text \<open>
  \<open>vtxprintf\<close> of \<open>lib/vsnprintf.c\<close>, which passes every byte to the function \<open>tx_byte\<close>: what it has
  sent is a list of bytes. The formatting of numbers is written differently from \<open>format_number\<close>;
  both give the same text.
\<close>

unbundle bit_operations_syntax

section \<open>Numbers\<close>

text \<open>\<open>call_tx(c), count++\<close>.\<close>

definition call_tx :: "u8 \<Rightarrow> u8 list \<times> int \<Rightarrow> u8 list \<times> int" where
  "call_tx c = (\<lambda>(sent, count). (sent @ [c], count + 1))"

fun skip_atoi :: "u8 list \<Rightarrow> u32 \<Rightarrow> u32 \<times> u8 list" where
  "skip_atoi (c # cs) result =
    (if isdigit c then skip_atoi cs (result * 10 + ucast (c - ch CHR ''0'')) else (result, c # cs))"
| "skip_atoi [] result = (result, [])"

text \<open>The digits from the lowest one up.\<close>

partial_function (option) tx_digits :: "u8 list \<Rightarrow> u64 \<Rightarrow> u64 \<Rightarrow> u8 list option" where
  "tx_digits digits base num =
    (if num = 0 then Some []
     else Option.bind (tx_digits digits base (num div base)) (\<lambda>tmp. Some (digits ! unat (num mod base) # tmp)))"

text \<open>\<open>while (size-- > 0)\<close>, \<open>while (i < precision--)\<close> and \<open>while (i-- > 0)\<close>.\<close>

function tx_pad :: "u8 \<Rightarrow> int \<Rightarrow> u8 list \<times> int \<Rightarrow> int \<times> u8 list \<times> int" where
  "tx_pad c size' st = (if size' > 0 then tx_pad c (size' - 1) (call_tx c st) else (size' - 1, st))"
  by pat_completeness auto
termination
  by (relation "measure (\<lambda>(c, size', st). nat size')") auto

function tx_zeros :: "int \<Rightarrow> int \<Rightarrow> u8 list \<times> int \<Rightarrow> u8 list \<times> int" where
  "tx_zeros i precision st =
    (if i < precision then tx_zeros i (precision - 1) (call_tx (ch CHR ''0'') st) else st)"
  by pat_completeness auto
termination
  by (relation "measure (\<lambda>(i, precision, st). nat (precision - i))") auto

primrec tx_rev :: "u8 list \<Rightarrow> nat \<Rightarrow> u8 list \<times> int \<Rightarrow> u8 list \<times> int" where
  "tx_rev tmp 0 st = st"
| "tx_rev tmp (Suc i) st = tx_rev tmp i (call_tx (tmp ! i) st)"

declare tx_pad.simps [simp del] tx_zeros.simps [simp del]

definition tx_size :: "int \<Rightarrow> u8 \<Rightarrow> u8 \<Rightarrow> int \<Rightarrow> int" where
  "tx_size size' sign type base =
    (let size' = if sign \<noteq> 0 then size' - 1 else size'
     in if has type PREFIX then (if base = 16 then size' - 2 else if base = 8 then size' - 1 else size') else size')"

definition tx_prefix :: "u8 \<Rightarrow> int \<Rightarrow> u8 list \<times> int \<Rightarrow> u8 list \<times> int" where
  "tx_prefix type base st =
    (if has type PREFIX then
       if base = 8 then call_tx (ch CHR ''0'') st
       else if base = 16 then call_tx (if has type LARGE then ch CHR ''X'' else ch CHR ''x'') (call_tx (ch CHR ''0'') st)
       else st
     else st)"

definition tx_number :: "u64 \<Rightarrow> int \<Rightarrow> int \<Rightarrow> int \<Rightarrow> u8 \<Rightarrow> u8 list \<Rightarrow> (u8 list \<times> int) option" where
  "tx_number inum base size' precision type sent =
    (let st = (sent, 0);
         digits = map ch (if has type LARGE then ''0123456789ABCDEF'' else ''0123456789abcdef'');
         type = if has type LEFT then type AND NOT ZEROPAD else type;
         c = if has type ZEROPAD then ch CHR ''0'' else ch CHR '' '';
         (sign, num) = number_sign type inum;
         size' = tx_size size' sign type base
     in Option.bind (if num = 0 then Some [ch CHR ''0''] else tx_digits digits (word_of_int base) num) (\<lambda>tmp.
       let i = int (length tmp);
           precision = if i > precision then i else precision;
           size' = size' - precision;
           (size', st) = if \<not> has type (ZEROPAD OR LEFT) then tx_pad (ch CHR '' '') size' st else (size', st);
           st = if sign \<noteq> 0 then call_tx sign st else st;
           st = tx_prefix type base st;
           (size', st) = if \<not> has type LEFT then tx_pad c size' st else (size', st);
           st = tx_zeros i precision st;
           st = tx_rev tmp (length tmp) st
       in Some (snd (tx_pad (ch CHR '' '') size' st))))"

section \<open>Directives\<close>

text \<open>The bytes sent, the count, and the stores of \<open>%n\<close>: address, size in bytes, value.\<close>

record tx_state =
  sent :: "u8 list"
  count :: int
  stores :: "(u64 \<times> nat \<times> int) list"

definition tx_with :: "(u8 list \<times> int \<Rightarrow> u8 list \<times> int) \<Rightarrow> tx_state \<Rightarrow> tx_state" where
  "tx_with f s = (let (xs, k) = f (sent s, count s) in s\<lparr>sent := xs, count := k\<rparr>)"

definition tx_width :: "u8 list \<Rightarrow> arg list \<Rightarrow> u8 \<Rightarrow> (int \<times> u8 \<times> arg list \<times> u8 list) res" where
  "tx_width fs args flags =
    (if isdigit (cur fs) then let (w, fs) = skip_atoi fs 0 in Inr (s32 (uint w), flags, args, fs)
     else if cur fs = ch CHR ''*'' then
       bindR (va_int args) (\<lambda>(width, args).
         if width < 0 then Inr (- width, flags OR LEFT, args, tl fs) else Inr (width, flags, args, tl fs))
     else Inr (- 1, flags, args, fs))"

definition tx_precision :: "u8 list \<Rightarrow> arg list \<Rightarrow> (int \<times> arg list \<times> u8 list) res" where
  "tx_precision fs args =
    (if cur fs = ch CHR ''.'' then
       let fs = tl fs
       in bindR (if isdigit (cur fs) then let (p, fs) = skip_atoi fs 0 in Inr (s32 (uint p), args, fs)
            else if cur fs = ch CHR ''*'' then bindR (va_int args) (\<lambda>(p, args). Inr (p, args, tl fs))
            else Inr (- 1, args, fs))
          (\<lambda>(p, args, fs). Inr (if p < 0 then 0 else p, args, fs))
     else Inr (- 1, args, fs))"

definition tx_qualifier :: "u8 list \<Rightarrow> u8 \<times> u8 list" where
  "tx_qualifier fs =
    (if cur fs \<in> {ch CHR ''h'', ch CHR ''l'', ch CHR ''L'', ch CHR ''z'', ch CHR ''j''} then
       let qualifier = cur fs; fs = tl fs;
           (qualifier, fs) = if cur fs = ch CHR ''l'' then (ch CHR ''L'', tl fs) else (qualifier, fs)
       in if cur fs = ch CHR ''h'' then (ch CHR ''H'', tl fs) else (qualifier, fs)
     else (0xFF, fs))"

definition tx_arg :: "u8 \<Rightarrow> u8 \<Rightarrow> u64 \<Rightarrow> u64" where
  "tx_arg qualifier flags w =
    (if qualifier \<in> {ch CHR ''L'', ch CHR ''l'', ch CHR ''z'', ch CHR ''j''} then w
     else if qualifier = ch CHR ''h'' then if has flags SIGN then scast (ucast w :: u16) else ucast (ucast w :: u16)
     else if qualifier = ch CHR ''H'' then if has flags SIGN then scast (ucast w :: u8) else ucast (ucast w :: u8)
     else if has flags SIGN then word_of_int (s32 (uint w)) else ucast (ucast w :: u32))"

definition tx_put :: "u64 \<Rightarrow> int \<Rightarrow> int \<Rightarrow> int \<Rightarrow> u8 \<Rightarrow> tx_state \<Rightarrow> tx_state res" where
  "tx_put num base width precision flags s =
    bindR (liftR (tx_number num base width precision flags (sent s))) (\<lambda>(xs, k).
      Inr (s\<lparr>sent := xs, count := count s + k\<rparr>))"

definition tx_string :: "int \<Rightarrow> int \<Rightarrow> u8 \<Rightarrow> u8 list option \<Rightarrow> tx_state \<Rightarrow> tx_state" where
  "tx_string width precision flags s = tx_with (\<lambda>st.
     let s = (case s of None \<Rightarrow> map ch ''<NULL>'' | Some s \<Rightarrow> s);
         len = s32 (int (min (length s) (nat (precision mod 2 ^ 64))));
         (width, st) = if \<not> has flags LEFT then str_loop call_tx len width st else (width, st);
         st = copy_loop call_tx (nat len) s st
     in snd (str_loop call_tx len width st))"

definition tx_conversion ::
    "int \<Rightarrow> int \<Rightarrow> u8 \<Rightarrow> u8 \<Rightarrow> u8 list \<Rightarrow> arg list \<Rightarrow> tx_state \<Rightarrow> (u8 list \<times> arg list \<times> tx_state) res" where
  "tx_conversion width precision qualifier flags fs args s =
    (let c = cur fs; integer = (\<lambda>base flags. bindR (va_num args) (\<lambda>(w, args).
           bindR (tx_put (tx_arg qualifier flags w) base width precision flags s) (\<lambda>s. Inr (tl fs, args, s))))
     in if c = ch CHR ''c'' then
          bindR (va_int args) (\<lambda>(w, args). Inr (tl fs, args, tx_with (format_char call_tx width flags (word_of_int w)) s))
        else if c = ch CHR ''s'' then
          bindR (va_str args) (\<lambda>(x, args). Inr (tl fs, args, tx_string width precision flags x s))
        else if c = ch CHR ''p'' then
          bindR (va_num args) (\<lambda>(w, args).
            let precision = if width = - 1 \<and> precision = - 1 then 8 else precision
            in bindR (tx_put w 16 width precision (flags OR PREFIX) s) (\<lambda>s. Inr (tl fs, args, s)))
        else if c = ch CHR ''n'' then
          bindR (va_num args) (\<lambda>(ip, args). Inr (tl fs, args, s\<lparr>stores := stores s @
            [(ip, if qualifier = ch CHR ''L'' \<or> qualifier = ch CHR ''l'' then 8 else 4, count s)]\<rparr>))
        else if c = ch CHR ''%'' then Inr (tl fs, args, tx_with (call_tx (ch CHR ''%'')) s)
        else if c = ch CHR ''o'' then integer 8 flags
        else if c = ch CHR ''X'' then integer 16 (flags OR LARGE)
        else if c = ch CHR ''x'' then integer 16 flags
        else if c = ch CHR ''d'' \<or> c = ch CHR ''i'' then integer 10 (flags OR SIGN)
        else if c = ch CHR ''u'' then integer 10 flags
        else
          let s = tx_with (call_tx (ch CHR ''%'')) s
          in Inr (tl fs, args, if c \<noteq> 0 then tx_with (call_tx c) s else s))"

definition tx_directive :: "u8 list \<Rightarrow> arg list \<Rightarrow> tx_state \<Rightarrow> (u8 list \<times> arg list \<times> tx_state) res" where
  "tx_directive fs args s =
    (let (flags, fs) = scan_flags fs 0
     in bindR (tx_width fs args flags) (\<lambda>(width, flags, args, fs).
        bindR (tx_precision fs args) (\<lambda>(precision, args, fs).
        let (qualifier, fs) = tx_qualifier fs
        in tx_conversion width precision qualifier flags fs args s)))"

lemma skip_atoi_length: "length (snd (skip_atoi fs n)) \<le> length fs"
  by (induction fs n rule: skip_atoi.induct) auto

lemma tx_directive_length:
  assumes "tx_directive fs args s = Inr (fs', args', s')" shows "length fs' \<le> length fs"
proof -
  obtain t fs1 where 1: "scan_flags fs 0 = (t, fs1)" by (cases "scan_flags fs 0")
  obtain w t2 a2 fs2 where 2: "tx_width fs1 args t = Inr (w, t2, a2, fs2)"
    using assms 1 by (auto simp: tx_directive_def bindR_eq_Inr_iff)
  obtain p a3 fs3 where 3: "tx_precision fs2 a2 = Inr (p, a3, fs3)"
    using assms 1 2 by (auto simp: tx_directive_def bindR_eq_Inr_iff)
  obtain q fs4 where 4: "tx_qualifier fs3 = (q, fs4)" by (cases "tx_qualifier fs3")
  have "tx_conversion w p q t2 fs4 a3 s = Inr (fs', args', s')" using assms 1 2 3 4 by (simp add: tx_directive_def)
  then have "length fs' \<le> length fs4"
    by (auto simp: tx_conversion_def Let_def bindR_eq_Inr_iff split: if_splits prod.splits)
  also have "\<dots> \<le> length fs3" using 4 by (auto simp: tx_qualifier_def Let_def split: if_splits)
  also have "\<dots> \<le> length fs2"
    using 3 skip_atoi_length [of "tl fs2" 0]
    by (auto simp: tx_precision_def Let_def bindR_eq_Inr_iff split: if_splits prod.splits)
  also have "\<dots> \<le> length fs1"
    using 2 skip_atoi_length [of fs1 0]
    by (auto simp: tx_width_def Let_def bindR_eq_Inr_iff split: if_splits prod.splits)
  also have "\<dots> \<le> length fs" using 1 scan_flags_length [of fs 0] by simp
  finally show ?thesis .
qed

function tx_loop :: "u8 list \<Rightarrow> arg list \<Rightarrow> tx_state \<Rightarrow> tx_state res" where
  "tx_loop [] args s = Inr s"
| "tx_loop (c # fs) args s =
    (if c \<noteq> ch CHR ''%'' then tx_loop fs args (tx_with (call_tx c) s)
     else bindR (tx_directive fs args s) (\<lambda>(fs, args, s). tx_loop fs args s))"
  by pat_completeness auto
termination
  by (relation "measure (\<lambda>(fs, args, s). length fs)") (auto dest: tx_directive_length)

definition vtxprintf :: "u8 list \<Rightarrow> arg list \<Rightarrow> (int \<times> tx_state) res" where
  "vtxprintf fmt args = bindR (tx_loop fmt args \<lparr>sent = [], count = 0, stores = []\<rparr>) (\<lambda>s. Inr (count s, s))"

section \<open>Text of a number\<close>

abbreviation txs :: "u8 list \<Rightarrow> u8 list \<times> int \<Rightarrow> u8 list \<times> int" where
  "txs \<equiv> sends call_tx"

lemma txs_eq: "txs xs (ys, k) = (ys @ xs, k + int (length xs))"
  by (induction xs arbitrary: ys k) (simp_all add: call_tx_def)

lemma tx_pad_txs: "tx_pad c w st = (min w 0 - 1, txs (replicate (nat w) c) st)"
proof (induction c w st rule: tx_pad.induct)
  case (1 c w st)
  show ?case
  proof (cases "w > 0")
    case True
    then have "nat w = Suc (nat (w - 1))" by simp
    then show ?thesis using 1 True by (subst tx_pad.simps) simp
  next
    case False
    then show ?thesis by (subst tx_pad.simps) simp
  qed
qed

lemma tx_zeros_txs: "tx_zeros i p st = txs (replicate (nat (p - i)) (ch CHR ''0'')) st"
proof (induction i p st rule: tx_zeros.induct)
  case (1 i p st)
  show ?case
  proof (cases "i < p")
    case True
    then have "nat (p - i) = Suc (nat (p - 1 - i))" by simp
    then show ?thesis using 1 True by (subst tx_zeros.simps) simp
  next
    case False
    then show ?thesis by (subst tx_zeros.simps) simp
  qed
qed

lemma tx_rev_txs: "i \<le> length rs \<Longrightarrow> tx_rev rs i st = txs (rev (take i rs)) st"
  by (induction i arbitrary: st) (simp_all add: take_Suc_conv_app_nth)

lemma tx_digits_put:
  assumes b: "b \<noteq> 0" "unat b \<le> k" and ds: "\<And>d. d < k \<Longrightarrow> ds ! d = ds' ! d"
  shows "put_loop ds' b n = Some xs \<Longrightarrow> tx_digits ds b n = Some xs"
proof (induction xs arbitrary: n)
  case Nil
  then show ?case
    by (subst (asm) put_loop.simps, subst tx_digits.simps) (auto simp: bind_eq_Some_conv split: if_splits)
next
  case (Cons x xs)
  have md: "mod64u n b = Some (n mod b)" "div64u n b = n div b"
    using b by (simp_all add: mod64u_def div64u_def modu_correct divu_eq)
  have "unat (n mod b) < k" using b by (metis order_less_le_trans unat_gt_0 unat_mod mod_less_divisor)
  then have "ds ! unat (n mod b) = ds' ! unat (n mod b)" by (rule ds)
  then show ?case using Cons
    by (subst (asm) (2) put_loop.simps, subst tx_digits.simps) (auto simp: md bind_eq_Some_conv split: if_splits)
qed

lemma hex_nth:
  assumes "d < 16"
  shows "map ch (if up then ''0123456789ABCDEF'' else ''0123456789abcdef'') ! d = (if up then upper_hex_digits else lower_hex_digits) ! d"
proof -
  have "map ch ''0123456789ABCDEF'' = take 16 upper_hex_digits" "map ch ''0123456789abcdef'' = take 16 lower_hex_digits"
    by (simp_all add: upper_hex_digits_def lower_hex_digits_def)
  then show ?thesis using assms by (simp only: nth_take split: if_splits) simp
qed

lemma tx_digits_text:
  assumes b: "b = 8 \<or> b = 10 \<or> b = 16"
  shows "(if n = 0 then Some [ch CHR ''0'']
     else tx_digits (map ch (if up then ''0123456789ABCDEF'' else ''0123456789abcdef'')) (word_of_int (int b)) n)
    = Some (rev (digits_of b up (unat n)))"
proof -
  have u: "unat (of_nat b :: u8) = b" "(ucast (of_nat b :: u8) :: u64) = word_of_int (int b)" using b by auto
  have b2: "2 \<le> unat (of_nat b :: u8)" "unat (of_nat b :: u8) \<le> 16" using b u by auto
  show ?thesis
  proof (cases "n = 0")
    case True
    have "digits_of b up 0 = [ch CHR ''0'']"
      using b by (subst digits_of.simps) (auto simp: digit_chr_def upper_hex_digits_def lower_hex_digits_def)
    then show ?thesis using True by simp
  next
    case False
    have "word_of_int (int b) \<noteq> (0 :: u64)" "unat (word_of_int (int b) :: u64) \<le> 16" using b by auto
    from tx_digits_put [OF this hex_nth put_loop_digits [OF b2 False, of up, unfolded u]] show ?thesis using False by simp
  qed
qed

lemma tx_number_text:
  assumes b: "b = 8 \<or> b = 10 \<or> b = 16"
  shows "tx_number num (int b) width precision type xs =
    Some (xs @ number_text num (of_nat b) width precision type, int (length (number_text num (of_nat b) width precision type)))"
proof -
  have u: "unat (of_nat b :: u8) = b" using b by auto
  define t1 where "t1 = (if has type LEFT then type AND NOT ZEROPAD else type)"
  have flags: "has t1 SIGN = has type SIGN" "has t1 SIGN_PLUS = has type SIGN_PLUS" "has t1 SIGN_PLUS_SPACE = has type SIGN_PLUS_SPACE"
    "has t1 LEFT = has type LEFT" "has t1 LARGE = has type LARGE" "has t1 PREFIX = has type PREFIX"
    "has t1 ZEROPAD = (has type ZEROPAD \<and> \<not> has type LEFT)"
    by (simp_all add: t1_def has_clear)
  obtain sg mag where sm: "number_sign type num = (sg, mag)" by (cases "number_sign type num")
  have sm': "number_sign t1 num = (sg, mag)" using sm unfolding number_sign_def flags .
  define ds where "ds = digits_of b (has type LARGE) (unat mag)"
  define sign where "sign = (if sg = 0 then [] else [sg])"
  define pre where "pre = (if has type PREFIX \<and> (of_nat b :: u8) \<noteq> 10
    then ch CHR ''0'' # (if (of_nat b :: u8) = 16 then [if has type LARGE then ch CHR ''X'' else ch CHR ''x''] else []) else [])"
  have so: "(if sg \<noteq> 0 then call_tx sg st else st) = txs sign st" for st by (simp add: sign_def)
  have po: "tx_prefix t1 (int b) st = txs pre st" for st using b by (auto simp: pre_def tx_prefix_def flags)
  have w: "tx_size width sg t1 (int b) = width - int (length sign + length pre)"
    using b by (auto simp: sign_def pre_def Let_def tx_size_def flags)
  define p' where "p' = (if int (length ds) > precision then int (length ds) else precision)"
  have p': "nat (p' - int (length ds)) = nat precision - length ds" by (simp add: p'_def nat_diff_distrib)
  have fl: "nat (width - (int (length sign) + int (length pre)) - p') =
      nat width - (length sign + (length pre + (nat precision - length ds + length ds)))"
    using fill_eq [of width "length sign + length pre" "length ds" precision]
    by (simp add: p'_def max_def add.assoc split: if_splits)
  have "tx_number num (int b) width precision type xs =
    Some (let (w, st) = if \<not> has t1 (ZEROPAD OR LEFT) then tx_pad (ch CHR '' '') (width - int (length sign + length pre) - p') (xs, 0)
           else (width - int (length sign + length pre) - p', (xs, 0));
         st = txs pre (txs sign st);
         (w, st) = if \<not> has t1 LEFT then tx_pad (if has t1 ZEROPAD then ch CHR ''0'' else ch CHR '' '') w st else (w, st)
       in snd (tx_pad (ch CHR '' '') w (tx_rev (rev ds) (length ds) (tx_zeros (int (length ds)) p' st))))"
    unfolding tx_number_def t1_def [symmetric]
    by (simp only: Let_def sm' prod.case so po w tx_digits_text [OF b] bind.bind_lunit length_rev ds_def [symmetric] p'_def [symmetric]
        split: prod.splits) simp
  also have "\<dots> = Some (txs (number_text num (of_nat b) width precision type) (xs, 0))"
    unfolding number_text_def sm u
    by (simp add: Let_def flags has_or tx_pad_txs tx_zeros_txs tx_rev_txs outs_append fl p' flip: sign_def pre_def ds_def)
  finally show ?thesis by (simp add: txs_eq)
qed

text \<open>
  The two number printers agree. For octal, decimal and hexadecimal numbers, with every width,
  precision and combination of flags, \<open>number\<close> of \<open>vtxprintf\<close> sends the bytes that \<open>format_number\<close> of
  \<open>vsnprintf\<close> writes, and returns how many there are.
\<close>

theorem number_printers_agree:
  assumes "base \<in> {8, 10, 16 :: nat}"
  shows "\<exists>t. tx_number num (int base) width precision type xs = Some (xs @ t, int (length t)) \<and>
    format_number end' num (of_nat base) width precision type (pos, m) = Some (pos + length t, blit m pos (take (end' - pos) t))"
proof -
  have "unat (of_nat base :: u8) = base" using assms by auto
  then show ?thesis using assms tx_number_text [of base num width precision type xs]
    by (auto simp: format_number_text outs_blit)
qed

theorem number_printers_agree_witness:
  "\<exists>t. tx_number 255 16 8 4 (PREFIX OR LEFT) [] = Some (t, int (length t)) \<and>
    format_number 3 255 16 8 4 (PREFIX OR LEFT) (0, \<lambda>_. 0) = Some (length t, blit (\<lambda>_. 0) 0 (take 3 t))"
  using number_printers_agree [of 16 255 8 4 "PREFIX OR LEFT" "[]" 3 0 "\<lambda>_. 0"] by simp

section \<open>Text of a format\<close>

definition put :: "u8 list \<Rightarrow> tx_state \<Rightarrow> tx_state" where
  "put t s = s\<lparr>sent := sent s @ t, count := count s + int (length t)\<rparr>"

lemma tx_with_put: "(\<And>st. f st = txs t st) \<Longrightarrow> tx_with f s = put t s"
  by (simp add: tx_with_def txs_eq put_def)

lemma put_append: "put u (put t s) = put (t @ u) s"
  by (simp add: put_def)

lemma put_Nil [simp]: "put [] s = s"
  by (simp add: put_def)

lemma tx_call_put: "tx_with (call_tx c) s = put [c] s"
  by (rule tx_with_put) simp

lemma low_acc: "ucast k * 10 + ucast d = (ucast (k * 10 + ucast d :: u64) :: u32)" for d :: u8
proof -
  have "uint d < 2 ^ 8" using uint_lt2p [of d] by simp
  then have d: "uint (ucast d :: u32) = uint d" "uint (ucast d :: u64) = uint d"
    by (simp_all add: unsigned_ucast_eq take_bit_int_eq_self)
  have "uint (ucast k * 10 + ucast d :: u32) = (uint k * 10 + uint d) mod 2 ^ 32"
    by (simp add: uint_word_ariths d unsigned_ucast_eq take_bit_eq_mod mod_simps uint_mod)
  moreover have "uint (ucast (k * 10 + ucast d :: u64) :: u32) = (uint k * 10 + uint d) mod 2 ^ 32"
    by (simp add: uint_word_ariths d unsigned_ucast_eq take_bit_eq_mod mod_simps uint_mod mod_mod_cancel)
  ultimately show ?thesis by (simp only: word_uint_eq_iff)
qed

lemma skip_atoi_scan:
  "n = ucast k \<Longrightarrow> snd (skip_atoi fs n) = snd (scan_number fs k) \<and> fst (skip_atoi fs n) = ucast (fst (scan_number fs k))"
proof (induction fs k arbitrary: n rule: scan_number.induct)
  case (1 c cs k)
  have "n * 10 + ucast (c - ch CHR ''0'') = ucast (k * 10 + ucast (c - ch CHR ''0'') :: u64)"
    unfolding 1(2) by (rule low_acc)
  then show ?case using 1 by simp
qed simp

lemma s32_skip: "s32 (uint (fst (skip_atoi fs 0))) = s32 (uint (fst (scan_number fs 0)))"
proof -
  have "uint (fst (skip_atoi fs 0)) = uint (fst (scan_number fs 0)) mod 2 ^ 32"
    using skip_atoi_scan [of 0 0 fs] by (simp add: unsigned_ucast_eq take_bit_eq_mod uint_mod)
  then show ?thesis using s32_mod by simp
qed

lemma tx_width_eq: "tx_width fs args t = scan_width fs args t"
  using s32_skip [of fs] skip_atoi_scan [of 0 0 fs] by (auto simp: tx_width_def scan_width_def Let_def split: prod.splits)

lemma tx_precision_eq: "tx_precision fs args = scan_precision fs args"
  using s32_skip [of "tl fs"] skip_atoi_scan [of 0 0 "tl fs"]
  by (auto simp: tx_precision_def scan_precision_def Let_def split: prod.splits)

text \<open>
  The formats on which the two functions agree: not \<open>%p\<close>, which is padded in different ways, not
  \<open>%n\<close>, no signed conversion with \<open>l\<close>, and no qualifier that only one of them knows.
\<close>

definition qualifier_at :: "u8 list \<Rightarrow> u8 list" where
  "qualifier_at fs =
    (let fs = snd (star_types (snd (scan_flags fs 0)))
     in snd (if cur fs = ch CHR ''.'' then star_types (tl fs) else ([], fs)))"

definition common_conv :: "u8 \<Rightarrow> u8 \<Rightarrow> bool" where
  "common_conv q c \<longleftrightarrow> c \<notin> {ch CHR ''p'', ch CHR ''n''} \<and> \<not> (q = ch CHR ''l'' \<and> c \<in> {ch CHR ''d'', ch CHR ''i''})"

definition common_directive :: "u8 list \<Rightarrow> bool" where
  "common_directive fs \<longleftrightarrow>
    (let (q, fs') = scan_qualifier (qualifier_at fs) in tx_qualifier (qualifier_at fs) = (q, fs') \<and> common_conv q (cur fs'))"

function common :: "u8 list \<Rightarrow> bool" where
  "common [] \<longleftrightarrow> True"
| "common (c # fs) \<longleftrightarrow>
    (if c \<noteq> ch CHR ''%'' then common fs else common_directive fs \<and> common (snd (directive_types fs)))"
  by pat_completeness auto
termination
  by (relation "measure length") (auto simp: directive_types_length le_imp_less_Suc)

lemma tx_put_put:
  "b = 8 \<or> b = 10 \<or> b = 16 \<Longrightarrow>
   tx_put num (int b) width precision flags s = Inr (put (number_text num (of_nat b) width precision flags) s)"
  by (simp add: tx_put_def tx_number_text put_def)

lemma tx_string_put: "tx_string width precision flags x s = put (string_text width precision flags x) s"
proof -
  have "tx_string width precision flags x s = tx_with (format_string call_tx width precision flags x) s"
    unfolding tx_string_def format_string_def bound_string_length_eq ..
  also have "\<dots> = put (string_text width precision flags x) s" by (rule tx_with_put) (rule format_string_text)
  finally show ?thesis .
qed

lemma low16: "ucast (ucast x :: u64) = x" for x :: u16
  by (rule bit_word_eqI) (simp add: bit_simps)

lemma tx_arg_num:
  "q = ch CHR ''h'' \<or> q = ch CHR ''l'' \<or> q = ch CHR ''L'' \<or> q = 0xFF \<Longrightarrow> q \<noteq> ch CHR ''l'' \<or> \<not> has t SIGN \<Longrightarrow>
   tx_arg q t w = num_arg q t w"
  using low16 [of "ucast w"] by (auto simp: tx_arg_def num_arg_def Let_def s32_low)

lemma has_or_left: "has (t OR f) g \<longleftrightarrow> has t g \<or> has f g"
  by (simp add: has_def bit.conj_disj_distrib2 or_eq_0_iff)

abbreviation tx_emit :: "tx_state \<Rightarrow> u8 list \<times> arg list \<times> u8 list \<Rightarrow> (u8 list \<times> arg list \<times> tx_state) res" where
  "tx_emit s \<equiv> (\<lambda>(fs, args, t). Inr (fs, args, put t s))"

lemma tx_conversion_put:
  assumes q: "q = ch CHR ''h'' \<or> q = ch CHR ''l'' \<or> q = ch CHR ''L'' \<or> q = 0xFF" and c: "common_conv q (cur fs)" "\<not> has t SIGN"
  shows "tx_conversion width precision q t fs args s = bindR (conversion_text width precision q t fs args) (tx_emit s)"
proof -
  note arg = tx_arg_num [OF q]
  have "\<not> has (t OR LARGE) SIGN" by (simp add: c(2) has_or_left) (simp add: has_def flag_defs)
  then have u: "tx_arg q t w = num_arg q t w" "tx_arg q (t OR LARGE) w = num_arg q (t OR LARGE) w" for w
    by (simp_all add: arg c(2))
  have d: "tx_arg q (t OR SIGN) w = num_arg q (t OR SIGN) w" if "cur fs = ch CHR ''d'' \<or> cur fs = ch CHR ''i''" for w
    using c(1) that by (intro arg) (auto simp: common_conv_def)
  have num: "tx_put w 8 width precision f s = Inr (put (number_text w 8 width precision f) s)"
    "tx_put w 10 width precision f s = Inr (put (number_text w 10 width precision f) s)"
    "tx_put w 16 width precision f s = Inr (put (number_text w 16 width precision f) s)" for w f
    using tx_put_put [of 8] tx_put_put [of 10] tx_put_put [of 16] by simp_all
  have chr: "tx_with (format_char call_tx width t x) s = put (char_text width t x) s" for x
    by (rule tx_with_put) (rule format_char_text)
  show ?thesis
    using c(1) u d unfolding tx_conversion_def conversion_text_def Let_def common_conv_def
    by (auto simp: num chr tx_string_put tx_call_put put_append bindR_assoc split: prod.splits intro!: bindR_cong)
qed

lemma scan_flags_sign: "\<not> has t SIGN \<Longrightarrow> \<not> has (fst (scan_flags fs t)) SIGN"
proof (induction fs t rule: scan_flags.induct)
  case (1 c fs t)
  have "\<not> has f SIGN" if "f \<in> {PREFIX, ZEROPAD, SIGN_PLUS, SIGN_PLUS_SPACE, LEFT}" for f
    using that by (auto simp: has_def flag_defs)
  then show ?case using 1 by (auto simp: has_or_left)
qed simp

lemma scan_width_sign: "scan_width fs args t = Inr (w, t', args', fs') \<Longrightarrow> \<not> has t SIGN \<Longrightarrow> \<not> has t' SIGN"
  by (auto simp: scan_width_def Let_def bindR_eq_Inr_iff has_or_left split: if_splits prod.splits)
    (simp add: has_def flag_defs)

lemma tx_directive_put:
  assumes "common_directive fs"
  shows "tx_directive fs args s = bindR (directive_text fs args) (tx_emit s)"
proof -
  obtain t fs1 where 1: "scan_flags fs 0 = (t, fs1)" by (cases "scan_flags fs 0")
  have nt: "\<not> has t SIGN" using scan_flags_sign [of 0 fs] 1 by (simp add: has_def)
  obtain q fs4 where 4: "scan_qualifier (qualifier_at fs) = (q, fs4)" by (cases "scan_qualifier (qualifier_at fs)")
  then have c: "tx_qualifier (qualifier_at fs) = (q, fs4)" "common_conv q (cur fs4)"
    using assms by (simp_all add: common_directive_def)
  have q: "q = ch CHR ''h'' \<or> q = ch CHR ''l'' \<or> q = ch CHR ''L'' \<or> q = 0xFF"
    using 4 by (auto simp: scan_qualifier_def Let_def split: if_splits)
  have "bindR (scan_precision fs2 args2) (\<lambda>(precision, args, fs). let (qualifier, fs) = tx_qualifier fs
        in tx_conversion width precision qualifier t2 fs args s) =
      bindR (bindR (scan_precision fs2 args2) (\<lambda>(precision, args, fs). let (qualifier, fs) = scan_qualifier fs
        in conversion_text width precision qualifier t2 fs args)) (tx_emit s)"
    if w: "scan_width fs1 args t = Inr (width, t2, args2, fs2)" for width t2 args2 fs2
  proof -
    have t2: "\<not> has t2 SIGN" using scan_width_sign [OF w nt] .
    have fs2: "fs2 = snd (star_types fs1)" by (rule scan_width_typed(2) [OF w])
    have "fs3 = qualifier_at fs" if "scan_precision fs2 args2 = Inr (p, args3, fs3)" for p args3 fs3
      using scan_precision_typed(2) [OF that] 1 fs2 by (simp add: qualifier_at_def Let_def)
    then show ?thesis using 4 c tx_conversion_put [OF q c(2) t2]
      by (auto simp: bindR_assoc intro!: bindR_cong)
  qed
  then show ?thesis unfolding tx_directive_def directive_text_def Let_def 1 prod.case tx_width_eq tx_precision_eq
    by (subst bindR_assoc, intro bindR_cong refl) (auto simp: Let_def)
qed

lemma tx_loop_put: "common fs \<Longrightarrow> tx_loop fs args s = bindR (format_text fs args) (\<lambda>t. Inr (put t s))"
proof (induction fs args arbitrary: s rule: format_text.induct)
  case (2 c fs args)
  show ?case
  proof (cases "c = ch CHR ''%''")
    case True
    then have cm: "common_directive fs" "common (snd (directive_types fs))" using 2(3) by simp_all
    show ?thesis
    proof (cases "directive_text fs args")
      case (Inr x)
      obtain fs' args' t where x: "x = (fs', args', t)" by (cases x)
      have "fs' = snd (directive_types fs)" using directive_typed(2) Inr x by blast
      then have "tx_loop fs' args' s = bindR (format_text fs' args') (\<lambda>t. Inr (put t s))" for s
        using cm(2) by (intro "2.IH"(2) [of x fs' "(args', t)" args' t]) (use True Inr x in simp_all)
      then show ?thesis unfolding tx_loop.simps format_text.simps tx_directive_put [OF cm(1)] bindR_assoc Inr x
        using True by (simp add: put_append bindR_assoc)
    qed (use True in \<open>simp add: tx_directive_put [OF cm(1)]\<close>)
  next
    case False
    then show ?thesis using "2.IH"(1) 2(3) by (simp add: bindR_assoc tx_call_put put_append)
  qed
qed simp

text \<open>
  C22: the two formatted printers agree. On a format without \<open>%p\<close>, \<open>%n\<close>, signed \<open>%l\<close> conversions and
  qualifiers that only one of them has, \<open>vtxprintf\<close> sends the text whose beginning
  \<open>vsnprintf\<close> stores, faults on the same arguments, and returns the number of bytes sent.
\<close>

theorem vtxprintf_agrees:
  assumes "common fmt"
  shows "vtxprintf fmt args =
    bindR (format_text fmt args) (\<lambda>t. Inr (int (length t), \<lparr>sent = t, count = int (length t), stores = []\<rparr>)) \<and>
   vsnprintf string size' fmt args m =
    bindR (format_text fmt args) (\<lambda>t. Inr (s32 (int (length t)),
      if size' > 0 then blit m string (take (size' - 1) t @ [0]) else m))"
  using assms by (simp add: vtxprintf_def tx_loop_put bindR_assoc put_def vsnprintf_text)

theorem vtxprintf_agrees_witness:
  "vtxprintf (map ch ''<%3c>'') [Num 65] = Inr (5, \<lparr>sent = map ch ''<  A>'', count = 5, stores = []\<rparr>)"
proof -
  have c: "common (map ch ''<%3c>'')" by code_simp
  have t: "format_text (map ch ''<%3c>'') [Num 65] = Inr (map ch ''<  A>'')" by code_simp
  from vtxprintf_agrees [OF c, of "[Num 65]"] show ?thesis unfolding t by simp
qed

end
