(* ===== verification/Riscv.thy ===== *)
theory Riscv
  imports Prelude
begin

text \<open>
  The processor state the RISC-V firmware code works on, for a 64-bit hart: the trap frame
  \<open>struct pt_regs\<close> (\<open>arch/riscv/include/asm/irq.h\<close>), the control and status registers by
  number and the register and field macros of \<open>arch/riscv/include/asm/csr.h\<close>. A CSR is a
  64-bit cell: \<open>csr_read\<close> returns what \<open>csr_write\<close> has put there.
\<close>

unbundle bit_operations_syntax

section \<open>Control and status registers\<close>

type_synonym csrs = "nat \<Rightarrow> u64"

definition CSR_SCOUNTEREN :: nat where "CSR_SCOUNTEREN = 0x106"
definition CSR_STVEC :: nat where "CSR_STVEC = 0x105"
definition CSR_SEPC :: nat where "CSR_SEPC = 0x141"
definition CSR_SCAUSE :: nat where "CSR_SCAUSE = 0x142"
definition CSR_STVAL :: nat where "CSR_STVAL = 0x143"
definition CSR_STIMECMP :: nat where "CSR_STIMECMP = 0x14D"
definition CSR_VSSTATUS :: nat where "CSR_VSSTATUS = 0x200"
definition CSR_VSTVEC :: nat where "CSR_VSTVEC = 0x205"
definition CSR_VSEPC :: nat where "CSR_VSEPC = 0x241"
definition CSR_VSCAUSE :: nat where "CSR_VSCAUSE = 0x242"
definition CSR_VSTVAL :: nat where "CSR_VSTVAL = 0x243"
definition CSR_MISA :: nat where "CSR_MISA = 0x301"
definition CSR_MIE :: nat where "CSR_MIE = 0x304"
definition CSR_MCOUNTEREN :: nat where "CSR_MCOUNTEREN = 0x306"
definition CSR_MCOUNTINHIBIT :: nat where "CSR_MCOUNTINHIBIT = 0x320"
definition CSR_MHPMEVENT :: "nat \<Rightarrow> nat" where "CSR_MHPMEVENT n = 0x320 + n"
definition CSR_MCAUSE :: nat where "CSR_MCAUSE = 0x342"
definition CSR_MTVAL :: nat where "CSR_MTVAL = 0x343"
definition CSR_MIP :: nat where "CSR_MIP = 0x344"
definition CSR_MTINST :: nat where "CSR_MTINST = 0x34A"
definition CSR_MTVAL2 :: nat where "CSR_MTVAL2 = 0x34B"
definition CSR_HSTATUS :: nat where "CSR_HSTATUS = 0x600"
definition CSR_HEDELEG :: nat where "CSR_HEDELEG = 0x602"
definition CSR_HTVAL :: nat where "CSR_HTVAL = 0x643"
definition CSR_HTINST :: nat where "CSR_HTINST = 0x64A"
definition CSR_MCYCLE :: nat where "CSR_MCYCLE = 0xB00"
definition CSR_MINSTRET :: nat where "CSR_MINSTRET = 0xB02"
definition CSR_MHPMCOUNTER :: "nat \<Rightarrow> nat" where "CSR_MHPMCOUNTER n = 0xB00 + n"
definition CSR_CYCLE :: nat where "CSR_CYCLE = 0xC00"
definition CSR_TIME :: nat where "CSR_TIME = 0xC01"
definition CSR_INSTRET :: nat where "CSR_INSTRET = 0xC02"
definition CSR_MVENDORID :: nat where "CSR_MVENDORID = 0xF11"
definition CSR_MARCHID :: nat where "CSR_MARCHID = 0xF12"
definition CSR_MIMPID :: nat where "CSR_MIMPID = 0xF13"
definition CSR_MHARTID :: nat where "CSR_MHARTID = 0xF14"

lemmas csr_defs = CSR_SCOUNTEREN_def CSR_STVEC_def CSR_SEPC_def CSR_SCAUSE_def CSR_STVAL_def
  CSR_STIMECMP_def CSR_VSSTATUS_def CSR_VSTVEC_def CSR_VSEPC_def CSR_VSCAUSE_def CSR_VSTVAL_def
  CSR_MISA_def CSR_MIE_def CSR_MCOUNTEREN_def CSR_MCOUNTINHIBIT_def CSR_MHPMEVENT_def
  CSR_MCAUSE_def CSR_MTVAL_def CSR_MIP_def CSR_MTINST_def CSR_MTVAL2_def CSR_HSTATUS_def
  CSR_HEDELEG_def CSR_HTVAL_def CSR_HTINST_def CSR_MCYCLE_def CSR_MINSTRET_def
  CSR_MHPMCOUNTER_def CSR_CYCLE_def CSR_TIME_def CSR_INSTRET_def CSR_MVENDORID_def
  CSR_MARCHID_def CSR_MIMPID_def CSR_MHARTID_def

text \<open>\<open>csr_set\<close> and \<open>csr_clear\<close> set and clear the bits of a mask.\<close>

definition csr_set :: "nat \<Rightarrow> u64 \<Rightarrow> csrs \<Rightarrow> csrs" where
  "csr_set n m c = c(n := c n OR m)"

definition csr_clear :: "nat \<Rightarrow> u64 \<Rightarrow> csrs \<Rightarrow> csrs" where
  "csr_clear n m c = c(n := c n AND NOT m)"

text \<open>
  \<open>csr_read_num\<close> and \<open>csr_write_num\<close> of \<open>arch/riscv/sbi/riscv_asm.c\<close> take the number of the
  register at run time. They know the PMP registers, the counters and the event selectors; any
  other number panics.
\<close>

definition csr_num_known :: "nat \<Rightarrow> bool" where
  "csr_num_known n \<longleftrightarrow> (0x3a0 \<le> n \<and> n < 0x3a0 + 16) \<or> (0x3b0 \<le> n \<and> n < 0x3b0 + 64) \<or>
     n = CSR_MCYCLE \<or> n = CSR_MINSTRET \<or> (CSR_MHPMCOUNTER 3 \<le> n \<and> n < CSR_MHPMCOUNTER 32) \<or>
     n = CSR_MCOUNTINHIBIT \<or> (CSR_MHPMEVENT 3 \<le> n \<and> n < CSR_MHPMEVENT 32)"

definition csr_read_num :: "nat \<Rightarrow> csrs \<Rightarrow> u64 res" where
  "csr_read_num n c = (if csr_num_known n then Inr (c n) else Inl Bug)"

definition csr_write_num :: "nat \<Rightarrow> u64 \<Rightarrow> csrs \<Rightarrow> csrs res" where
  "csr_write_num n v c = (if csr_num_known n then Inr (c(n := v)) else Inl Bug)"

definition misa_extension :: "char \<Rightarrow> csrs \<Rightarrow> bool" where
  "misa_extension ext c = (c CSR_MISA AND push_bit (of_char ext - of_char CHR ''A'') 1 \<noteq> 0)"

section \<open>Fields of \<open>mstatus\<close>\<close>

definition SR_SIE :: u64 where "SR_SIE = 0x2"
definition SR_SPIE :: u64 where "SR_SPIE = 0x20"
definition SR_SPIE_SHIFT :: nat where "SR_SPIE_SHIFT = 5"
definition SR_SPP :: u64 where "SR_SPP = 0x100"
definition SR_SPP_SHIFT :: nat where "SR_SPP_SHIFT = 8"
definition SR_MPP :: u64 where "SR_MPP = 0x1800"
definition SR_MPP_SHIFT :: nat where "SR_MPP_SHIFT = 11"
definition SR_MPRV :: u64 where "SR_MPRV = 0x20000"
definition SR_GVA :: u64 where "SR_GVA = 0x4000000000"
definition SR_MPV :: u64 where "SR_MPV = 0x8000000000"
definition PRV_U :: u64 where "PRV_U = 0"
definition PRV_S :: u64 where "PRV_S = 1"
definition PRV_M :: u64 where "PRV_M = 3"
definition HSTATUS_SPVP :: u64 where "HSTATUS_SPVP = 0x100"
definition HSTATUS_SPV :: u64 where "HSTATUS_SPV = 0x80"
definition HSTATUS_GVA :: u64 where "HSTATUS_GVA = 0x40"

lemmas sr_defs = SR_SIE_def SR_SPIE_def SR_SPIE_SHIFT_def SR_SPP_def SR_SPP_SHIFT_def SR_MPP_def
  SR_MPP_SHIFT_def SR_MPRV_def SR_GVA_def SR_MPV_def PRV_U_def PRV_S_def PRV_M_def
  HSTATUS_SPVP_def HSTATUS_SPV_def HSTATUS_GVA_def

section \<open>The trap frame\<close>

text \<open>
  \<open>zero\<close> to \<open>t6\<close> are the 32 integer registers in the order of their numbers, which the
  code relies on when it indexes the frame with a register field of an instruction. The
  fields \<open>badaddr\<close>, \<open>cause\<close> and \<open>orig_a0\<close> are not used by the code modelled here.
\<close>

record pt_regs =
  gpr :: "u64 list"
  r_epc :: u64
  r_status :: u64
  r_tval :: u64
  r_tval2 :: u64
  r_tinst :: u64
  r_gva :: u64

definition regs_ok :: "pt_regs \<Rightarrow> bool" where
  "regs_ok r = (List.length (gpr r) = 32)"

definition sbi_regs_gva :: "pt_regs \<Rightarrow> u64" where
  "sbi_regs_gva r = (if r_status r AND SR_GVA \<noteq> 0 then 1 else 0)"

text \<open>
  \<open>REG_PTR(insn, pos, regs)\<close> is the frame slot at byte offset \<open>8 * rd\<close>, for \<open>rd\<close> the five
  bits of \<open>insn\<close> at \<open>pos\<close>: \<open>REG_OFFSET\<close> shifts the field to bit 3 and masks it there.
\<close>

definition SH_RD :: nat where "SH_RD = 7"
definition SH_RS1 :: nat where "SH_RS1 = 15"
definition SH_RS2 :: nat where "SH_RS2 = 20"
definition SH_RS2C :: nat where "SH_RS2C = 2"

lemmas sh_defs = SH_RD_def SH_RS1_def SH_RS2_def SH_RS2C_def

definition SHIFT_RIGHT :: "u64 \<Rightarrow> int \<Rightarrow> u64" where
  "SHIFT_RIGHT x y = (if y < 0 then push_bit (nat (- y)) x else drop_bit (nat y) x)"

definition REG_OFFSET :: "u64 \<Rightarrow> nat \<Rightarrow> nat" where
  "REG_OFFSET insn pos = unat (SHIFT_RIGHT insn (int pos - 3) AND 0xF8)"

definition reg_at :: "u64 \<Rightarrow> nat \<Rightarrow> nat" where
  "reg_at insn pos = REG_OFFSET insn pos div 8"

definition GET_RS1 :: "u64 \<Rightarrow> pt_regs \<Rightarrow> u64" where
  "GET_RS1 insn r = gpr r ! reg_at insn SH_RS1"

definition GET_RS2 :: "u64 \<Rightarrow> pt_regs \<Rightarrow> u64" where
  "GET_RS2 insn r = gpr r ! reg_at insn SH_RS2"

definition RV_X :: "u64 \<Rightarrow> nat \<Rightarrow> nat \<Rightarrow> u64" where
  "RV_X x s n = drop_bit s x AND mask n"

definition RVC_RS2S :: "u64 \<Rightarrow> u64" where
  "RVC_RS2S insn = 8 + RV_X insn SH_RS2C 3"

definition GET_RS2S :: "u64 \<Rightarrow> pt_regs \<Rightarrow> u64" where
  "GET_RS2S insn r = gpr r ! reg_at (RVC_RS2S insn) 0"

definition GET_RS2C :: "u64 \<Rightarrow> pt_regs \<Rightarrow> u64" where
  "GET_RS2C insn r = gpr r ! reg_at insn SH_RS2C"

definition SET_RD :: "u64 \<Rightarrow> u64 \<Rightarrow> pt_regs \<Rightarrow> pt_regs" where
  "SET_RD insn v r = r\<lparr>gpr := (gpr r)[reg_at insn SH_RD := v]\<rparr>"

definition GET_RM :: "u64 \<Rightarrow> u64" where
  "GET_RM insn = drop_bit 12 insn AND 7"

definition INSN_LEN :: "u64 \<Rightarrow> u64" where
  "INSN_LEN insn = (if insn AND 3 < 3 then 2 else 4)"

section \<open>Lemmas\<close>

lemma csr_counter_known: "csr_num_known (CSR_MCYCLE + i) \<longleftrightarrow> i < 32 \<and> i \<noteq> 1"
  by (simp add: csr_num_known_def csr_defs) linarith

lemma csr_event_known: "3 \<le> i \<Longrightarrow> i < 32 \<Longrightarrow> csr_num_known (CSR_MHPMEVENT 3 + i - 3)"
  by (simp add: csr_num_known_def csr_defs)

lemma mask_numerals:
  "(1::u64) = mask 1" "(3::u64) = mask 2" "(7::u64) = mask 3" "(0x1F::u64) = mask 5" "(0x7F::u64) = mask 7"
  "(0xFF::u64) = mask 8" "(0x3F::u64) = mask 6" "(0xFFFF::u64) = mask 16"
  by (simp_all add: mask_eq_exp_minus_1)

text \<open>The five-bit register field of an instruction.\<close>

definition field5 :: "u64 \<Rightarrow> nat \<Rightarrow> nat" where
  "field5 insn pos = unat (drop_bit pos insn AND 0x1F)"

lemma field5_less [simp]: "field5 insn pos < 32"
  unfolding field5_def mask_numerals
  using take_bit_nat_less_exp [of 5 "unat (drop_bit pos insn)"]
  by (simp add: unsigned_take_bit_eq flip: take_bit_eq_mask)

lemma reg_at_field: "reg_at insn pos = field5 insn pos"
proof -
  have F8: "(0xF8::u64) = push_bit 3 (mask 5)" by (simp add: mask_eq_exp_minus_1)
  have eq: "SHIFT_RIGHT insn (int pos - 3) AND 0xF8 = push_bit 3 (drop_bit pos insn AND mask 5)"
    unfolding F8 SHIFT_RIGHT_def
    by (rule bit_word_eqI) (auto simp: bit_simps nat_diff_distrib ac_simps)
  have "drop_bit pos insn AND mask 5 = word_of_nat (field5 insn pos)"
    by (simp add: field5_def mask_numerals)
  then have "unat (push_bit 3 (drop_bit pos insn AND mask 5)) = 8 * field5 insn pos"
    using field5_less [of insn pos] by (simp add: unat_word_ariths push_bit_eq_mult unat_of_nat del: field5_less)
  then show ?thesis by (simp add: reg_at_def REG_OFFSET_def eq)
qed

lemma reg_at_less [simp]: "reg_at insn pos < 32"
  by (simp add: reg_at_field)

lemma regs_ok_SET_RD [simp]: "regs_ok (SET_RD insn v r) = regs_ok r"
  by (simp add: regs_ok_def SET_RD_def)

end
