(* ===== verification/Sbi_Trap.thy ===== *)
theory Sbi_Trap
  imports Riscv Sbi_Hsm
begin

text \<open>
  Redirection of a trap to the supervisor, \<open>arch/riscv/sbi/sbi_trap.c\<close>, in the
  configuration with \<open>CONFIG_CPU_S\<close> and \<open>CONFIG_CPU_H\<close>: \<open>sbi_next_virt\<close>,
  \<open>sbi_hyper_save\<close>, \<open>sbi_virt_save\<close> and \<open>sbi_trap_redirect\<close>. The functions take the trap
  frame and the control registers and return them updated. The lemmas give the frame and the
  registers after a redirection bit by bit, next to what the processor does on a trap it
  delegates itself.
\<close>

unbundle bit_operations_syntax

section \<open>Model\<close>

definition sbi_next_virt :: "u64 \<Rightarrow> csrs \<Rightarrow> bool" where
  "sbi_next_virt cause c = (cause < 64 \<and> c CSR_HEDELEG AND push_bit (unat cause) 1 \<noteq> 0)"

definition sbi_hyper_save :: "pt_regs \<Rightarrow> u64 \<Rightarrow> bool \<Rightarrow> csrs \<Rightarrow> csrs" where
  "sbi_hyper_save r prev_mode prev_virt c =
     (let hstatus = c CSR_HSTATUS;
          hstatus = (if prev_virt
                     then (hstatus AND NOT HSTATUS_SPVP) OR (if prev_mode = PRV_S then HSTATUS_SPVP else 0)
                     else hstatus);
          hstatus = hstatus AND NOT HSTATUS_SPV;
          hstatus = hstatus OR (if prev_virt then HSTATUS_SPV else 0);
          hstatus = hstatus AND NOT HSTATUS_GVA;
          hstatus = hstatus OR (if r_gva r \<noteq> 0 then HSTATUS_GVA else 0)
      in c(CSR_HSTATUS := hstatus, CSR_HTVAL := r_tval2 r, CSR_HTINST := r_tinst r))"

definition sbi_virt_save :: "pt_regs \<Rightarrow> u64 \<Rightarrow> bool \<Rightarrow> u64 \<Rightarrow> u64 \<Rightarrow> csrs \<Rightarrow> pt_regs \<times> csrs" where
  "sbi_virt_save r prev_mode prev_virt epc cause c =
     (let c = c(CSR_VSTVAL := r_tval r, CSR_VSEPC := epc, CSR_VSCAUSE := cause);
          r = r\<lparr>r_epc := c CSR_VSTVEC\<rparr>;
          r = r\<lparr>r_status := r_status r AND NOT SR_MPP\<rparr>;
          r = r\<lparr>r_status := r_status r OR push_bit SR_MPP_SHIFT PRV_S\<rparr>;
          vsstatus = c CSR_VSSTATUS;
          vsstatus = vsstatus AND NOT SR_SPP;
          vsstatus = (if prev_mode = PRV_S then vsstatus OR push_bit SR_SPP_SHIFT 1 else vsstatus);
          vsstatus = vsstatus AND NOT SR_SPIE;
          vsstatus = (if vsstatus AND SR_SIE \<noteq> 0 then vsstatus OR push_bit SR_SPIE_SHIFT 1 else vsstatus);
          vsstatus = vsstatus AND NOT SR_SIE
      in (r, c(CSR_VSSTATUS := vsstatus)))"

definition sbi_trap_redirect :: "pt_regs \<Rightarrow> u64 \<Rightarrow> u64 \<Rightarrow> u64 \<Rightarrow> csrs \<Rightarrow> int \<times> pt_regs \<times> csrs" where
  "sbi_trap_redirect r epc cause tval c =
     (let prev_virt = (r_status r AND SR_MPV \<noteq> 0);
          prev_mode = drop_bit SR_MPP_SHIFT (r_status r AND SR_MPP)
      in if prev_mode \<noteq> PRV_S \<and> prev_mode \<noteq> PRV_U then (SBI_ENOTSUPP, r, c)
         else
           let next_virt = (misa_extension CHR ''H'' c \<and> prev_virt \<and> sbi_next_virt cause c);
               r = r\<lparr>r_status := r_status r AND NOT SR_MPV\<rparr>;
               r = r\<lparr>r_status := r_status r OR (if next_virt then SR_MPV else 0)\<rparr>;
               c = (if misa_extension CHR ''H'' c \<and> \<not> next_virt
                    then sbi_hyper_save r prev_mode prev_virt c else c)
           in if next_virt
              then (case sbi_virt_save r prev_mode prev_virt epc cause c of (r, c) \<Rightarrow> (0, r, c))
              else
                let c = c(CSR_STVAL := tval, CSR_SEPC := epc, CSR_SCAUSE := cause);
                    r = r\<lparr>r_epc := c CSR_STVEC\<rparr>;
                    r = r\<lparr>r_status := r_status r AND NOT SR_MPP\<rparr>;
                    r = r\<lparr>r_status := r_status r OR push_bit SR_MPP_SHIFT PRV_S\<rparr>;
                    r = r\<lparr>r_status := r_status r AND NOT SR_SPP\<rparr>;
                    r = (if prev_mode = PRV_S
                         then r\<lparr>r_status := r_status r OR push_bit SR_SPP_SHIFT 1\<rparr> else r);
                    r = r\<lparr>r_status := r_status r AND NOT SR_SIE\<rparr>;
                    r = (if r_status r AND SR_SIE \<noteq> 0
                         then r\<lparr>r_status := r_status r OR push_bit SR_SPP_SHIFT 1\<rparr> else r);
                    r = r\<lparr>r_status := r_status r AND NOT SR_SIE\<rparr>
                in (0, r, c))"

section \<open>Reference: trap entry of the processor\<close>

text \<open>
  On a trap it delegates, the processor saves the mode in \<open>SPP\<close>, moves \<open>SIE\<close> to \<open>SPIE\<close>
  and clears \<open>SIE\<close>. A redirected trap reaches the supervisor through \<open>mret\<close>, so the mode to
  enter is put in \<open>MPP\<close> and \<open>MPV\<close>.
\<close>

definition put_bit :: "nat \<Rightarrow> bool \<Rightarrow> u64 \<Rightarrow> u64" where
  "put_bit n b w = (if b then w OR push_bit n 1 else w AND NOT (push_bit n 1))"

definition to_mode_s :: "bool \<Rightarrow> u64 \<Rightarrow> u64" where
  "to_mode_s virt s = put_bit 39 virt (put_bit 12 False (put_bit 11 True s))"

definition save_mode :: "bool \<Rightarrow> u64 \<Rightarrow> u64" where
  "save_mode from_s s = put_bit 8 from_s (put_bit 1 False s)"

definition trap_entry_status :: "bool \<Rightarrow> u64 \<Rightarrow> u64" where
  "trap_entry_status from_s s = put_bit 5 (bit s 1) (save_mode from_s s)"

definition hstatus_entry :: "bool \<Rightarrow> bool \<Rightarrow> bool \<Rightarrow> u64 \<Rightarrow> u64" where
  "hstatus_entry from_s from_virt gva h =
     put_bit 6 gva (put_bit 7 from_virt (if from_virt then put_bit 8 from_s h else h))"

definition mode_of :: "pt_regs \<Rightarrow> u64" where
  "mode_of r = drop_bit SR_MPP_SHIFT (r_status r AND SR_MPP)"

definition from_virt :: "pt_regs \<Rightarrow> bool" where
  "from_virt r = bit (r_status r) 39"

definition goes_virt :: "pt_regs \<Rightarrow> u64 \<Rightarrow> csrs \<Rightarrow> bool" where
  "goes_virt r cause c =
     (bit (c CSR_MISA) 7 \<and> from_virt r \<and> cause < 64 \<and> bit (c CSR_HEDELEG) (unat cause))"

section \<open>Lemmas\<close>

lemma bit_exp_u64: "bit (push_bit m 1 :: u64) n \<longleftrightarrow> n = m \<and> n < 64"
  by (auto simp: bit_simps)

lemma bit_put_bit [simp]: "bit (put_bit n b w) i \<longleftrightarrow> (if i = n \<and> i < 64 then b else bit w i)" for w :: u64
proof (cases "i < 64")
  case True
  then show ?thesis using bit_exp_u64 [of n i] by (auto simp: put_bit_def bit_or_iff bit_and_iff bit_not_iff)
next
  case False
  then have "\<not> bit x i" for x :: u64 using bit_imp_le_length [of x i] by auto
  then show ?thesis using False by simp
qed

lemma and_exp_nonzero: "(w AND push_bit n 1 \<noteq> 0) = bit w n" for w :: "'a::len word"
  by (auto simp: and_exp_eq_0_iff_not_bit push_bit_eq_mult)

lemma sr_masks:
  "SR_SIE = push_bit 1 1" "SR_SPIE = push_bit 5 1" "SR_SPP = push_bit 8 1" "SR_MPV = push_bit 39 1"
  "HSTATUS_SPVP = push_bit 8 1" "HSTATUS_SPV = push_bit 7 1" "HSTATUS_GVA = push_bit 6 1"
  "SR_MPP = push_bit 11 (mask 2)"
  by (simp_all add: sr_defs mask_eq_exp_minus_1)

lemma sr_bits:
  "bit SR_SIE n \<longleftrightarrow> n = 1" "bit SR_SPIE n \<longleftrightarrow> n = 5" "bit SR_SPP n \<longleftrightarrow> n = 8"
  "bit SR_MPV n \<longleftrightarrow> n = 39"
  "bit HSTATUS_SPVP n \<longleftrightarrow> n = 8" "bit HSTATUS_SPV n \<longleftrightarrow> n = 7" "bit HSTATUS_GVA n \<longleftrightarrow> n = 6"
  "bit (2 ^ SR_SPP_SHIFT :: u64) n \<longleftrightarrow> n = 8"
  "bit (2 ^ SR_SPIE_SHIFT :: u64) n \<longleftrightarrow> n = 5"
  "bit (push_bit SR_MPP_SHIFT PRV_S) n \<longleftrightarrow> n = 11"
  unfolding sr_masks SR_SPP_SHIFT_def SR_SPIE_SHIFT_def SR_MPP_SHIFT_def PRV_S_def push_bit_of_1 [symmetric]
    bit_exp_u64
  by auto

lemma bit_SR_MPP [simp]: "bit SR_MPP n \<longleftrightarrow> n = 11 \<or> n = 12"
  unfolding sr_masks by (auto simp: bit_push_bit_iff bit_mask_iff)

lemma sr_tests:
  "w AND SR_SIE \<noteq> 0 \<longleftrightarrow> bit w 1" "w AND SR_MPV \<noteq> 0 \<longleftrightarrow> bit w 39"
  unfolding sr_masks by (simp_all only: and_exp_nonzero)

lemma misa_H: "misa_extension CHR ''H'' c = bit (c CSR_MISA) 7"
  using and_exp_nonzero [of "c CSR_MISA" 7] by (simp add: misa_extension_def)

lemma next_virt_bit: "sbi_next_virt cause c \<longleftrightarrow> cause < 64 \<and> bit (c CSR_HEDELEG) (unat cause)"
  by (simp only: sbi_next_virt_def and_exp_nonzero)

lemmas status_bits = bit_or_iff bit_and_iff bit_not_iff sr_bits sr_tests

lemma hyper_save_entry:
  "sbi_hyper_save r prev_mode virt c =
     c(CSR_HSTATUS := hstatus_entry (prev_mode = PRV_S) virt (r_gva r \<noteq> 0) (c CSR_HSTATUS),
       CSR_HTVAL := r_tval2 r, CSR_HTINST := r_tinst r)"
  unfolding sbi_hyper_save_def Let_def hstatus_entry_def
  by (intro arg_cong2 [of _ _ _ _ "\<lambda>h t. c(CSR_HSTATUS := h, CSR_HTVAL := t, CSR_HTINST := r_tinst r)"] refl)
     (rule bit_word_eqI, simp add: status_bits)

lemma virt_save_entry:
  "sbi_virt_save r prev_mode virt epc cause c =
     (r\<lparr>r_epc := c CSR_VSTVEC, r_status := put_bit 12 False (put_bit 11 True (r_status r))\<rparr>,
      c(CSR_VSTVAL := r_tval r, CSR_VSEPC := epc, CSR_VSCAUSE := cause,
        CSR_VSSTATUS := trap_entry_status (prev_mode = PRV_S) (c CSR_VSSTATUS)))"
proof -
  have 1: "(s AND NOT SR_MPP) OR push_bit SR_MPP_SHIFT PRV_S = put_bit 12 False (put_bit 11 True s)" for s
    by (rule bit_word_eqI) (simp add: status_bits)
  have 2: "(let v = s AND NOT SR_SPP;
          v = (if m then v OR push_bit SR_SPP_SHIFT 1 else v);
          v = v AND NOT SR_SPIE;
          v = (if v AND SR_SIE \<noteq> 0 then v OR push_bit SR_SPIE_SHIFT 1 else v)
      in v AND NOT SR_SIE) = trap_entry_status m s" for m s
    unfolding Let_def trap_entry_status_def save_mode_def
    by (rule bit_word_eqI) (simp add: status_bits)
  show ?thesis
    unfolding sbi_virt_save_def 2 [symmetric]
    by (cases "prev_mode = PRV_S") (simp_all add: 1 Let_def csr_defs)
qed

definition hyper_entry :: "pt_regs \<Rightarrow> csrs \<Rightarrow> csrs" where
  "hyper_entry r c = (if bit (c CSR_MISA) 7
     then c(CSR_HSTATUS := hstatus_entry (mode_of r = PRV_S) (from_virt r) (r_gva r \<noteq> 0) (c CSR_HSTATUS),
            CSR_HTVAL := r_tval2 r, CSR_HTINST := r_tinst r)
     else c)"

definition redirect_to_hs :: "pt_regs \<Rightarrow> u64 \<Rightarrow> u64 \<Rightarrow> u64 \<Rightarrow> csrs \<Rightarrow> pt_regs \<times> csrs" where
  "redirect_to_hs r epc cause tval c =
     (r\<lparr>r_epc := c CSR_STVEC,
        r_status := to_mode_s False (save_mode (mode_of r = PRV_S) (r_status r))\<rparr>,
      (hyper_entry r c)(CSR_STVAL := tval, CSR_SEPC := epc, CSR_SCAUSE := cause))"

definition redirect_to_vs :: "pt_regs \<Rightarrow> u64 \<Rightarrow> u64 \<Rightarrow> csrs \<Rightarrow> pt_regs \<times> csrs" where
  "redirect_to_vs r epc cause c =
     (r\<lparr>r_epc := c CSR_VSTVEC, r_status := to_mode_s True (r_status r)\<rparr>,
      c(CSR_VSTVAL := r_tval r, CSR_VSEPC := epc, CSR_VSCAUSE := cause,
        CSR_VSSTATUS := trap_entry_status (mode_of r = PRV_S) (c CSR_VSSTATUS)))"

lemma hs_status:
  "(let s = (s AND NOT SR_MPV) OR 0;
        s = s AND NOT SR_MPP;
        s = s OR push_bit SR_MPP_SHIFT PRV_S;
        s = s AND NOT SR_SPP;
        s = (if m then s OR push_bit SR_SPP_SHIFT 1 else s);
        s = s AND NOT SR_SIE;
        s = (if s AND SR_SIE \<noteq> 0 then s OR push_bit SR_SPP_SHIFT 1 else s)
    in s AND NOT SR_SIE) = to_mode_s False (save_mode m s)"
  unfolding Let_def to_mode_s_def save_mode_def
  by (rule bit_word_eqI) (simp add: status_bits)

lemma vs_status:
  "put_bit 12 False (put_bit 11 True ((s AND NOT SR_MPV) OR SR_MPV)) = to_mode_s True s"
  unfolding to_mode_s_def by (rule bit_word_eqI) (simp add: status_bits)

lemma redirect_cases:
  "sbi_trap_redirect r epc cause tval c =
     (if mode_of r \<noteq> PRV_S \<and> mode_of r \<noteq> PRV_U then (SBI_ENOTSUPP, r, c)
      else (0, if goes_virt r cause c then redirect_to_vs r epc cause c
               else redirect_to_hs r epc cause tval c))"
proof -
  have virt: "(misa_extension CHR ''H'' c \<and> r_status r AND SR_MPV \<noteq> 0 \<and> sbi_next_virt cause c) = goes_virt r cause c"
    by (simp only: goes_virt_def misa_H next_virt_bit sr_tests from_virt_def)
  show ?thesis
  proof (cases "goes_virt r cause c")
    case True
    then show ?thesis
      unfolding sbi_trap_redirect_def Let_def virt mode_of_def [symmetric]
      by (simp add: virt_save_entry redirect_to_vs_def vs_status mode_of_def)
  next
    case False
    then show ?thesis
      unfolding sbi_trap_redirect_def Let_def virt mode_of_def [symmetric]
        redirect_to_hs_def hs_status [symmetric]
      by (cases "mode_of r = PRV_S")
         (simp_all add: Let_def hyper_entry_def hyper_save_entry misa_H sr_tests from_virt_def csr_defs)
  qed
qed

section \<open>Properties\<close>

text \<open>
  What the processor itself does on a trap that it takes in HS-mode and in VS-mode: with the
  status of the interrupted code in \<open>s\<close> for HS-mode and in \<open>vsstatus\<close> for VS-mode.
\<close>

definition arch_entry_hs :: "pt_regs \<Rightarrow> u64 \<Rightarrow> u64 \<Rightarrow> u64 \<Rightarrow> csrs \<Rightarrow> pt_regs \<times> csrs" where
  "arch_entry_hs r epc cause tval c =
     (r\<lparr>r_epc := c CSR_STVEC,
        r_status := to_mode_s False (trap_entry_status (mode_of r = PRV_S) (r_status r))\<rparr>,
      (hyper_entry r c)(CSR_STVAL := tval, CSR_SEPC := epc, CSR_SCAUSE := cause))"





text \<open>
  A trap redirected to HS-mode while \<open>SIE\<close> is set and \<open>SPIE\<close> is clear leaves both clear,
  whereas the processor sets \<open>SPIE\<close>: after the return from the handler, which copies \<open>SPIE\<close>
  to \<open>SIE\<close>, the supervisor's interrupts stay disabled.
\<close>

theorem trap_redirect_loses_sie:
  assumes "mode_of r = PRV_S" "\<not> goes_virt r cause c" "bit (r_status r) 1" "\<not> bit (r_status r) 5"
  shows "\<exists>r' c'. sbi_trap_redirect r epc cause tval c = (0, r', c') \<and>
    \<not> bit (r_status r') 5 \<and> \<not> bit (r_status r') 1 \<and>
    bit (r_status (fst (arch_entry_hs r epc cause tval c))) 5"
proof -
  have "sbi_trap_redirect r epc cause tval c = (0, redirect_to_hs r epc cause tval c)"
    using assms(1,2) by (simp add: redirect_cases)
  then show ?thesis using assms(3,4)
    by (simp add: redirect_to_hs_def arch_entry_hs_def to_mode_s_def save_mode_def trap_entry_status_def)
qed

definition trap_demo :: pt_regs where
  "trap_demo = \<lparr>gpr = replicate 32 0, r_epc = 0x80400000, r_status = 0x802, r_tval = 0, r_tval2 = 0, r_tinst = 0, r_gva = 0\<rparr>"

theorem trap_redirect_loses_sie_witness:
  "\<exists>r' c'. sbi_trap_redirect trap_demo 0x80400000 2 0 (\<lambda>_. 0) = (0, r', c') \<and>
    \<not> bit (r_status r') 5 \<and> \<not> bit (r_status r') 1 \<and>
    bit (r_status (fst (arch_entry_hs trap_demo 0x80400000 2 0 (\<lambda>_. 0)))) 5"
  by (rule trap_redirect_loses_sie) code_simp+

end
