(* ===== verification/Sbi_Bitops.thy ===== *)
theory Sbi_Bitops
  imports Bitops
begin

text \<open>
  The bit searches of the SBI code: \<open>sbi_ffs\<close>, \<open>sbi_ffz\<close> and \<open>sbi_fls\<close> of
  \<open>include/sbi/sbi_bitops.h\<close> and the bitmap searches of \<open>arch/riscv/sbi/sbi_bitops.c\<close>,
  on bitmaps of 64-bit words. They are a second implementation of what \<open>lib/bitops.c\<close>
  (theory Bitops) has; the lemmas show that the two compute the same, and what
  \<open>find_last_bit\<close>, which has no counterpart there, returns.
\<close>

unbundle bit_operations_syntax

section \<open>Model\<close>

text \<open>One test of the cascade of \<open>sbi_ffs\<close> and of \<open>sbi_fls\<close>.\<close>

definition sbi_ffs_step :: "nat \<Rightarrow> u64 \<Rightarrow> nat \<times> u64 \<Rightarrow> nat \<times> u64" where
  "sbi_ffs_step n m = (\<lambda>(num, w). if w AND m = 0 then (num + n, drop_bit n w) else (num, w))"

definition sbi_ffs :: "u64 \<Rightarrow> nat" where
  "sbi_ffs w = (let (num, w) = sbi_ffs_step 2 0x3 (sbi_ffs_step 4 0xf (sbi_ffs_step 8 0xff
       (sbi_ffs_step 16 0xffff (sbi_ffs_step 32 0xffffffff (0, w)))))
     in if w AND 0x1 = 0 then num + 1 else num)"

definition sbi_ffz :: "u64 \<Rightarrow> nat" where
  "sbi_ffz x = sbi_ffs (NOT x)"

definition sbi_fls_step :: "nat \<Rightarrow> u64 \<Rightarrow> nat \<times> u64 \<Rightarrow> nat \<times> u64" where
  "sbi_fls_step n m = (\<lambda>(num, w). if w AND m = 0 then (num - n, push_bit n w) else (num, w))"

definition sbi_fls :: "u64 \<Rightarrow> nat" where
  "sbi_fls w = (let (num, w) = sbi_fls_step 2 (push_bit (64 - 2) (- 1)) (sbi_fls_step 4 (push_bit (64 - 4) (- 1))
       (sbi_fls_step 8 (push_bit (64 - 8) (- 1)) (sbi_fls_step 16 (push_bit (64 - 16) (- 1))
       (sbi_fls_step 32 (push_bit 32 (- 1)) (64 - 1, w)))))
     in if w AND push_bit (64 - 1) (- 1) = 0 then num - 1 else num)"

text \<open>
  The loops over whole words, which \<open>find_first_bit\<close> and \<open>find_next_bit\<close> share; a read behind
  the bitmap is \<open>Oob\<close>. The \<open>_first\<close> functions are the label \<open>found_first\<close>.
\<close>

definition find_bit_first :: "u64 \<Rightarrow> nat \<Rightarrow> nat \<Rightarrow> nat" where
  "find_bit_first tmp sz result =
     (let tmp = tmp AND drop_bit (64 - sz) (- 1)
      in if tmp = 0 then result + sz else result + sbi_ffs tmp)"

fun find_bit_loop :: "u64 list \<Rightarrow> nat \<Rightarrow> nat \<Rightarrow> nat \<Rightarrow> nat res" where
  "find_bit_loop addr p sz result =
     (if sz \<ge> 64
      then if p < length addr
           then if addr ! p \<noteq> 0 then Inr (result + sbi_ffs (addr ! p))
                else find_bit_loop addr (p + 1) (sz - 64) (result + 64)
           else Inl Oob
      else if sz = 0 then Inr result
      else if p < length addr then Inr (find_bit_first (addr ! p) sz result) else Inl Oob)"

definition find_first_bit :: "u64 list \<Rightarrow> nat \<Rightarrow> nat res" where
  "find_first_bit addr sz = find_bit_loop addr 0 sz 0"

definition find_next_bit :: "u64 list \<Rightarrow> nat \<Rightarrow> nat \<Rightarrow> nat res" where
  "find_next_bit addr sz offset =
     (let p = offset div 64; result = offset - offset mod 64
      in if offset \<ge> sz then Inr sz
         else let sz = sz - result; offset = offset mod 64
              in if offset \<noteq> 0
                 then if p < length addr
                      then let tmp = addr ! p AND push_bit offset (- 1)
                           in if sz < 64 then Inr (find_bit_first tmp sz result)
                              else if tmp \<noteq> 0 then Inr (result + sbi_ffs tmp)
                              else find_bit_loop addr (p + 1) (sz - 64) (result + 64)
                      else Inl Oob
                 else find_bit_loop addr p sz result)"

definition find_zero_first :: "u64 \<Rightarrow> nat \<Rightarrow> nat \<Rightarrow> nat" where
  "find_zero_first tmp sz result =
     (let tmp = tmp OR push_bit sz (- 1)
      in if tmp = - 1 then result + sz else result + sbi_ffz tmp)"

fun find_zero_loop :: "u64 list \<Rightarrow> nat \<Rightarrow> nat \<Rightarrow> nat \<Rightarrow> nat res" where
  "find_zero_loop addr p sz result =
     (if sz \<ge> 64
      then if p < length addr
           then if NOT (addr ! p) \<noteq> 0 then Inr (result + sbi_ffz (addr ! p))
                else find_zero_loop addr (p + 1) (sz - 64) (result + 64)
           else Inl Oob
      else if sz = 0 then Inr result
      else if p < length addr then Inr (find_zero_first (addr ! p) sz result) else Inl Oob)"

definition find_first_zero_bit :: "u64 list \<Rightarrow> nat \<Rightarrow> nat res" where
  "find_first_zero_bit addr sz = find_zero_loop addr 0 sz 0"

definition find_next_zero_bit :: "u64 list \<Rightarrow> nat \<Rightarrow> nat \<Rightarrow> nat res" where
  "find_next_zero_bit addr sz offset =
     (let p = offset div 64; result = offset - offset mod 64
      in if offset \<ge> sz then Inr sz
         else let sz = sz - result; offset = offset mod 64
              in if offset \<noteq> 0
                 then if p < length addr
                      then let tmp = addr ! p OR drop_bit (64 - offset) (- 1)
                           in if sz < 64 then Inr (find_zero_first tmp sz result)
                              else if NOT tmp \<noteq> 0 then Inr (result + sbi_ffz tmp)
                              else find_zero_loop addr (p + 1) (sz - 64) (result + 64)
                      else Inl Oob
                 else find_zero_loop addr p sz result)"

fun find_last_loop :: "u64 list \<Rightarrow> nat \<Rightarrow> nat \<Rightarrow> nat res" where
  "find_last_loop addr sz 0 = Inr sz"
| "find_last_loop addr sz (Suc words) =
     (if words < length addr
      then if addr ! words \<noteq> 0 then Inr (words * 64 + sbi_fls (addr ! words))
           else find_last_loop addr sz words
      else Inl Oob)"

definition find_last_bit :: "u64 list \<Rightarrow> nat \<Rightarrow> nat res" where
  "find_last_bit addr sz =
     (let words = sz div 64
      in if sz mod 64 \<noteq> 0
         then if words < length addr
              then let tmp = addr ! words AND drop_bit (64 - sz mod 64) (- 1)
                   in if tmp \<noteq> 0 then Inr (words * 64 + sbi_fls tmp)
                      else find_last_loop addr sz words
              else Inl Oob
         else find_last_loop addr sz words)"

definition test_bit_sbi :: "nat \<Rightarrow> u64 list \<Rightarrow> bool res" where
  "test_bit_sbi nr addr =
     (if nr div 64 < length addr then Inr (1 AND drop_bit (nr mod 64) (addr ! (nr div 64)) \<noteq> 0) else Inl Oob)"

definition change_bit :: "nat \<Rightarrow> u64 list \<Rightarrow> u64 list res" where
  "change_bit nr addr =
     (if nr div 64 < length addr
      then Inr (addr[nr div 64 := addr ! (nr div 64) XOR push_bit (nr mod 64) 1]) else Inl Oob)"

declare find_bit_loop.simps [simp del] find_zero_loop.simps [simp del]

section \<open>Lemmas\<close>

lemma ffs_step_sim:
  assumes "ffs_inv x (2 * n) (num, w)" "n < 64"
  shows "sbi_ffs_step n m (unat num, w) = map_prod unat id (ffs_step n m (num, w))"
  using assms by (auto simp: ffs_inv_def sbi_ffs_step_def ffs_step_def unat_word_ariths unat_of_nat)

lemma ffs_step_sim':
  assumes "ffs_inv x (2 * n) s" "n < 64"
  shows "sbi_ffs_step n m (map_prod unat id s) = map_prod unat id (ffs_step n m s)"
  using ffs_step_sim [of x n "fst s" "snd s"] assms by (cases s) simp

lemma sbi_ffs_eq:
  assumes "w \<noteq> 0"
  shows "sbi_ffs w = unat (ffs64 w)"
proof -
  define s0 s1 s2 s3 s4 s5 where s: "s0 = (0 :: u8, w)" "s1 = ffs_step 32 0xffffffff s0"
    "s2 = ffs_step 16 0xffff s1" "s3 = ffs_step 8 0xff s2" "s4 = ffs_step 4 0xf s3" "s5 = ffs_step 2 0x3 s4"
  have "ffs_inv w 64 s0" unfolding s using assms by (intro ffs_inv_init) auto
  then have i1: "ffs_inv w 32 s1" unfolding s(2) by (intro ffs_inv_step [where n = 32]) (simp_all add: mask_numeral)
  then have i2: "ffs_inv w 16 s2" unfolding s(3) by (intro ffs_inv_step [where n = 16]) (simp_all add: mask_numeral)
  then have i3: "ffs_inv w 8 s3" unfolding s(4) by (intro ffs_inv_step [where n = 8]) (simp_all add: mask_numeral)
  then have i4: "ffs_inv w 4 s4" unfolding s(5) by (intro ffs_inv_step [where n = 4]) (simp_all add: mask_numeral)
  then have i5: "ffs_inv w 2 s5" unfolding s(6) by (intro ffs_inv_step [where n = 2]) (simp_all add: mask_numeral)
  note sims = ffs_step_sim' [of w 32 s0] ffs_step_sim' [of w 16 s1] ffs_step_sim' [of w 8 s2]
    ffs_step_sim' [of w 4 s3] ffs_step_sim' [of w 2 s4] ffs_step_sim' [of w 1 s5]
  have "sbi_ffs_step 2 0x3 (sbi_ffs_step 4 0xf (sbi_ffs_step 8 0xff
       (sbi_ffs_step 16 0xffff (sbi_ffs_step 32 0xffffffff (0, w))))) = map_prod unat id s5"
    using sims(1-5) \<open>ffs_inv w 64 s0\<close> i1 i2 i3 i4 by (simp add: s(2-6)) (simp add: s(1))
  moreover have "unat (ffs64 w) = fst (sbi_ffs_step 1 1 (map_prod unat id s5))"
    using sims(6) i5 assms by (simp add: ffs64_def s(1) [symmetric] s(2-6) [symmetric])
  ultimately show ?thesis
    by (cases s5) (simp add: sbi_ffs_def sbi_ffs_step_def)
qed

lemma fls_step_sim:
  assumes "fls_inv x (2 * n) s" "n < 64"
  shows "sbi_fls_step n m (map_prod unat id s) = map_prod unat id (fls_step n m s)"
proof -
  obtain num w where s: "s = (num, w)" by force
  have "n \<le> unat num" using assms(1) by (cases n) (auto simp: s fls_inv_def)
  then have "unat (num - of_nat n) = unat num - n"
    using assms(2) by (simp add: unat_sub word_le_nat_alt unat_of_nat)
  then show ?thesis by (simp add: s sbi_fls_step_def fls_step_def)
qed

lemma top_masks:
  "push_bit (64 - 2) (- 1) = (0xc000000000000000 :: u64)" "push_bit (64 - 4) (- 1) = (0xf000000000000000 :: u64)"
  "push_bit (64 - 8) (- 1) = (0xff00000000000000 :: u64)" "push_bit (64 - 16) (- 1) = (0xffff000000000000 :: u64)"
  "push_bit 32 (- 1) = (0xffffffff00000000 :: u64)" "push_bit (64 - 1) (- 1) = (0x8000000000000000 :: u64)"
  by code_simp+

lemma sbi_fls_eq:
  assumes "w \<noteq> 0"
  shows "sbi_fls w = unat (fls64 w)"
proof -
  define s0 s1 s2 s3 s4 s5 where s: "s0 = (63 :: u8, w)" "s1 = fls_step 32 0xffffffff00000000 s0"
    "s2 = fls_step 16 0xffff000000000000 s1" "s3 = fls_step 8 0xff00000000000000 s2"
    "s4 = fls_step 4 0xf000000000000000 s3" "s5 = fls_step 2 0xc000000000000000 s4"
  have i0: "fls_inv w 64 s0" unfolding s using assms by (intro fls_inv_init) auto
  then have i1: "fls_inv w 32 s1" unfolding s(2) by (intro fls_inv_step [where n = 32]) (simp_all add: mask_numeral)
  then have i2: "fls_inv w 16 s2" unfolding s(3) by (intro fls_inv_step [where n = 16]) (simp_all add: mask_numeral)
  then have i3: "fls_inv w 8 s3" unfolding s(4) by (intro fls_inv_step [where n = 8]) (simp_all add: mask_numeral)
  then have i4: "fls_inv w 4 s4" unfolding s(5) by (intro fls_inv_step [where n = 4]) (simp_all add: mask_numeral)
  then have i5: "fls_inv w 2 s5" unfolding s(6) by (intro fls_inv_step [where n = 2]) (simp_all add: mask_numeral)
  note sims = fls_step_sim [of w 32 s0] fls_step_sim [of w 16 s1] fls_step_sim [of w 8 s2]
    fls_step_sim [of w 4 s3] fls_step_sim [of w 2 s4] fls_step_sim [of w 1 s5]
  have "sbi_fls_step 2 0xc000000000000000 (sbi_fls_step 4 0xf000000000000000 (sbi_fls_step 8 0xff00000000000000
       (sbi_fls_step 16 0xffff000000000000 (sbi_fls_step 32 0xffffffff00000000 (64 - 1, w))))) = map_prod unat id s5"
    using sims(1-5) i0 i1 i2 i3 i4 by (simp add: s(2-6)) (simp add: s(1))
  moreover have "fls64 w = fst (fls_step 1 0x8000000000000000 s5)"
    unfolding fls64_def s using assms by simp
  moreover have "fst (sbi_fls_step 1 0x8000000000000000 (map_prod unat id s5)) =
      unat (fst (fls_step 1 0x8000000000000000 s5))"
    using sims(6) i5 by simp
  ultimately have "sbi_fls w = unat (fls64 w) \<longleftrightarrow> (let (num, w) = map_prod unat id s5
      in if w AND 0x8000000000000000 = 0 then num - 1 else num) = fst (sbi_fls_step 1 0x8000000000000000 (map_prod unat id s5))"
    unfolding sbi_fls_def top_masks by simp
  then show ?thesis by (cases s5) (simp add: sbi_fls_step_def)
qed

lemma sbi_fls_bit:
  assumes "w \<noteq> 0"
  shows "bit w (sbi_fls w)" "sbi_fls w < i \<Longrightarrow> \<not> bit w i" "sbi_fls w < 64"
proof -
  note r = fls_range(4) [OF assms, folded sbi_fls_eq [OF assms]]
  show b: "bit w (sbi_fls w)" using fls_bit(1) r by blast
  show "sbi_fls w < i \<Longrightarrow> \<not> bit w i" using fls_bit(2) r by blast
  show "sbi_fls w < 64" using bit_imp_le_length [OF b] by simp
qed

lemma find_bit_first_eq: "find_bit_first tmp sz result = find_set_first tmp sz result"
  by (simp add: find_bit_first_def find_set_first_def Let_def sbi_ffs_eq)

lemma find_bit_loop_eq: "find_bit_loop addr p sz result = find_set_loop addr p sz result"
  by (induction addr p sz result rule: find_bit_loop.induct)
     (subst find_bit_loop.simps, subst find_set_loop.simps, auto simp: find_bit_first_eq sbi_ffs_eq)

lemma find_next_bit_eq: "find_next_bit addr sz offset = find_next_set_bit addr sz offset"
  by (simp add: find_next_bit_def find_next_set_bit_def Let_def find_bit_first_eq find_bit_loop_eq
      sbi_ffs_eq BITOP_WORD_def)

lemma find_zero_first_eq: "find_zero_first tmp sz result = find_clear_first tmp sz result"
  using sbi_ffs_eq [of "NOT (tmp OR push_bit sz (- 1))"] not_eq_iff [of "tmp OR push_bit sz (- 1)"]
  by (simp add: find_zero_first_def find_clear_first_def Let_def sbi_ffz_def ffz64_def del: bit.de_Morgan_disj)

lemma sbi_ffz_eq: "NOT x \<noteq> 0 \<Longrightarrow> sbi_ffz x = unat (ffz64 x)"
  by (simp add: sbi_ffz_def ffz64_def sbi_ffs_eq)

lemma find_zero_loop_eq: "find_zero_loop addr p sz result = find_clear_loop addr p sz result"
  by (induction addr p sz result rule: find_zero_loop.induct)
     (subst find_zero_loop.simps, subst find_clear_loop.simps, auto simp: find_zero_first_eq sbi_ffz_eq)

lemma find_next_zero_bit_eq: "find_next_zero_bit addr sz offset = find_next_clear_bit addr sz offset"
proof -
  have "(if NOT t \<noteq> 0 then Inr (r + sbi_ffz t) else y) = (if NOT t \<noteq> 0 then Inr (r + unat (ffz64 t)) else y)"
    for t r and y :: "nat res"
    by (simp add: sbi_ffz_eq)
  then show ?thesis
    unfolding find_next_zero_bit_def find_next_clear_bit_def Let_def
    by (simp only: find_zero_first_eq find_zero_loop_eq BITOP_WORD_def)
qed

lemma find_first_bit_next: "find_first_bit addr sz = find_next_bit addr sz 0"
  by (cases "sz = 0") (simp_all add: find_first_bit_def find_next_bit_def find_bit_loop.simps [of addr 0 0])

lemma find_first_zero_bit_next: "find_first_zero_bit addr sz = find_next_zero_bit addr sz 0"
  by (cases "sz = 0") (simp_all add: find_first_zero_bit_def find_next_zero_bit_def find_zero_loop.simps [of addr 0 0])

text \<open>\<open>r\<close> is the last number below \<open>sz\<close> with \<open>P\<close>, or \<open>sz\<close> when there is none.\<close>

definition last_in :: "(nat \<Rightarrow> bool) \<Rightarrow> nat \<Rightarrow> nat \<Rightarrow> bool" where
  "last_in P sz r \<longleftrightarrow> (r < sz \<and> P r \<and> (\<forall>j. r < j \<and> j < sz \<longrightarrow> \<not> P j)) \<or> (r = sz \<and> (\<forall>j. j < sz \<longrightarrow> \<not> P j))"

lemma last_in_unit:
  assumes p: "p < length addr" and tmp: "tmp \<noteq> 0" "64 * p + n \<le> sz" "n \<le> 64"
    "\<And>i. bit tmp i \<longleftrightarrow> i < n \<and> bit (addr ! p) i"
    and top: "\<And>j. 64 * p + n \<le> j \<Longrightarrow> j < sz \<Longrightarrow> \<not> bm_test addr j"
  shows "last_in (bm_test addr) sz (64 * p + sbi_fls tmp)"
proof -
  have less: "sbi_fls tmp < n" using sbi_fls_bit(1) [OF tmp(1)] tmp(4) by blast
  have "\<not> bm_test addr j" if "64 * p + sbi_fls tmp < j" "j < sz" for j
  proof (cases "j < 64 * p + n")
    case True
    define i where "i = j - 64 * p"
    with that tmp True have j: "j = 64 * p + i" "sbi_fls tmp < i" "i < n" "i < 64" by auto
    with sbi_fls_bit(2) [OF tmp(1), of i] tmp(4) [of i] show ?thesis by (simp add: bm_test_unit [OF p])
  qed (use top that in simp)
  moreover have "bm_test addr (64 * p + sbi_fls tmp)"
    using sbi_fls_bit(1,3) [OF tmp(1)] tmp(4) by (simp add: bm_test_unit [OF p])
  ultimately show ?thesis using tmp less by (auto simp: last_in_def)
qed

lemma find_last_loop_last:
  assumes "64 * words \<le> sz" "64 * words \<le> 64 * length addr"
    and "\<And>j. 64 * words \<le> j \<Longrightarrow> j < sz \<Longrightarrow> \<not> bm_test addr j"
  shows "\<exists>r. find_last_loop addr sz words = Inr r \<and> last_in (bm_test addr) sz r"
  using assms
proof (induction addr sz words rule: find_last_loop.induct)
  case (1 addr sz)
  then show ?case by (auto simp: last_in_def)
next
  case (2 addr sz words)
  then have p: "words < length addr" by simp
  show ?case
  proof (cases "addr ! words = 0")
    case True
    then have clear: "\<not> bm_test addr j" if "64 * words \<le> j" "j < sz" for j
      using unit_clear [OF p, of 0 64 j] "2.prems"(3) [of j] that by (cases "j < 64 * words + 64") auto
    from "2.IH" [OF p] True "2.prems" clear show ?thesis using p by auto
  next
    case False
    have "last_in (bm_test addr) sz (64 * words + sbi_fls (addr ! words))"
      using "2.prems" bit_imp_le_length [of "addr ! words"] by (intro last_in_unit [OF p False, of 64]) auto
    then show ?thesis using p False by (simp add: mult.commute)
  qed
qed

lemma find_last_bit_at:
  assumes "n < 64" "64 * p + n \<le> 64 * length addr"
  shows "\<exists>r. find_last_bit addr (64 * p + n) = Inr r \<and> last_in (bm_test addr) (64 * p + n) r"
proof (cases "n = 0")
  case True
  then show ?thesis using find_last_loop_last [of p "64 * p" addr] assms by (simp add: find_last_bit_def)
next
  case False
  let ?sz = "64 * p + n" and ?t = "addr ! p AND mask n"
  have p: "p < length addr" using False assms by linarith
  have bits: "bit ?t i \<longleftrightarrow> i < n \<and> bit (addr ! p) i" for i
    using bit_imp_le_length [of "addr ! p" i] by (auto simp: bit_and_iff bit_mask_iff)
  have eq: "find_last_bit addr ?sz =
      (if ?t \<noteq> 0 then Inr (p * 64 + sbi_fls ?t) else find_last_loop addr ?sz p)"
    using assms False p ones_drop [of n] by (simp add: find_last_bit_def Let_def)
  show ?thesis
  proof (cases "?t = 0")
    case True
    then have "\<not> bit (addr ! p) i" if "i < n" for i using bits [of i] that by simp
    then have "\<not> bm_test addr j" if "64 * p \<le> j" "j < ?sz" for j
      using unit_clear [OF p, of 0 n j] that assms by simp
    moreover have "find_last_bit addr ?sz = find_last_loop addr ?sz p" using True eq by simp
    ultimately show ?thesis using find_last_loop_last [of p ?sz addr] p by (metis le_add1 less_or_eq_imp_le mult_le_mono2)
  next
    case nz: False
    have "last_in (bm_test addr) ?sz (64 * p + sbi_fls ?t)"
      using bits assms by (intro last_in_unit [OF p nz, of n]) auto
    moreover have "find_last_bit addr ?sz = Inr (64 * p + sbi_fls ?t)" using nz eq by simp
    ultimately show ?thesis by blast
  qed
qed

lemma find_last_bit_last:
  assumes "sz \<le> 64 * length addr"
  shows "\<exists>r. find_last_bit addr sz = Inr r \<and> last_in (bm_test addr) sz r"
  using find_last_bit_at [of "sz mod 64" "sz div 64" addr] assms by simp

lemma sbi_ffs_ge:
  assumes "w \<noteq> 0" "\<And>i. bit w i \<Longrightarrow> n \<le> i"
  shows "n \<le> sbi_ffs w"
  using assms ffs_bit(4) [OF assms(1)] sbi_ffs_eq [OF assms(1)] by simp

lemma find_bit_loop_ge: "find_bit_loop addr p sz result = Inr r \<Longrightarrow> result \<le> r"
proof (induction addr p sz result rule: find_bit_loop.induct)
  case (1 addr p sz result)
  then show ?case
    by (auto simp: find_bit_loop.simps [of addr p sz result] find_bit_first_def Let_def split: if_splits)
qed

text \<open>The search never returns a position before its start.\<close>

lemma find_next_bit_ge:
  assumes "find_next_bit addr sz offset = Inr r" "offset < sz"
  shows "offset \<le> r"
proof (cases "offset mod 64 = 0")
  case True
  then show ?thesis using assms find_bit_loop_ge [of addr "offset div 64" "sz - offset" offset r]
    by (simp add: find_next_bit_def)
next
  case False
  let ?o = "offset mod 64"
  have off: "offset - ?o + ?o = offset" "?o < 64" by simp_all
  have masked: "?o \<le> i" if "bit (w AND push_bit ?o (- 1) AND m) i" for w m :: u64 and i
    using that by (auto simp: bit_and_iff bit_not_iff bit_mask_iff)
  have "offset \<le> offset + sbi_ffs (w AND push_bit ?o (- 1) AND m) - ?o"
    if "w AND push_bit ?o (- 1) AND m \<noteq> 0" for w m :: u64
    using sbi_ffs_ge [OF that, of ?o] masked [of w m] by (meson add_le_imp_le_diff add_le_mono1 le_add_diff nat_add_left_cancel_le order.trans)
  from this [of _ "- 1"] this show ?thesis
    using assms off False find_bit_loop_ge [of addr "offset div 64 + 1" "sz - (offset - ?o) - 64" "offset - ?o + 64" r]
    by (auto simp: find_next_bit_def find_bit_first_def Let_def and.assoc split: if_splits)
qed

section \<open>The interface of a bit search\<close>

text \<open>
  What the callers of a search rely on: it returns the next set bit, or the size. Both
  implementations provide it.
\<close>

locale bit_search =
  fixes search :: "u64 list \<Rightarrow> nat \<Rightarrow> nat \<Rightarrow> nat res"
  assumes search_next: "sz \<le> 64 * length addr \<Longrightarrow> offset \<le> sz \<Longrightarrow>
    \<exists>r. search addr sz offset = Inr r \<and> next_in (bm_test addr) sz offset r"
begin

lemma search_iff:
  assumes "sz \<le> 64 * length addr" "offset \<le> sz"
  shows "search addr sz offset = Inr r \<longleftrightarrow> next_in (bm_test addr) sz offset r"
proof -
  have "r = r'" if "next_in P sz offset r" "next_in P sz offset r'" for P r r'
    using that by (auto simp: next_in_def) (metis le_less_trans linorder_neqE_nat order_less_le_trans)
  then show ?thesis using search_next [OF assms] by auto
qed

text \<open>One step of a loop over the set bits of a word.\<close>

lemma search_split:
  assumes "sz \<le> 64" "b \<le> sz"
  shows "\<exists>r. search [m] sz b = Inr r \<and> b \<le> r \<and> r \<le> sz \<and>
    filter (bit m) [b..<sz] = (if r < sz then r # filter (bit m) [Suc r..<sz] else [])"
proof -
  obtain r where r: "search [m] sz b = Inr r" "next_in (bm_test [m]) sz b r"
    using search_next [of sz "[m]" b] assms by auto
  then have n: "b \<le> r" "r \<le> sz" "r < sz \<Longrightarrow> bit m r" "\<And>j. b \<le> j \<Longrightarrow> j < r \<Longrightarrow> \<not> bit m j"
    using assms by (auto simp: next_in_def bm_test_def)
  have "[b..<sz] = [b..<r] @ [r..<sz]" using n(1,2) upt_add_eq_append [of b r "sz - r"] by simp
  moreover have "filter (bit m) [b..<r] = []" using n(4) by (simp add: filter_empty_conv)
  ultimately show ?thesis using r(1) n by (simp add: upt_conv_Cons)
qed

end

interpretation lib_search: bit_search find_next_set_bit
  by unfold_locales (rule find_next_set_bit_next)

interpretation sbi_search: bit_search find_next_bit
  by unfold_locales (simp add: find_next_bit_eq find_next_set_bit_next)

section \<open>Properties\<close>

lemma test_bit_sbi_eq: "test_bit_sbi = test_bit"
  by (simp add: fun_eq_iff test_bit_sbi_def test_bit_def BITOP_WORD_def)

lemma change_bit_ok:
  assumes "nr < 64 * length addr"
  shows "\<exists>addr'. change_bit nr addr = Inr addr' \<and> length addr' = length addr \<and>
    bm_test addr' = (bm_test addr)(nr := \<not> bm_test addr nr)"
proof -
  have p: "nr div 64 < length addr" using assms by (simp add: less_mult_imp_div_less mult.commute)
  have x: "x < 64 * length addr" if "x div 64 = nr div 64" for x
    using p by (metis that less_mult_imp_div_less div_less_iff_less_mult mult.commute zero_less_numeral)
  have m: "bit (push_bit (nr mod 64) 1 :: u64) i \<longleftrightarrow> i = nr mod 64" for i
    using bit_mask_unit [of nr i] by (simp add: BITOP_MASK_def)
  show ?thesis using p assms x
    by (auto simp: change_bit_def fun_eq_iff bm_test_def nth_list_update bit_xor_iff m [simplified] div_mod_eq [of _ nr 64])
qed

text \<open>
  C25: The SBI bit routines agree with those of \<open>lib/bitops.c\<close>: the searches for the next and
  the first set or clear bit return the same for all arguments, faults included, and so does
  the test of a bit. \<open>find_last_bit\<close> returns the last set bit below \<open>sz\<close>, or \<open>sz\<close>, for every
  bitmap that holds \<open>sz\<close> bits, and \<open>__change_bit\<close> inverts one bit.
\<close>

theorem sbi_bitops_agree:
  "find_next_bit addr sz offset = find_next_set_bit addr sz offset \<and>
   find_next_zero_bit addr sz offset = find_next_clear_bit addr sz offset \<and>
   find_first_bit addr sz = find_next_set_bit addr sz 0 \<and>
   find_first_zero_bit addr sz = find_next_clear_bit addr sz 0 \<and>
   test_bit_sbi nr addr = test_bit nr addr \<and>
   (sz \<le> 64 * length addr \<longrightarrow> (\<exists>r. find_last_bit addr sz = Inr r \<and> last_in (bm_test addr) sz r)) \<and>
   (nr < 64 * length addr \<longrightarrow> (\<exists>addr'. change_bit nr addr = Inr addr' \<and> length addr' = length addr \<and>
      bm_test addr' = (bm_test addr)(nr := \<not> bm_test addr nr)))"
  using find_last_bit_last [of sz addr] change_bit_ok [of nr addr]
  by (simp add: find_next_bit_eq find_next_zero_bit_eq find_first_bit_next find_first_zero_bit_next test_bit_sbi_eq)

theorem sbi_bitops_agree_witness:
  "(\<exists>r. find_last_bit [0xF, 5] 66 = Inr r \<and> last_in (bm_test [0xF, 5]) 66 r) \<and>
   (\<exists>addr'. change_bit 66 [0xF, 5] = Inr addr' \<and> bm_test addr' 66 = False)"
proof -
  have t: "bm_test [0xF, 5] 66" by code_simp
  from sbi_bitops_agree [of "[0xF, 5]" 66 0 66] obtain a where
    a: "change_bit 66 [0xF, 5] = Inr a" "bm_test a = (bm_test [0xF, 5])(66 := \<not> bm_test [0xF, 5] 66)"
    and l: "\<exists>r. find_last_bit [0xF, 5] 66 = Inr r \<and> last_in (bm_test [0xF, 5]) 66 r" by auto
  from a t have "bm_test a 66 = False" by simp
  with a(1) l show ?thesis by blast
qed

end
