(* ===== verification/Sbi_Pmu.thy ===== *)
theory Sbi_Pmu
  imports Riscv Sbi_Bitops Sbi_Hsm
begin

text \<open>
  The performance monitoring unit of \<open>arch/riscv/sbi/sbi_pmu.c\<close>: the table of hardware
  events, the mapping of counters to events and the firmware counters of one hart, with the
  operations the supervisor reaches through the PMU extension
  (\<open>arch/riscv/sbi/sbi_ecall_pmu.c\<close>). The rows \<open>active_events[hartid]\<close> and
  \<open>fw_event_map[hartid]\<close> of the current hart are lists; an access outside a row is \<open>Oob\<close>,
  the panic of \<open>csr_read_num\<close> and \<open>csr_write_num\<close> on an unknown register is \<open>Bug\<close>.
  Configuration: 64-bit hart.
\<close>

unbundle bit_operations_syntax

section \<open>Model\<close>

definition SBI_PMU_HW_EVENT_MAX :: nat where "SBI_PMU_HW_EVENT_MAX = 256"
definition SBI_PMU_FW_EVENT_MAX :: nat where "SBI_PMU_FW_EVENT_MAX = 32"
definition SBI_PMU_FW_CTR_MAX :: nat where "SBI_PMU_FW_CTR_MAX = 16"
definition SBI_PMU_HW_CTR_MAX :: nat where "SBI_PMU_HW_CTR_MAX = 32"
definition SBI_PMU_FIXED_CTR_MASK :: u32 where "SBI_PMU_FIXED_CTR_MASK = 0x07"
definition SBI_PMU_FW_MAX :: nat where "SBI_PMU_FW_MAX = 22"
definition SBI_PMU_EVENT_IDX_INVALID :: u32 where "SBI_PMU_EVENT_IDX_INVALID = 0xFFFFFFFF"
definition SBI_PMU_EVENT_RAW_IDX :: u32 where "SBI_PMU_EVENT_RAW_IDX = 0x20000"
definition SBI_PMU_EVENT_TYPE_HW :: u32 where "SBI_PMU_EVENT_TYPE_HW = 0"
definition SBI_PMU_EVENT_TYPE_FW :: u32 where "SBI_PMU_EVENT_TYPE_FW = 0xf"
definition SBI_PMU_EVENT_TYPE_MAX :: u32 where "SBI_PMU_EVENT_TYPE_MAX = 0x10"
definition SBI_PMU_HW_CPU_CYCLES :: u32 where "SBI_PMU_HW_CPU_CYCLES = 1"
definition SBI_PMU_HW_INSTRUCTIONS :: u32 where "SBI_PMU_HW_INSTRUCTIONS = 2"

lemmas pmu_consts = SBI_PMU_HW_EVENT_MAX_def SBI_PMU_FW_EVENT_MAX_def SBI_PMU_FW_CTR_MAX_def
  SBI_PMU_HW_CTR_MAX_def SBI_PMU_FIXED_CTR_MASK_def SBI_PMU_FW_MAX_def SBI_PMU_EVENT_IDX_INVALID_def
  SBI_PMU_EVENT_RAW_IDX_def SBI_PMU_EVENT_TYPE_HW_def SBI_PMU_EVENT_TYPE_FW_def
  SBI_PMU_EVENT_TYPE_MAX_def SBI_PMU_HW_CPU_CYCLES_def SBI_PMU_HW_INSTRUCTIONS_def

definition SBI_EFAIL :: int where "SBI_EFAIL = - 1"
definition SBI_EALREADY_STOPPED :: int where "SBI_EALREADY_STOPPED = - 8"

definition SBI_HART_PRIV_VER_1_10 :: nat where "SBI_HART_PRIV_VER_1_10 = 1"
definition SBI_HART_PRIV_VER_1_11 :: nat where "SBI_HART_PRIV_VER_1_11 = 2"
definition SBI_HART_EXT_SSCOFPMF :: nat where "SBI_HART_EXT_SSCOFPMF = 3"

text \<open>What the boot code has found out about the hart.\<close>

record sbi_hart_features =
  priv_version :: nat
  extensions :: u64
  mhpm_count :: nat
  mhpm_bits :: nat

definition sbi_hart_has_extension :: "sbi_hart_features \<Rightarrow> nat \<Rightarrow> bool" where
  "sbi_hart_has_extension hf ext = (extensions hf AND push_bit ext 1 \<noteq> 0)"

record sbi_pmu_hw_event =
  hw_counters :: u32
  start_idx :: u32
  end_idx :: u32
  select :: u64
  select_mask :: u64

record sbi_pmu_fw_event =
  curr_count :: u64
  bStarted :: bool

record pmu =
  hw_event_map :: "sbi_pmu_hw_event list"
  active_events :: "u32 list"
  fw_event_map :: "sbi_pmu_fw_event list"
  num_hw_events :: nat
  num_hw_ctrs :: nat
  total_ctrs :: nat

definition get_cidx_type :: "'a::len word \<Rightarrow> 'a word" where
  "get_cidx_type x = drop_bit 16 (x AND push_bit 16 0xF)"

definition get_cidx_code :: "'a::len word \<Rightarrow> 'a word" where
  "get_cidx_code x = x AND 0xFFFF"

definition pmu_event_range_overlap :: "sbi_pmu_hw_event \<Rightarrow> sbi_pmu_hw_event \<Rightarrow> bool" where
  "pmu_event_range_overlap evtA evtB =
     (if (end_idx evtA < start_idx evtB \<and> end_idx evtA < end_idx evtB) \<or>
         (start_idx evtA > start_idx evtB \<and> start_idx evtA > end_idx evtB)
      then False else True)"

definition pmu_event_select_overlap :: "sbi_pmu_hw_event \<Rightarrow> u64 \<Rightarrow> u64 \<Rightarrow> bool" where
  "pmu_event_select_overlap evt select_val sel_mask =
     (if select evt = select_val \<and> select_mask evt = sel_mask then True else False)"

text \<open>
  The type of the event a counter is assigned to and the event code, or an error. The entry is
  read before the counter number is compared with \<open>total_ctrs\<close>.
\<close>

definition pmu_ctr_validate :: "pmu \<Rightarrow> nat \<Rightarrow> (int \<times> u32) res" where
  "pmu_ctr_validate p cidx =
     (if cidx < length (active_events p)
      then let event_idx_val = active_events p ! cidx
           in if cidx \<ge> total_ctrs p \<or> event_idx_val = SBI_PMU_EVENT_IDX_INVALID
              then Inr (SBI_EINVAL, 0)
              else if get_cidx_type event_idx_val \<ge> SBI_PMU_EVENT_TYPE_MAX then Inr (SBI_EINVAL, 0)
              else Inr (uint (get_cidx_type event_idx_val), get_cidx_code event_idx_val)
      else Inl Oob)"

definition pmu_ctr_read_fw :: "pmu \<Rightarrow> u32 \<Rightarrow> u64 res" where
  "pmu_ctr_read_fw p code =
     (if unat code < length (fw_event_map p) then Inr (curr_count (fw_event_map p ! unat code)) else Inl Oob)"

definition pmu_ctr_read_hw :: "nat \<Rightarrow> csrs \<Rightarrow> (int \<times> u64 option) res" where
  "pmu_ctr_read_hw cidx c =
     (if cidx = 1 then Inr (SBI_EINVAL, None)
      else bindR (csr_read_num (CSR_MCYCLE + cidx) c) (\<lambda>v. Inr (0, Some v)))"

text \<open>
  \<open>sbi_pmu_ctr_read\<close> returns its code and the value of \<open>*cval\<close> afterwards. What
  \<open>pmu_ctr_read_hw\<close> stores in the local \<open>cval64\<close> is not passed on.
\<close>

definition sbi_pmu_ctr_read :: "nat \<Rightarrow> u64 \<Rightarrow> pmu \<Rightarrow> csrs \<Rightarrow> (int \<times> u64) res" where
  "sbi_pmu_ctr_read cidx cval p c =
     bindR (pmu_ctr_validate p cidx) (\<lambda>(ty, code).
       if ty < 0 then Inr (SBI_EINVAL, cval)
       else if ty = uint SBI_PMU_EVENT_TYPE_FW then bindR (pmu_ctr_read_fw p code) (\<lambda>v. Inr (0, v))
       else bindR (pmu_ctr_read_hw cidx c) (\<lambda>(_, cval64). Inr (0, cval)))"

text \<open>The check loop of \<open>pmu_add_hw_event_map\<close> over the first \<open>num_hw_events\<close> entries.\<close>

definition pmu_add_hw_event_map :: "sbi_hart_features \<Rightarrow> u32 \<Rightarrow> u32 \<Rightarrow> u32 \<Rightarrow> u64 \<Rightarrow> u64 \<Rightarrow> pmu \<Rightarrow> (int \<times> pmu) res" where
  "pmu_add_hw_event_map hf eidx_start eidx_end cmap sel sel_mask p =
     (let n = num_hw_events p;
          ctr_avail_mask = drop_bit (32 - (mhpm_count hf + 3)) (- 1 :: u32)
      in if eidx_start > SBI_PMU_HW_INSTRUCTIONS \<and> cmap AND SBI_PMU_FIXED_CTR_MASK \<noteq> 0
         then Inr (SBI_ERR_DENIED, p)
         else if n \<ge> SBI_PMU_HW_EVENT_MAX - 1 then Inr (SBI_EFAIL, p)
         else if \<not> n < length (hw_event_map p) then Inl Oob
         else
           let event = (hw_event_map p ! n)\<lparr>start_idx := eidx_start, end_idx := eidx_end\<rparr>;
               is_overlap = (\<lambda>e. if eidx_start = SBI_PMU_EVENT_RAW_IDX
                                  then pmu_event_select_overlap e sel sel_mask
                                  else pmu_event_range_overlap e event)
           in if list_ex is_overlap (take n (hw_event_map p))
              then Inr (SBI_EINVAL, p\<lparr>hw_event_map := (hw_event_map p)[n := event\<lparr>start_idx := 0, end_idx := 0\<rparr>]\<rparr>)
              else let event = event\<lparr>select_mask := sel_mask, hw_counters := cmap AND ctr_avail_mask, select := sel\<rparr>
                   in Inr (0, p\<lparr>hw_event_map := (hw_event_map p)[n := event], num_hw_events := n + 1\<rparr>))"

definition sbi_pmu_add_hw_event_counter_map :: "sbi_hart_features \<Rightarrow> u32 \<Rightarrow> u32 \<Rightarrow> u32 \<Rightarrow> pmu \<Rightarrow> (int \<times> pmu) res" where
  "sbi_pmu_add_hw_event_counter_map hf eidx_start eidx_end cmap p =
     (if eidx_start > eidx_end \<or> eidx_start = SBI_PMU_EVENT_RAW_IDX \<or> eidx_end = SBI_PMU_EVENT_RAW_IDX
      then Inr (SBI_EINVAL, p)
      else pmu_add_hw_event_map hf eidx_start eidx_end cmap 0 0 p)"

definition sbi_pmu_add_raw_event_counter_map :: "sbi_hart_features \<Rightarrow> u64 \<Rightarrow> u64 \<Rightarrow> u32 \<Rightarrow> pmu \<Rightarrow> (int \<times> pmu) res" where
  "sbi_pmu_add_raw_event_counter_map hf sel sel_mask cmap p =
     pmu_add_hw_event_map hf SBI_PMU_EVENT_RAW_IDX SBI_PMU_EVENT_RAW_IDX cmap sel sel_mask p"

subsection \<open>Starting and stopping counters\<close>

definition MIP_LCOFIP :: u64 where "MIP_LCOFIP = push_bit 13 1"
definition MHPMEVENT_OF :: u64 where "MHPMEVENT_OF = push_bit 63 1"
definition MHPMEVENT_MINH :: u64 where "MHPMEVENT_MINH = push_bit 62 1"
definition MHPMEVENT_SINH :: u64 where "MHPMEVENT_SINH = push_bit 61 1"
definition MHPMEVENT_UINH :: u64 where "MHPMEVENT_UINH = push_bit 60 1"
definition MHPMEVENT_VSINH :: u64 where "MHPMEVENT_VSINH = push_bit 59 1"
definition MHPMEVENT_VUINH :: u64 where "MHPMEVENT_VUINH = push_bit 58 1"
definition MHPMEVENT_SSCOF_MASK :: u64 where "MHPMEVENT_SSCOF_MASK = 0xFFFF000000000000"

definition pmu_ctr_enable_irq_hw :: "nat \<Rightarrow> csrs \<Rightarrow> (int \<times> csrs) res" where
  "pmu_ctr_enable_irq_hw ctr_idx c =
     (if ctr_idx < 3 \<or> ctr_idx \<ge> SBI_PMU_HW_CTR_MAX then Inr (SBI_EFAIL, c)
      else let mhpmevent_csr = CSR_MHPMEVENT 3 + ctr_idx - 3
           in bindR (csr_read_num mhpmevent_csr c) (\<lambda>mhpmevent_curr.
                if c CSR_MIP AND MIP_LCOFIP = 0
                then bindR (csr_write_num mhpmevent_csr (mhpmevent_curr AND NOT MHPMEVENT_OF) c) (\<lambda>c. Inr (0, c))
                else Inr (0, c)))"

definition pmu_ctr_write_hw :: "nat \<Rightarrow> u64 \<Rightarrow> csrs \<Rightarrow> csrs res" where
  "pmu_ctr_write_hw cidx ival c = csr_write_num (CSR_MCYCLE + cidx) ival c"

text \<open>The part of \<open>pmu_ctr_start_hw\<close> from the label \<open>skip_inhibit_update\<close> on.\<close>

definition skip_inhibit_update :: "nat \<Rightarrow> u64 \<Rightarrow> bool \<Rightarrow> csrs \<Rightarrow> (int \<times> csrs) res" where
  "skip_inhibit_update cidx ival ival_update c =
     bindR (if ival_update then pmu_ctr_write_hw cidx ival c else Inr c) (\<lambda>c. Inr (0, c))"

definition pmu_ctr_start_hw :: "sbi_hart_features \<Rightarrow> nat \<Rightarrow> u64 \<Rightarrow> bool \<Rightarrow> pmu \<Rightarrow> csrs \<Rightarrow> (int \<times> csrs) res" where
  "pmu_ctr_start_hw hf cidx ival ival_update p c =
     (if cidx \<ge> num_hw_ctrs p \<or> cidx = 1 then Inr (SBI_EINVAL, c)
      else if priv_version hf < SBI_HART_PRIV_VER_1_11 then skip_inhibit_update cidx ival ival_update c
      else
        let mctr_inhbt = c CSR_MCOUNTINHIBIT
        in if \<not> bit mctr_inhbt cidx then Inr (SBI_EALREADY_STARTED, c)
           else
             let mctr_inhbt = mctr_inhbt AND NOT (push_bit cidx 1)
             in bindR (if sbi_hart_has_extension hf SBI_HART_EXT_SSCOFPMF
                       then pmu_ctr_enable_irq_hw cidx c else Inr (0, c))
                  (\<lambda>(_, c). skip_inhibit_update cidx ival ival_update (c(CSR_MCOUNTINHIBIT := mctr_inhbt))))"

definition pmu_ctr_start_fw :: "u32 \<Rightarrow> u64 \<Rightarrow> bool \<Rightarrow> pmu \<Rightarrow> (int \<times> pmu) res" where
  "pmu_ctr_start_fw fw_evt_code ival ival_update p =
     (if unat fw_evt_code < length (fw_event_map p)
      then let fevent = fw_event_map p ! unat fw_evt_code;
               fevent = (if ival_update then fevent\<lparr>curr_count := ival\<rparr> else fevent)
           in Inr (0, p\<lparr>fw_event_map := (fw_event_map p)[unat fw_evt_code := fevent\<lparr>bStarted := True\<rparr>]\<rparr>)
      else Inl Oob)"

text \<open>
  \<open>for_each_set_bit_from(bit, &mask, size)\<close>: the body runs for each set bit from \<open>b\<close> on. The
  result is the state and the value the loop variable ends with.
\<close>

function for_each_set_bit_from :: "(nat \<Rightarrow> 's \<Rightarrow> 's res) \<Rightarrow> u64 \<Rightarrow> nat \<Rightarrow> nat \<Rightarrow> 's \<Rightarrow> (nat \<times> 's) res" where
  "for_each_set_bit_from f m sz b s =
     (case find_next_bit [m] sz b of
        Inl e \<Rightarrow> Inl e
      | Inr b' \<Rightarrow> if b' < sz
          then (case f b' s of Inl e \<Rightarrow> Inl e | Inr s' \<Rightarrow> for_each_set_bit_from f m sz (b' + 1) s')
          else Inr (b', s))"
  by pat_completeness auto
termination
proof (relation "measure (\<lambda>(f, m, sz, b, s). sz - b)", goal_cases)
  case (2 f m sz b s b' s')
  have "b < sz" using 2 by (cases "b < sz") (simp_all add: find_next_bit_def)
  with 2 show ?case using find_next_bit_ge [of "[m]" sz b b'] by simp
qed simp

declare for_each_set_bit_from.simps [simp del]

text \<open>A shift by a register takes its amount modulo 64 on the processor.\<close>

definition sll :: "u64 \<Rightarrow> u64 \<Rightarrow> u64" where
  "sll x n = push_bit (unat n mod 64) x"

text \<open>The loop body of \<open>sbi_pmu_ctr_start\<close> on the code to return, the tables and the registers.\<close>

definition pmu_start_body ::
  "sbi_hart_features \<Rightarrow> u64 \<Rightarrow> bool \<Rightarrow> nat \<Rightarrow> int \<times> pmu \<times> csrs \<Rightarrow> (int \<times> pmu \<times> csrs) res" where
  "pmu_start_body hf ival bUpdate b = (\<lambda>(ret, p, c).
     bindR (pmu_ctr_validate p b) (\<lambda>(ty, code).
       if ty < 0 then Inr (ret, p, c)
       else if ty = uint SBI_PMU_EVENT_TYPE_FW
       then bindR (pmu_ctr_start_fw code ival bUpdate p) (\<lambda>(ret, p). Inr (ret, p, c))
       else bindR (pmu_ctr_start_hw hf b ival bUpdate p c) (\<lambda>(ret, c). Inr (ret, p, c))))"

definition sbi_pmu_ctr_start :: "sbi_hart_features \<Rightarrow> u64 \<Rightarrow> u64 \<Rightarrow> u64 \<Rightarrow> u64 \<Rightarrow> pmu \<times> csrs \<Rightarrow> (int \<times> pmu \<times> csrs) res" where
  "sbi_pmu_ctr_start hf cbase cmask flags ival = (\<lambda>(p, c).
     (let ctr_mask = sll cmask cbase
      in if sbi_fls ctr_mask \<ge> total_ctrs p then Inr (SBI_EINVAL, p, c)
         else let bUpdate = (flags AND 1 \<noteq> 0)
              in bindR (for_each_set_bit_from (pmu_start_body hf ival bUpdate) ctr_mask (total_ctrs p) (unat cbase)
                          (SBI_EINVAL, p, c))
                   (\<lambda>(_, st). Inr st)))"

definition pmu_ctr_stop_hw :: "sbi_hart_features \<Rightarrow> nat \<Rightarrow> pmu \<Rightarrow> csrs \<Rightarrow> int \<times> csrs" where
  "pmu_ctr_stop_hw hf cidx p c =
     (if priv_version hf < SBI_HART_PRIV_VER_1_11 then (0, c)
      else
        let mctr_inhbt = c CSR_MCOUNTINHIBIT
        in if cidx \<ge> num_hw_ctrs p \<or> cidx = 1 then (SBI_EINVAL, c)
           else if \<not> bit mctr_inhbt cidx then (0, c(CSR_MCOUNTINHIBIT := mctr_inhbt OR push_bit cidx 1))
           else (SBI_EALREADY_STOPPED, c))"

definition pmu_ctr_stop_fw :: "u32 \<Rightarrow> pmu \<Rightarrow> (int \<times> pmu) res" where
  "pmu_ctr_stop_fw fw_evt_code p =
     (if unat fw_evt_code < length (fw_event_map p)
      then let fevent = fw_event_map p ! unat fw_evt_code
           in Inr (0, p\<lparr>fw_event_map := (fw_event_map p)[unat fw_evt_code := fevent\<lparr>bStarted := False\<rparr>]\<rparr>)
      else Inl Oob)"

definition pmu_reset_hw_mhpmevent :: "nat \<Rightarrow> csrs \<Rightarrow> (int \<times> csrs) res" where
  "pmu_reset_hw_mhpmevent ctr_idx c =
     (if ctr_idx < 3 \<or> ctr_idx \<ge> SBI_PMU_HW_CTR_MAX then Inr (SBI_EFAIL, c)
      else bindR (csr_write_num (CSR_MHPMEVENT 3 + ctr_idx - 3) 0 c) (\<lambda>c. Inr (0, c)))"

definition pmu_stop_body ::
  "sbi_hart_features \<Rightarrow> u64 \<Rightarrow> nat \<Rightarrow> int \<times> pmu \<times> csrs \<Rightarrow> (int \<times> pmu \<times> csrs) res" where
  "pmu_stop_body hf flag b = (\<lambda>(ret, p, c).
     bindR (pmu_ctr_validate p b) (\<lambda>(ty, code).
       if ty < 0 then Inr (ret, p, c)
       else bindR (if ty = uint SBI_PMU_EVENT_TYPE_FW
                   then bindR (pmu_ctr_stop_fw code p) (\<lambda>(ret, p). Inr (ret, p, c))
                   else let (ret, c) = pmu_ctr_stop_hw hf b p c in Inr (ret, p, c))
         (\<lambda>(ret, p, c).
           if flag AND 1 \<noteq> 0
           then let p = p\<lparr>active_events := (active_events p)[b := SBI_PMU_EVENT_IDX_INVALID]\<rparr>
                in bindR (pmu_reset_hw_mhpmevent b c) (\<lambda>(_, c). Inr (ret, p, c))
           else Inr (ret, p, c))))"

definition sbi_pmu_ctr_stop :: "sbi_hart_features \<Rightarrow> u64 \<Rightarrow> u64 \<Rightarrow> u64 \<Rightarrow> pmu \<times> csrs \<Rightarrow> (int \<times> pmu \<times> csrs) res" where
  "sbi_pmu_ctr_stop hf cbase cmask flag = (\<lambda>(p, c).
     (let ctr_mask = sll cmask cbase
      in if sbi_fls ctr_mask \<ge> total_ctrs p then Inr (SBI_EINVAL, p, c)
         else bindR (for_each_set_bit_from (pmu_stop_body hf flag) ctr_mask (total_ctrs p) (unat cbase)
                       (SBI_EINVAL, p, c))
                (\<lambda>(_, st). Inr st)))"

subsection \<open>Choosing a counter for an event\<close>

definition pmu_update_inhibit_flags :: "u64 \<Rightarrow> u64 \<Rightarrow> u64" where
  "pmu_update_inhibit_flags flags v =
     (let v = (if flags AND 0x8 \<noteq> 0 then v OR MHPMEVENT_VUINH else v);
          v = (if flags AND 0x10 \<noteq> 0 then v OR MHPMEVENT_VSINH else v);
          v = (if flags AND 0x20 \<noteq> 0 then v OR MHPMEVENT_UINH else v)
      in if flags AND 0x40 \<noteq> 0 then v OR MHPMEVENT_SINH else v)"

text \<open>\<open>xlate\<close> is the platform's \<open>pmu_xlate_to_mhpmevent\<close>.\<close>

definition pmu_update_hw_mhpmevent ::
  "(u32 \<Rightarrow> u64 \<Rightarrow> u64) \<Rightarrow> sbi_hart_features \<Rightarrow> int \<Rightarrow> u64 \<Rightarrow> u64 \<Rightarrow> u64 \<Rightarrow> csrs \<Rightarrow> (int \<times> csrs) res" where
  "pmu_update_hw_mhpmevent xlate hf ctr_idx flags eindex data c =
     (let v = xlate (ucast eindex) data
      in if v = 0 \<or> ctr_idx < 3 \<or> ctr_idx \<ge> int SBI_PMU_HW_CTR_MAX then Inr (SBI_EFAIL, c)
         else
           let v = (if sbi_hart_has_extension hf SBI_HART_EXT_SSCOFPMF
                    then (v AND NOT MHPMEVENT_SSCOF_MASK) OR MHPMEVENT_MINH OR MHPMEVENT_OF else v);
               v = pmu_update_inhibit_flags flags v
           in bindR (csr_write_num (CSR_MHPMEVENT 3 + nat ctr_idx - 3) v c) (\<lambda>c. Inr (0, c)))"

definition pmu_ctr_find_fixed_fw :: "u64 \<Rightarrow> int" where
  "pmu_ctr_find_fixed_fw evt_idx_code =
     (if evt_idx_code = ucast SBI_PMU_HW_CPU_CYCLES then 0
      else if evt_idx_code = ucast SBI_PMU_HW_INSTRUCTIONS then 2 else SBI_EINVAL)"

text \<open>
  The search loop of \<open>pmu_ctr_find_hw\<close> over the event table. The inner loop runs on the
  parameter \<open>cbase\<close> itself, which keeps its last value for the next table entry.
\<close>

definition find_hw_skip :: "sbi_pmu_hw_event \<Rightarrow> u64 \<Rightarrow> u64 \<Rightarrow> bool" where
  "find_hw_skip temp event_idx data =
     ((ucast (start_idx temp) > event_idx \<and> event_idx < ucast (end_idx temp)) \<or>
      (ucast (start_idx temp) < event_idx \<and> event_idx > ucast (end_idx temp)) \<or>
      (event_idx = ucast SBI_PMU_EVENT_RAW_IDX \<and> select temp \<noteq> data AND select_mask temp))"

definition find_hw_body :: "sbi_hart_features \<Rightarrow> u64 \<Rightarrow> pmu \<Rightarrow> nat \<Rightarrow> int \<Rightarrow> int res" where
  "find_hw_body hf mctr_inhbt p b ctr_idx =
     (if \<not> b < length (active_events p) then Inl Oob
      else if active_events p ! b \<noteq> SBI_PMU_EVENT_IDX_INVALID then Inr ctr_idx
      else if priv_version hf \<ge> SBI_HART_PRIV_VER_1_11 \<and> \<not> bit mctr_inhbt b then Inr ctr_idx
      else Inr (int b))"

fun find_hw_loop ::
  "sbi_hart_features \<Rightarrow> u64 \<Rightarrow> u64 \<Rightarrow> u64 \<Rightarrow> u64 \<Rightarrow> pmu \<Rightarrow> sbi_pmu_hw_event list \<Rightarrow> nat \<Rightarrow> int \<Rightarrow> int res" where
  "find_hw_loop hf mctr_inhbt cmask event_idx data p [] cbase ctr_idx = Inr ctr_idx"
| "find_hw_loop hf mctr_inhbt cmask event_idx data p (temp # evs) cbase ctr_idx =
     (if find_hw_skip temp event_idx data
      then find_hw_loop hf mctr_inhbt cmask event_idx data p evs cbase ctr_idx
      else bindR (for_each_set_bit_from (find_hw_body hf mctr_inhbt p)
                    (ucast (hw_counters temp) AND sll cmask (of_nat cbase) AND NOT 7) SBI_PMU_HW_CTR_MAX cbase ctr_idx)
             (\<lambda>(cbase, ctr_idx). find_hw_loop hf mctr_inhbt cmask event_idx data p evs cbase ctr_idx))"

definition pmu_ctr_find_hw ::
  "(u32 \<Rightarrow> u64 \<Rightarrow> u64) \<Rightarrow> sbi_hart_features \<Rightarrow> u64 \<Rightarrow> u64 \<Rightarrow> u64 \<Rightarrow> u64 \<Rightarrow> u64 \<Rightarrow> pmu \<Rightarrow> csrs \<Rightarrow> (int \<times> csrs) res" where
  "pmu_ctr_find_hw xlate hf cbase cmask flags event_idx data p c =
     (if unat cbase \<ge> num_hw_ctrs p then Inr (SBI_EINVAL, c)
      else
        let fixed_ctr = pmu_ctr_find_fixed_fw event_idx
        in if fixed_ctr \<ge> 0 \<and> \<not> sbi_hart_has_extension hf SBI_HART_EXT_SSCOFPMF then Inr (fixed_ctr, c)
           else
             let mctr_inhbt = (if priv_version hf \<ge> SBI_HART_PRIV_VER_1_11 then c CSR_MCOUNTINHIBIT else 0)
             in if num_hw_events p > length (hw_event_map p) then Inl Oob
                else bindR (find_hw_loop hf mctr_inhbt cmask event_idx data p
                              (take (num_hw_events p) (hw_event_map p)) (unat cbase) SBI_ENOTSUPP)
                  (\<lambda>ctr_idx.
                    if ctr_idx = SBI_ENOTSUPP
                    then if fixed_ctr \<ge> 0 then Inr (fixed_ctr, c) else Inr (SBI_EFAIL, c)
                    else bindR (pmu_update_hw_mhpmevent xlate hf ctr_idx flags event_idx data c)
                           (\<lambda>(ret, c). Inr (if ret = 0 then ctr_idx else ret, c))))"

fun find_fw_loop :: "u64 \<Rightarrow> pmu \<Rightarrow> nat list \<Rightarrow> int res" where
  "find_fw_loop ctr_mask p [] = Inr SBI_ENOTSUPP"
| "find_fw_loop ctr_mask p (i # is) =
     (if \<not> i < length (active_events p) then Inl Oob
      else if active_events p ! i = SBI_PMU_EVENT_IDX_INVALID \<and> push_bit i 1 AND ctr_mask \<noteq> 0 then Inr (int i)
      else find_fw_loop ctr_mask p is)"

text \<open>\<open>fw_base\<close> is an \<open>int\<close>, which keeps the low 32 bits of \<open>cbase\<close>.\<close>

definition pmu_ctr_find_fw :: "u64 \<Rightarrow> u64 \<Rightarrow> pmu \<Rightarrow> int res" where
  "pmu_ctr_find_fw cbase cmask p =
     (let fw_base = (if unat cbase < num_hw_ctrs p then num_hw_ctrs p else unat (ucast cbase :: u32))
      in find_fw_loop (sll cmask cbase) p [fw_base..<total_ctrs p])"

text \<open>The part of \<open>sbi_pmu_ctr_cfg_match\<close> from the label \<open>skip_match\<close> on.\<close>

definition cfg_skip_match ::
  "sbi_hart_features \<Rightarrow> u64 \<Rightarrow> u64 \<Rightarrow> int \<Rightarrow> pmu \<times> csrs \<Rightarrow> (int \<times> pmu \<times> csrs) res" where
  "cfg_skip_match hf flags event_idx ctr_idx = (\<lambda>(p, c).
     (let event_type = get_cidx_type event_idx
      in if event_type = ucast SBI_PMU_EVENT_TYPE_HW
         then bindR (if flags AND 2 \<noteq> 0 then pmu_ctr_write_hw (nat ctr_idx) 0 c else Inr c) (\<lambda>c.
              bindR (if flags AND 4 \<noteq> 0 then pmu_ctr_start_hw hf (nat ctr_idx) 0 False p c else Inr (0, c)) (\<lambda>(_, c).
                Inr (ctr_idx, p, c)))
         else if event_type = ucast SBI_PMU_EVENT_TYPE_FW
         then let code = unat (get_cidx_code event_idx)
              in if flags AND 6 = 0 then Inr (ctr_idx, p, c)
                 else if \<not> code < length (fw_event_map p) then Inl Oob
                 else
                   let fevent = fw_event_map p ! code;
                       fevent = (if flags AND 2 \<noteq> 0 then fevent\<lparr>curr_count := 0\<rparr> else fevent);
                       fevent = (if flags AND 4 \<noteq> 0 then fevent\<lparr>bStarted := True\<rparr> else fevent)
                   in Inr (ctr_idx, p\<lparr>fw_event_map := (fw_event_map p)[code := fevent]\<rparr>, c)
         else Inr (ctr_idx, p, c)))"

definition sbi_pmu_ctr_cfg_match ::
  "(u32 \<Rightarrow> u64 \<Rightarrow> u64) \<Rightarrow> sbi_hart_features \<Rightarrow> u64 \<Rightarrow> u64 \<Rightarrow> u64 \<Rightarrow> u64 \<Rightarrow> u64 \<Rightarrow> pmu \<times> csrs \<Rightarrow> (int \<times> pmu \<times> csrs) res" where
  "sbi_pmu_ctr_cfg_match xlate hf cidx_base cidx_mask flags event_idx event_data = (\<lambda>(p, c).
     (let event_type = get_cidx_type event_idx; tmp = sll cidx_mask cidx_base
      in if sbi_fls tmp \<ge> total_ctrs p \<or> event_type \<ge> ucast SBI_PMU_EVENT_TYPE_MAX then Inr (SBI_EINVAL, p, c)
         else if flags AND 1 \<noteq> 0
         then if \<not> unat cidx_base < length (active_events p) then Inl Oob
              else if active_events p ! unat cidx_base = SBI_PMU_EVENT_IDX_INVALID then Inr (SBI_EINVAL, p, c)
              else cfg_skip_match hf flags event_idx (int (unat cidx_base)) (p, c)
         else
           bindR (if event_type = ucast SBI_PMU_EVENT_TYPE_FW
                  then bindR (pmu_ctr_find_fw cidx_base cidx_mask p) (\<lambda>i. Inr (i, c))
                  else pmu_ctr_find_hw xlate hf cidx_base cidx_mask flags event_idx event_data p c)
             (\<lambda>(ctr_idx, c).
               if ctr_idx < 0 then Inr (SBI_ENOTSUPP, p, c)
               else if \<not> nat ctr_idx < length (active_events p) then Inl Oob
               else cfg_skip_match hf flags event_idx ctr_idx
                      (p\<lparr>active_events := (active_events p)[nat ctr_idx := ucast event_idx]\<rparr>, c))))"

subsection \<open>Firmware events, information, reset\<close>

definition sbi_pmu_ctr_incr_fw :: "nat \<Rightarrow> pmu \<Rightarrow> int \<times> pmu" where
  "sbi_pmu_ctr_incr_fw fw_id p =
     (if fw_id \<ge> SBI_PMU_FW_MAX then (SBI_EINVAL, p)
      else let fevent = fw_event_map p ! fw_id
           in (0, if bStarted fevent
                  then p\<lparr>fw_event_map := (fw_event_map p)[fw_id := fevent\<lparr>curr_count := curr_count fevent + 1\<rparr>]\<rparr>
                  else p))"

definition sbi_pmu_num_ctr :: "pmu \<Rightarrow> nat" where
  "sbi_pmu_num_ctr p = num_hw_ctrs p + SBI_PMU_FW_CTR_MAX"

text \<open>The counter description: \<open>csr\<close> in bits 0 to 11, \<open>width\<close> in 12 to 17, \<open>type\<close> in bit 63.\<close>

definition sbi_pmu_ctr_get_info :: "sbi_hart_features \<Rightarrow> nat \<Rightarrow> pmu \<Rightarrow> int \<times> u64 option" where
  "sbi_pmu_ctr_get_info hf cidx p =
     (if cidx \<ge> total_ctrs p \<or> cidx = 1 then (SBI_EINVAL, None)
      else if cidx < num_hw_ctrs p
      then let width = (if cidx = 0 \<or> cidx = 2 then 63 else of_nat (mhpm_bits hf) - 1)
           in (0, Some ((of_nat (CSR_CYCLE + cidx) AND 0xFFF) OR push_bit 12 (width AND 0x3F)))
      else (0, Some (push_bit 12 (64 - 1) OR push_bit 63 1)))"

definition pmu_reset_event_map :: "pmu \<Rightarrow> pmu" where
  "pmu_reset_event_map p =
     p\<lparr>active_events := fold (\<lambda>j a. a[j := SBI_PMU_EVENT_IDX_INVALID]) [3..<total_ctrs p] (active_events p),
       fw_event_map := fold (\<lambda>j a. a[j := \<lparr>curr_count = 0, bStarted = False\<rparr>]) [0..<SBI_PMU_FW_CTR_MAX] (fw_event_map p)\<rparr>"

definition sbi_pmu_exit :: "sbi_hart_features \<Rightarrow> pmu \<times> csrs \<Rightarrow> pmu \<times> csrs" where
  "sbi_pmu_exit hf = (\<lambda>(p, c).
     (let c = (if priv_version hf \<ge> SBI_HART_PRIV_VER_1_11 then c(CSR_MCOUNTINHIBIT := 0xFFFFFFF8) else c);
          c = (if priv_version hf \<ge> SBI_HART_PRIV_VER_1_10 then c(CSR_MCOUNTEREN := - 1) else c)
      in (pmu_reset_event_map p, c)))"

text \<open>\<open>plat_init\<close> is the platform's \<open>pmu_init\<close>, which adds hardware events.\<close>

definition sbi_pmu_init :: "(pmu \<Rightarrow> pmu) \<Rightarrow> sbi_hart_features \<Rightarrow> bool \<Rightarrow> pmu \<Rightarrow> pmu" where
  "sbi_pmu_init plat_init hf cold_boot p =
     (let p = (if cold_boot
               then let p = plat_init p; n = mhpm_count hf + 3
                    in p\<lparr>num_hw_ctrs := n, total_ctrs := n + SBI_PMU_FW_CTR_MAX\<rparr>
               else p);
          p = pmu_reset_event_map p
      in p\<lparr>active_events := (active_events p)
            [0 := push_bit 20 SBI_PMU_EVENT_TYPE_HW OR SBI_PMU_HW_CPU_CYCLES,
             1 := SBI_PMU_EVENT_IDX_INVALID,
             2 := push_bit 20 SBI_PMU_EVENT_TYPE_HW OR SBI_PMU_HW_INSTRUCTIONS]\<rparr>)"

subsection \<open>The PMU extension\<close>

text \<open>
  \<open>a\<close> is the list of the argument registers \<open>a0\<close> to \<open>a5\<close>; the result is the return code, the
  value of \<open>*out_val\<close> and the new state.
\<close>

definition sbi_ecall_pmu_handler ::
  "(u32 \<Rightarrow> u64 \<Rightarrow> u64) \<Rightarrow> sbi_hart_features \<Rightarrow> u64 \<Rightarrow> u64 list \<Rightarrow> u64 \<Rightarrow> pmu \<times> csrs \<Rightarrow> (int \<times> u64 \<times> pmu \<times> csrs) res" where
  "sbi_ecall_pmu_handler xlate hf funcid a out_val = (\<lambda>(p, c).
     (if funcid = 0 then Inr (0, of_nat (sbi_pmu_num_ctr p), p, c)
      else if funcid = 1
      then let (ret, v) = sbi_pmu_ctr_get_info hf (unat (ucast (a ! 0) :: u32)) p
           in Inr (ret, case v of Some v \<Rightarrow> v | None \<Rightarrow> out_val, p, c)
      else if funcid = 2
      then bindR (sbi_pmu_ctr_cfg_match xlate hf (a ! 0) (a ! 1) (a ! 2) (a ! 3) (a ! 4) (p, c))
             (\<lambda>(ret, p, c). if ret \<ge> 0 then Inr (0, of_int ret, p, c) else Inr (ret, out_val, p, c))
      else if funcid = 5
      then bindR (sbi_pmu_ctr_read (unat (ucast (a ! 0) :: u32)) out_val p c) (\<lambda>(ret, v). Inr (ret, v, p, c))
      else if funcid = 3
      then bindR (sbi_pmu_ctr_start hf (a ! 0) (a ! 1) (a ! 2) (a ! 3) (p, c)) (\<lambda>(ret, p, c). Inr (ret, out_val, p, c))
      else if funcid = 4
      then bindR (sbi_pmu_ctr_stop hf (a ! 0) (a ! 1) (a ! 2) (p, c)) (\<lambda>(ret, p, c). Inr (ret, out_val, p, c))
      else Inr (SBI_ENOTSUPP, out_val, p, c)))"

section \<open>Lemmas\<close>

subsection \<open>The loop over a counter mask\<close>

fun foldR :: "('b \<Rightarrow> 's \<Rightarrow> 's res) \<Rightarrow> 'b list \<Rightarrow> 's \<Rightarrow> 's res" where
  "foldR f [] s = Inr s"
| "foldR f (x # xs) s = bindR (f x s) (foldR f xs)"

lemma foldR_inv:
  assumes "I s" "\<And>x s. x \<in> set xs \<Longrightarrow> I s \<Longrightarrow> \<exists>s'. f x s = Inr s' \<and> I s'"
  shows "\<exists>s'. foldR f xs s = Inr s' \<and> I s'"
  using assms
proof (induction xs arbitrary: s)
  case (Cons x xs)
  then obtain s' where "f x s = Inr s'" "I s'" by force
  with Cons show ?case by simp
qed simp

lemma for_each_fold:
  assumes "sz \<le> 64"
  shows "for_each_set_bit_from f m sz b s = bindR (foldR f (filter (bit m) [b..<sz]) s) (\<lambda>s. Inr (sz, s))"
  using assms
proof (induction f m sz b s rule: for_each_set_bit_from.induct)
  case (1 f m sz b s)
  show ?case
  proof (cases "b < sz")
    case False
    then show ?thesis by (simp add: for_each_set_bit_from.simps [of f] find_next_bit_def)
  next
    case True
    obtain r where r: "find_next_bit [m] sz b = Inr r" "b \<le> r" "r \<le> sz"
      "filter (bit m) [b..<sz] = (if r < sz then r # filter (bit m) [Suc r..<sz] else [])"
      using sbi_search.search_split [of sz b m] "1.prems" True by auto
    show ?thesis
    proof (cases "r < sz")
      case True
      then show ?thesis using "1.IH" [OF r(1) True] "1.prems" r
        by (cases "f r s") (simp_all add: for_each_set_bit_from.simps [of f m sz b])
    next
      case False
      then show ?thesis using r by (simp add: for_each_set_bit_from.simps [of f m sz b])
    qed
  qed
qed

subsection \<open>Invariant\<close>

definition fw_event_ok :: "'a::len word \<Rightarrow> bool" where
  "fw_event_ok e \<longleftrightarrow> get_cidx_type e = 0xf \<longrightarrow> unat (get_cidx_code e) < SBI_PMU_FW_EVENT_MAX"

text \<open>A counter without a hardware register only counts firmware events.\<close>

definition ctr_event_ok :: "nat \<Rightarrow> u32 \<Rightarrow> bool" where
  "ctr_event_ok i e \<longleftrightarrow> fw_event_ok e \<and> (32 \<le> i \<longrightarrow> get_cidx_type e = 0xf)"

definition pmu_inv :: "pmu \<Rightarrow> bool" where
  "pmu_inv p \<longleftrightarrow> length (active_events p) = 48 \<and> length (fw_event_map p) = 32 \<and>
     length (hw_event_map p) = 256 \<and> num_hw_events p < 256 \<and>
     3 \<le> num_hw_ctrs p \<and> num_hw_ctrs p \<le> 32 \<and> total_ctrs p = num_hw_ctrs p + 16 \<and>
     (\<forall>i<total_ctrs p. active_events p ! i \<noteq> SBI_PMU_EVENT_IDX_INVALID \<longrightarrow> ctr_event_ok i (active_events p ! i))"

lemma pmu_invD:
  assumes "pmu_inv p"
  shows "length (active_events p) = 48" "length (fw_event_map p) = 32" "length (hw_event_map p) = 256"
    "num_hw_events p < 256" "num_hw_ctrs p \<le> 32" "3 \<le> num_hw_ctrs p" "total_ctrs p = num_hw_ctrs p + 16" "total_ctrs p \<le> 48"
    "i < total_ctrs p \<Longrightarrow> active_events p ! i \<noteq> SBI_PMU_EVENT_IDX_INVALID \<Longrightarrow> ctr_event_ok i (active_events p ! i)"
  using assms by (auto simp: pmu_inv_def)

lemma pmu_inv_fw_update [simp]: "pmu_inv p \<Longrightarrow> pmu_inv (p\<lparr>fw_event_map := (fw_event_map p)[i := e]\<rparr>)"
  by (simp add: pmu_inv_def)

lemma pmu_inv_active_update:
  assumes "pmu_inv p" "e \<noteq> SBI_PMU_EVENT_IDX_INVALID \<Longrightarrow> ctr_event_ok i e"
  shows "pmu_inv (p\<lparr>active_events := (active_events p)[i := e]\<rparr>)"
proof -
  have "ctr_event_ok j ((active_events p)[i := e] ! j)"
    if "j < total_ctrs p" "(active_events p)[i := e] ! j \<noteq> SBI_PMU_EVENT_IDX_INVALID" for j
    using that assms pmu_invD(1,8,9) [OF assms(1)] by (cases "j = i") auto
  then show ?thesis using assms(1) by (simp add: pmu_inv_def)
qed

lemma type_less: "\<not> get_cidx_type e \<ge> SBI_PMU_EVENT_TYPE_MAX" for e :: u32
proof -
  have F: "(0xF :: u32) = mask 4" by (simp add: mask_numeral)
  have "get_cidx_type e = take_bit 4 (drop_bit 16 e)"
    unfolding get_cidx_type_def F by (rule bit_word_eqI) (auto simp: bit_simps dest: bit_imp_le_length)
  then show ?thesis
    using take_bit_nat_less_exp [of 4 "unat (drop_bit 16 e)"]
    by (simp add: word_le_nat_alt pmu_consts unsigned_take_bit_eq)
qed

lemma validate_ok:
  assumes "pmu_inv p" "i < 48"
  shows "pmu_ctr_validate p i = Inr (SBI_EINVAL, 0) \<or>
    pmu_ctr_validate p i = Inr (uint (get_cidx_type (active_events p ! i)), get_cidx_code (active_events p ! i)) \<and>
    ctr_event_ok i (active_events p ! i)"
  using pmu_invD [OF assms(1)] assms(2) type_less by (auto simp: pmu_ctr_validate_def Let_def)

lemma fw_type_code:
  fixes e :: u32
  assumes "ctr_event_ok i e" "uint (get_cidx_type e) = uint SBI_PMU_EVENT_TYPE_FW"
  shows "unat (get_cidx_code e) < 32"
  using assms by (simp add: ctr_event_ok_def fw_event_ok_def pmu_consts word_uint_eq_iff)

lemma hw_type_ctr:
  assumes "ctr_event_ok i e" "uint (get_cidx_type e) \<noteq> uint SBI_PMU_EVENT_TYPE_FW"
  shows "i < 32"
  using assms by (auto simp: ctr_event_ok_def pmu_consts word_uint_eq_iff)

subsection \<open>Register accesses\<close>

lemma write_hw_ok: "i < 32 \<Longrightarrow> i \<noteq> 1 \<Longrightarrow> \<exists>c'. pmu_ctr_write_hw i v c = Inr c'"
  by (simp add: pmu_ctr_write_hw_def csr_write_num_def csr_counter_known)

lemma read_hw_ok: "i < 32 \<Longrightarrow> \<exists>r. pmu_ctr_read_hw i c = Inr r"
  by (simp add: pmu_ctr_read_hw_def csr_read_num_def csr_counter_known)

lemma start_hw_ok:
  assumes "pmu_inv p"
  shows "\<exists>ret c'. pmu_ctr_start_hw hf i v u p c = Inr (ret, c')"
proof (cases "i \<ge> num_hw_ctrs p \<or> i = 1")
  case True
  then show ?thesis by (simp add: pmu_ctr_start_hw_def)
next
  case False
  with pmu_invD(5) [OF assms] have i: "i < 32" "i \<noteq> 1" by auto
  have skip: "\<exists>c'. skip_inhibit_update i v u c = Inr (0, c')" for c
    using write_hw_ok [OF i, of v c] by (auto simp: skip_inhibit_update_def)
  have "\<exists>r. pmu_ctr_enable_irq_hw i c = Inr r"
    using csr_event_known [of i] i by (simp add: pmu_ctr_enable_irq_hw_def csr_read_num_def csr_write_num_def Let_def)
  then show ?thesis using False skip by (auto simp: pmu_ctr_start_hw_def Let_def) meson+
qed

lemma reset_mhpmevent_ok: "\<exists>r. pmu_reset_hw_mhpmevent i c = Inr r"
  using csr_event_known [of i] by (simp add: pmu_reset_hw_mhpmevent_def csr_write_num_def pmu_consts)

subsection \<open>The operations keep to their tables\<close>

lemma start_fw_ok:
  assumes "pmu_inv p" "unat code < 32"
  shows "\<exists>p'. pmu_ctr_start_fw code ival u p = Inr (0, p') \<and> pmu_inv p'"
  using assms pmu_invD(2) [OF assms(1)] by (simp add: pmu_ctr_start_fw_def Let_def)

lemma stop_fw_ok:
  assumes "pmu_inv p" "unat code < 32"
  shows "\<exists>p'. pmu_ctr_stop_fw code p = Inr (0, p') \<and> pmu_inv p'"
  using assms pmu_invD(2) [OF assms(1)] by (simp add: pmu_ctr_stop_fw_def Let_def)

abbreviation (input) st_inv :: "int \<times> pmu \<times> csrs \<Rightarrow> bool" where
  "st_inv \<equiv> \<lambda>(ret, p, c). pmu_inv p"

lemma start_body_safe:
  assumes "i < 48" "st_inv s"
  shows "\<exists>s'. pmu_start_body hf ival u i s = Inr s' \<and> st_inv s'"
proof -
  obtain ret q d where s: "s = (ret, q, d)" by (cases s)
  with assms have q: "pmu_inv q" by simp
  show ?thesis
    using validate_ok [OF q assms(1)] start_fw_ok [OF q, of "get_cidx_code (active_events q ! i)" ival u]
      fw_type_code [of i "active_events q ! i"] start_hw_ok [OF q, of hf i ival u d] q
    by (auto simp: s pmu_start_body_def SBI_EINVAL_def split: prod.splits)
qed

lemma stop_body_safe:
  assumes "i < 48" "st_inv s"
  shows "\<exists>s'. pmu_stop_body hf flag i s = Inr s' \<and> st_inv s'"
proof -
  obtain ret q d where s: "s = (ret, q, d)" by (cases s)
  with assms have q: "pmu_inv q" by simp
  have reset: "pmu_inv p \<Longrightarrow> pmu_inv (p\<lparr>active_events := (active_events p)[i := SBI_PMU_EVENT_IDX_INVALID]\<rparr>)" for p
    by (rule pmu_inv_active_update) simp_all
  have reset_ok: "\<exists>s'. bindR (pmu_reset_hw_mhpmevent i c) (\<lambda>(_, c). Inr (r, p, c)) = Inr s' \<and> st_inv s'"
    if "pmu_inv p" for r p c using reset_mhpmevent_ok [of i c] that by auto
  show ?thesis
    using validate_ok [OF q assms(1)] stop_fw_ok [OF q, of "get_cidx_code (active_events q ! i)"]
      fw_type_code [of i "active_events q ! i"] q reset_ok
    by (auto simp: s pmu_stop_body_def SBI_EINVAL_def Let_def reset split: prod.splits)
qed

lemma for_each_safe:
  assumes "pmu_inv p" "\<And>i s. i < 48 \<Longrightarrow> st_inv s \<Longrightarrow> \<exists>s'. f i s = Inr s' \<and> st_inv s'"
  shows "\<exists>b ret p' c'. for_each_set_bit_from f m (total_ctrs p) n (r, p, c) = Inr (b, ret, p', c') \<and> pmu_inv p'"
proof -
  have "\<exists>s'. foldR f (filter (bit m) [n..<total_ctrs p]) (r, p, c) = Inr s' \<and> st_inv s'"
    using assms pmu_invD(8) [OF assms(1)] by (intro foldR_inv [where I = st_inv]) auto
  then show ?thesis using pmu_invD(8) [OF assms(1)] by (auto simp: for_each_fold)
qed

lemma pmu_ctr_start_safe:
  assumes "pmu_inv p"
  shows "\<exists>ret p' c'. sbi_pmu_ctr_start hf cbase cmask flags ival (p, c) = Inr (ret, p', c') \<and> pmu_inv p'"
proof -
  have "\<exists>b ret p' c'. for_each_set_bit_from (pmu_start_body hf ival (flags AND 1 \<noteq> 0)) (sll cmask cbase) (total_ctrs p)
      (unat cbase) (SBI_EINVAL, p, c) = Inr (b, ret, p', c') \<and> pmu_inv p'"
    by (rule for_each_safe [OF assms start_body_safe])
  then show ?thesis using assms by (auto simp: sbi_pmu_ctr_start_def Let_def)
qed

lemma pmu_ctr_stop_safe:
  assumes "pmu_inv p"
  shows "\<exists>ret p' c'. sbi_pmu_ctr_stop hf cbase cmask flag (p, c) = Inr (ret, p', c') \<and> pmu_inv p'"
proof -
  have "\<exists>b ret p' c'. for_each_set_bit_from (pmu_stop_body hf flag) (sll cmask cbase) (total_ctrs p)
      (unat cbase) (SBI_EINVAL, p, c) = Inr (b, ret, p', c') \<and> pmu_inv p'"
    by (rule for_each_safe [OF assms stop_body_safe])
  then show ?thesis using assms by (auto simp: sbi_pmu_ctr_stop_def Let_def)
qed

lemma find_fw_loop_ok:
  assumes "pmu_inv p" "\<And>i. i \<in> set is \<Longrightarrow> i < 48"
  shows "find_fw_loop m p is = Inr SBI_ENOTSUPP \<or> (\<exists>i\<in>set is. find_fw_loop m p is = Inr (int i))"
  using assms(2) pmu_invD(1) [OF assms(1)] by (induction "is") auto

lemma find_fw_ok:
  assumes "pmu_inv p"
  shows "pmu_ctr_find_fw cbase cmask p = Inr SBI_ENOTSUPP \<or> (\<exists>i<48. pmu_ctr_find_fw cbase cmask p = Inr (int i))"
proof -
  let ?l = "[if unat cbase < num_hw_ctrs p then num_hw_ctrs p else unat (ucast cbase :: u32)..<total_ctrs p]"
  have "i < 48" if "i \<in> set ?l" for i using that pmu_invD(8) [OF assms] by simp
  from find_fw_loop_ok [OF assms this] this show ?thesis
    unfolding pmu_ctr_find_fw_def Let_def by blast
qed

definition found_ok :: "int \<Rightarrow> bool" where
  "found_ok i \<longleftrightarrow> i = SBI_ENOTSUPP \<or> (3 \<le> i \<and> i < 32)"

lemma find_hw_loop_ok:
  assumes "pmu_inv p" "found_ok ctr_idx"
  shows "\<exists>i. find_hw_loop hf inh cmask e data p evs cbase ctr_idx = Inr i \<and> found_ok i"
  using assms(2)
proof (induction evs arbitrary: cbase ctr_idx)
  case (Cons t evs)
  let ?m = "ucast (hw_counters t) AND sll cmask (of_nat cbase) AND NOT 7 :: u64"
  have body: "\<exists>s'. find_hw_body hf inh p x s = Inr s' \<and> found_ok s'" if "3 \<le> x" "x < 32" "found_ok s" for x s
    using that pmu_invD(1) [OF assms(1)] by (auto simp: find_hw_body_def found_ok_def)
  have "3 \<le> x" if "bit ?m x" for x
    using that by (auto simp: bit_and_iff bit_not_iff mask_numerals(3) bit_mask_iff)
  then have "\<exists>i. foldR (find_hw_body hf inh p) (filter (bit ?m) [cbase..<32]) ctr_idx = Inr i \<and> found_ok i"
    using Cons.prems by (intro foldR_inv [where I = found_ok] body) auto
  then obtain i where "foldR (find_hw_body hf inh p) (filter (bit ?m) [cbase..<32]) ctr_idx = Inr i" "found_ok i" by blast
  then show ?case using Cons by (simp add: for_each_fold SBI_PMU_HW_CTR_MAX_def)
qed simp

lemma update_mhpmevent_ok:
  "\<exists>ret c'. pmu_update_hw_mhpmevent xlate hf i flags e data c = Inr (ret, c') \<and> (ret = 0 \<or> ret < 0)"
  using csr_event_known [of "nat i"] nat_less_iff [of i 32] le_nat_iff [of i 3]
  by (auto simp: pmu_update_hw_mhpmevent_def Let_def SBI_EFAIL_def csr_write_num_def pmu_consts)

lemma find_hw_ok:
  assumes "pmu_inv p"
  shows "\<exists>i c'. pmu_ctr_find_hw xlate hf cbase cmask flags e data p c = Inr (i, c') \<and> (i < 0 \<or> i < 32 \<and> i \<noteq> 1)"
proof -
  obtain i where i: "find_hw_loop hf (if priv_version hf \<ge> SBI_HART_PRIV_VER_1_11 then c CSR_MCOUNTINHIBIT else 0) cmask e data p
      (take (num_hw_events p) (hw_event_map p)) (unat cbase) SBI_ENOTSUPP = Inr i" "found_ok i"
    using find_hw_loop_ok [OF assms, of SBI_ENOTSUPP] by (force simp: found_ok_def)
  have "pmu_ctr_find_fixed_fw e < 32 \<and> pmu_ctr_find_fixed_fw e \<noteq> 1"
    by (simp add: pmu_ctr_find_fixed_fw_def SBI_EINVAL_def)
  then show ?thesis using i pmu_invD(3,4) [OF assms] update_mhpmevent_ok [of xlate hf i flags e data c]
    by (auto simp: pmu_ctr_find_hw_def Let_def found_ok_def SBI_EINVAL_def SBI_EFAIL_def SBI_ENOTSUPP_def)
qed

text \<open>
  The first matching table entry is the only one searched: its loop leaves \<open>cbase\<close> at 32, from
  where no later entry yields a counter.
\<close>

lemma find_hw_loop_done: "find_hw_loop hf inh cmask e data p evs 32 i = Inr i"
  by (induction evs) (simp_all add: for_each_fold SBI_PMU_HW_CTR_MAX_def)

text \<open>
  A request for an event is within the tables when the code of a firmware event is one of
  the 32, and, with \<open>SBI_PMU_CFG_FLAG_SKIP_MATCH\<close>, the counter one of the 48 and, for a
  hardware event to be cleared, one that has a register.
\<close>

definition cfg_request_ok :: "u64 \<Rightarrow> u64 \<Rightarrow> u64 \<Rightarrow> bool" where
  "cfg_request_ok cidx_base flags event_idx \<longleftrightarrow>
     fw_event_ok event_idx \<and> (flags AND 1 \<noteq> 0 \<longrightarrow> unat cidx_base < 48 \<and>
       (flags AND 2 \<noteq> 0 \<and> get_cidx_type event_idx = 0 \<longrightarrow> unat cidx_base < 32 \<and> unat cidx_base \<noteq> 1))"

lemma skip_match_safe:
  assumes "pmu_inv p" "fw_event_ok e" "get_cidx_type e = 0 \<and> flags AND 2 \<noteq> 0 \<longrightarrow> nat i < 32 \<and> nat i \<noteq> 1"
  shows "\<exists>ret p' c'. cfg_skip_match hf flags e i (p, c) = Inr (ret, p', c') \<and> pmu_inv p'"
proof (cases "get_cidx_type e = 0")
  case True
  obtain c1 where c1: "(if flags AND 2 \<noteq> 0 then pmu_ctr_write_hw (nat i) 0 c else Inr c) = Inr c1"
    using write_hw_ok [of "nat i" 0 c] assms(3) True by (cases "flags AND 2 = 0") auto
  obtain r where "(if flags AND 4 \<noteq> 0 then pmu_ctr_start_hw hf (nat i) 0 False p c1 else Inr (0, c1)) = Inr r"
    using start_hw_ok [OF assms(1), of hf "nat i" 0 False c1] by (cases "flags AND 4 = 0") auto
  then show ?thesis using True c1 assms(1) by (cases r) (simp add: cfg_skip_match_def pmu_consts)
next
  case False
  then show ?thesis using assms pmu_invD(2) [OF assms(1)]
    by (simp add: cfg_skip_match_def Let_def fw_event_ok_def pmu_consts)
qed

lemma event_ucast:
  fixes e :: u64
  shows "get_cidx_type (ucast e :: u32) = ucast (get_cidx_type e)"
    "get_cidx_code (ucast e :: u32) = ucast (get_cidx_code e)"
proof -
  have m: "(0xF :: u64) = mask 4" "(0xF :: u32) = mask 4" "(0xFFFF :: u64) = mask 16" "(0xFFFF :: u32) = mask 16"
    by (simp_all add: mask_numeral)
  show "get_cidx_type (ucast e :: u32) = ucast (get_cidx_type e)"
    unfolding get_cidx_type_def m by (rule bit_word_eqI) (auto simp: bit_simps)
  show "get_cidx_code (ucast e :: u32) = ucast (get_cidx_code e)"
    unfolding get_cidx_code_def m by (rule bit_word_eqI) (auto simp: bit_simps)
qed

lemma type_code_bound:
  fixes e :: u64
  shows "unat (get_cidx_type e) < 16" "unat (get_cidx_code e) < 65536"
proof -
  have m: "(0xF :: u64) = mask 4" "(0xFFFF :: u64) = mask 16" by (simp_all add: mask_numeral)
  have t: "get_cidx_type e = take_bit 4 (drop_bit 16 e)" "get_cidx_code e = take_bit 16 e"
    unfolding get_cidx_type_def get_cidx_code_def m
    by (rule bit_word_eqI, auto simp: bit_simps dest: bit_imp_le_length)+
  show "unat (get_cidx_type e) < 16"
    using take_bit_nat_less_exp [of 4 "unat (drop_bit 16 e)"] by (simp add: t unsigned_take_bit_eq)
  show "unat (get_cidx_code e) < 65536"
    using take_bit_nat_less_exp [of 16 "unat e"] by (simp add: t unsigned_take_bit_eq)
qed

lemma fw_event_ok_ucast: "fw_event_ok (ucast e :: u32) = fw_event_ok e" for e :: u64
proof -
  have "unat (ucast w :: u32) = unat w" if "unat w < 65536" for w :: u64
    using that by (simp add: unsigned_ucast_eq take_bit_nat_eq_self)
  then have "unat (ucast (get_cidx_type e) :: u32) = unat (get_cidx_type e)"
    "unat (ucast (get_cidx_code e) :: u32) = unat (get_cidx_code e)"
    using type_code_bound [of e] by simp_all
  then show ?thesis by (simp add: fw_event_ok_def event_ucast word_unat_eq_iff)
qed

lemma cfg_match_safe:
  assumes "pmu_inv p" "cfg_request_ok cidx_base flags e"
  shows "\<exists>ret p' c'. sbi_pmu_ctr_cfg_match xlate hf cidx_base cidx_mask flags e data (p, c) = Inr (ret, p', c') \<and> pmu_inv p'"
proof (cases "flags AND 1 \<noteq> 0")
  case True
  then show ?thesis
    using assms pmu_invD(1) [OF assms(1)] skip_match_safe [OF assms(1), of e flags "int (unat cidx_base)" hf c]
    by (auto simp: sbi_pmu_ctr_cfg_match_def Let_def cfg_request_ok_def)
next
  case False
  have ok: "fw_event_ok e" using assms(2) by (simp add: cfg_request_ok_def)
  have "\<exists>i c'. (if get_cidx_type e = ucast SBI_PMU_EVENT_TYPE_FW
      then bindR (pmu_ctr_find_fw cidx_base cidx_mask p) (\<lambda>i. Inr (i, c))
      else pmu_ctr_find_hw xlate hf cidx_base cidx_mask flags e data p c) = Inr (i, c') \<and>
      (i < 0 \<or> nat i < 48 \<and> (get_cidx_type e \<noteq> 0xf \<longrightarrow> nat i < 32 \<and> nat i \<noteq> 1))"
    (is "\<exists>i c'. ?find = Inr (i, c') \<and> _")
  proof (cases "get_cidx_type e = ucast SBI_PMU_EVENT_TYPE_FW")
    case True
    then show ?thesis using find_fw_ok [OF assms(1), of cidx_base cidx_mask] by (auto simp: SBI_ENOTSUPP_def pmu_consts)
  next
    case False
    then show ?thesis
      using find_hw_ok [OF assms(1), of xlate hf cidx_base cidx_mask flags e data c] by auto
  qed
  then obtain i c' where find: "?find = Inr (i, c')"
    "i < 0 \<or> nat i < 48 \<and> (get_cidx_type e \<noteq> 0xf \<longrightarrow> nat i < 32 \<and> nat i \<noteq> 1)" by blast
  let ?q = "p\<lparr>active_events := (active_events p)[nat i := ucast e]\<rparr>"
  show ?thesis
  proof (cases "i < 0")
    case True
    then show ?thesis using False assms(1) by (simp add: sbi_pmu_ctr_cfg_match_def Let_def find(1))
  next
    case i: False
    have "ctr_event_ok (nat i) (ucast e)"
      using find(2) i ok by (auto simp: ctr_event_ok_def fw_event_ok_ucast event_ucast)
    then have "pmu_inv ?q" by (intro pmu_inv_active_update [OF assms(1)])
    from skip_match_safe [OF this ok, of flags i hf c'] show ?thesis
      using False i find(2) assms(1) pmu_invD(1) [OF assms(1)]
      by (auto simp: sbi_pmu_ctr_cfg_match_def Let_def find(1))
  qed
qed

lemma ctr_read_safe:
  assumes "pmu_inv p" "i < 48"
  shows "\<exists>ret v'. sbi_pmu_ctr_read i v p c = Inr (ret, v')"
proof -
  let ?e = "active_events p ! i"
  from validate_ok [OF assms] consider "pmu_ctr_validate p i = Inr (SBI_EINVAL, 0)"
    | "pmu_ctr_validate p i = Inr (uint (get_cidx_type ?e), get_cidx_code ?e)" "ctr_event_ok i ?e" by blast
  then show ?thesis
  proof cases
    case 1
    then show ?thesis by (simp add: sbi_pmu_ctr_read_def SBI_EINVAL_def)
  next
    case 2
    show ?thesis
    proof (cases "uint (get_cidx_type ?e) = uint SBI_PMU_EVENT_TYPE_FW")
      case True
      then show ?thesis using 2 fw_type_code [OF 2(2)] pmu_invD(2) [OF assms(1)]
        by (simp add: sbi_pmu_ctr_read_def pmu_ctr_read_fw_def)
    next
      case False
      then show ?thesis using 2 read_hw_ok [OF hw_type_ctr [OF 2(2) False], of c]
        by (auto simp: sbi_pmu_ctr_read_def)
    qed
  qed
qed

lemma length_fold_update: "length (fold (\<lambda>j a. a[j := x]) js xs) = length xs"
  by (induction js arbitrary: xs) simp_all

lemma nth_fold_update:
  "i < length xs \<Longrightarrow> fold (\<lambda>j a. a[j := x]) js xs ! i = (if i \<in> set js then x else xs ! i)"
  by (induction js arbitrary: xs) (auto simp: nth_list_update)

text \<open>Cold boot on tables that no event is assigned in establishes the invariant.\<close>

definition pmu_zero :: pmu where
  "pmu_zero = \<lparr>hw_event_map = replicate 256 \<lparr>hw_counters = 0, start_idx = 0, end_idx = 0, select = 0, select_mask = 0\<rparr>,
     active_events = replicate 48 0, fw_event_map = replicate 32 \<lparr>curr_count = 0, bStarted = False\<rparr>,
     num_hw_events = 0, num_hw_ctrs = 0, total_ctrs = 0\<rparr>"

lemma pmu_init_inv:
  assumes "mhpm_count hf \<le> 29"
  shows "pmu_inv (sbi_pmu_init (\<lambda>p. p) hf True pmu_zero)"
proof -
  let ?p = "sbi_pmu_init (\<lambda>p. p) hf True pmu_zero" and ?a = "active_events (sbi_pmu_init (\<lambda>p. p) hf True pmu_zero)"
  have a: "?a = (fold (\<lambda>j a. a[j := SBI_PMU_EVENT_IDX_INVALID]) [3..<mhpm_count hf + 19] (replicate 48 0))
      [0 := 1, 1 := SBI_PMU_EVENT_IDX_INVALID, 2 := 2]"
    by (simp add: sbi_pmu_init_def pmu_reset_event_map_def Let_def pmu_zero_def pmu_consts add.commute)
  have len: "length ?a = 48" by (simp add: a length_fold_update)
  have ok: "fw_event_ok (0 :: u32)" "fw_event_ok (1 :: u32)" "fw_event_ok (2 :: u32)"
    by (simp_all add: fw_event_ok_def get_cidx_type_def)
  have "?a ! i = SBI_PMU_EVENT_IDX_INVALID \<or> ctr_event_ok i (?a ! i)" if "i < 19 + mhpm_count hf" for i
  proof -
    have "i < 48" using that assms by simp
    with nth_fold_update [of i "replicate 48 (0 :: u32)" SBI_PMU_EVENT_IDX_INVALID "[3..<mhpm_count hf + 19]"] that
    have "i = 0 \<and> ?a ! i = 1 \<or> i = 2 \<and> ?a ! i = 2 \<or> ?a ! i = SBI_PMU_EVENT_IDX_INVALID"
      by (auto simp: a nth_list_update length_fold_update)
    then show ?thesis using ok by (auto simp: ctr_event_ok_def)
  qed
  moreover have "length (fw_event_map ?p) = 32 \<and> length (hw_event_map ?p) = 256 \<and> num_hw_events ?p = 0 \<and>
      num_hw_ctrs ?p = 3 + mhpm_count hf \<and> total_ctrs ?p = 19 + mhpm_count hf"
    by (simp add: sbi_pmu_init_def pmu_reset_event_map_def Let_def pmu_zero_def length_fold_update pmu_consts)
  ultimately show ?thesis unfolding pmu_inv_def using assms len by auto
qed

lemma find_fw_loop_found:
  assumes "find_fw_loop m p is = Inr i" "0 \<le> i"
  shows "nat i \<in> set is" "active_events p ! nat i = SBI_PMU_EVENT_IDX_INVALID" "nat i < length (active_events p)"
  using assms by (induction "is") (auto simp: SBI_ENOTSUPP_def split: if_splits)

lemma find_fw_found:
  assumes "pmu_ctr_find_fw cbase cmask p = Inr i" "0 \<le> i"
  shows "nat i < total_ctrs p" "active_events p ! nat i = SBI_PMU_EVENT_IDX_INVALID"
  using find_fw_loop_found [OF assms(1) [unfolded pmu_ctr_find_fw_def Let_def] assms(2)] by auto

definition incr_all :: "nat list \<Rightarrow> pmu \<Rightarrow> pmu" where
  "incr_all ids p = fold (\<lambda>i p. snd (sbi_pmu_ctr_incr_fw i p)) ids p"

lemma incr_all_count:
  assumes "fw_event_map p ! k = \<lparr>curr_count = n, bStarted = True\<rparr>" "k < 22" "length (fw_event_map p) = 32"
  shows "curr_count (fw_event_map (incr_all ids p) ! k) = n + of_nat (count_list ids k) \<and>
    active_events (incr_all ids p) = active_events p \<and> total_ctrs (incr_all ids p) = total_ctrs p \<and>
    length (fw_event_map (incr_all ids p)) = 32"
  using assms
proof (induction ids arbitrary: p n)
  case (Cons i ids)
  let ?q = "snd (sbi_pmu_ctr_incr_fw i p)"
  have q: "active_events ?q = active_events p" "total_ctrs ?q = total_ctrs p" "length (fw_event_map ?q) = 32"
    "fw_event_map ?q ! k = \<lparr>curr_count = n + (if i = k then 1 else 0), bStarted = True\<rparr>"
    using Cons.prems by (auto simp: sbi_pmu_ctr_incr_fw_def Let_def pmu_consts)
  from Cons.IH [OF q(4) Cons.prems(2) q(3)] q show ?case
    by (simp add: incr_all_def)
qed (simp add: incr_all_def)

lemma cfg_fw_result:
  assumes "sbi_pmu_ctr_cfg_match xlate hf b m flags e data (p, c) = Inr (i, p', c')" "0 \<le> i" "pmu_inv p"
    "get_cidx_type e = 0xf" "unat (get_cidx_code e) < 32" "flags AND 1 = 0" "flags AND 2 \<noteq> 0" "flags AND 4 \<noteq> 0"
  shows "nat i < total_ctrs p \<and> p' = p\<lparr>active_events := (active_events p)[nat i := ucast e],
    fw_event_map := (fw_event_map p)[unat (get_cidx_code e) := \<lparr>curr_count = 0, bStarted = True\<rparr>]\<rparr>"
proof -
  have six: "flags AND 6 \<noteq> 0"
  proof
    assume "flags AND 6 = 0"
    then have "(flags AND 6) AND 2 = 0" by simp
    then have "flags AND 2 = 0" by (simp add: and.assoc)
    with assms(7) show False by simp
  qed
  have t: "sbi_fls (sll m b) < total_ctrs p" using assms(1,2)
    by (auto simp: sbi_pmu_ctr_cfg_match_def Let_def SBI_EINVAL_def split: if_splits)
  from find_fw_ok [OF assms(3), of b m] obtain j where j: "pmu_ctr_find_fw b m p = Inr j" by auto
  have rec: "f\<lparr>curr_count := 0, bStarted := True\<rparr> = \<lparr>curr_count = 0, bStarted = True\<rparr>" for f :: sbi_pmu_fw_event
    by (cases f) simp
  have "j \<ge> 0 \<and> i = j" and p': "p' = p\<lparr>active_events := (active_events p)[nat j := ucast e],
    fw_event_map := (fw_event_map p)[unat (get_cidx_code e) := \<lparr>curr_count = 0, bStarted = True\<rparr>]\<rparr>"
    using assms t six j pmu_invD(2) [OF assms(3)]
    by (auto simp: sbi_pmu_ctr_cfg_match_def cfg_skip_match_def Let_def pmu_consts SBI_ENOTSUPP_def rec split: if_splits)
  then show ?thesis using find_fw_found(1) [OF j] by simp
qed

lemma fw_event_valid:
  fixes e :: u64
  assumes "get_cidx_type e = 0xf" "unat (get_cidx_code e) < 32"
  shows "(ucast e :: u32) \<noteq> SBI_PMU_EVENT_IDX_INVALID"
    "uint (get_cidx_type (ucast e :: u32)) = 15" "unat (get_cidx_code (ucast e :: u32)) = unat (get_cidx_code e)"
proof -
  have "unat (ucast w :: u32) = unat w" if "unat w < 65536" for w :: u64
    using that by (simp add: unsigned_ucast_eq take_bit_nat_eq_self)
  then show code: "unat (get_cidx_code (ucast e :: u32)) = unat (get_cidx_code e)"
    using type_code_bound [of e] by (simp add: event_ucast)
  show "uint (get_cidx_type (ucast e :: u32)) = 15" by (simp add: event_ucast assms)
  show "(ucast e :: u32) \<noteq> SBI_PMU_EVENT_IDX_INVALID"
  proof
    assume "(ucast e :: u32) = SBI_PMU_EVENT_IDX_INVALID"
    then have "unat (get_cidx_code (ucast e :: u32)) = 65535" by (simp add: get_cidx_code_def pmu_consts)
    with code assms show False by simp
  qed
qed

section \<open>Properties\<close>

text \<open>A hart with two programmable counters after boot.\<close>

definition pmu_demo_hf :: sbi_hart_features where
  "pmu_demo_hf = \<lparr>priv_version = 3, extensions = 0, mhpm_count = 2, mhpm_bits = 64\<rparr>"

definition pmu_demo :: pmu where
  "pmu_demo = sbi_pmu_init (\<lambda>p. p) pmu_demo_hf True pmu_zero"

lemma pmu_demo_inv: "pmu_inv pmu_demo"
  unfolding pmu_demo_def by (rule pmu_init_inv) (simp add: pmu_demo_hf_def)

definition pmu_request_ok :: "u64 \<Rightarrow> u64 list \<Rightarrow> bool" where
  "pmu_request_ok funcid a \<longleftrightarrow> (funcid = 2 \<longrightarrow> cfg_request_ok (a ! 0) (a ! 2) (a ! 3)) \<and>
     (funcid = 5 \<longrightarrow> unat (ucast (a ! 0) :: u32) < 48)"

text \<open>
  C16: Every call of the PMU extension returns without an access outside its tables and without
  a panic, and keeps
  the invariant (table sizes, number of counters, every assigned firmware event below 32),
  provided the event code of a matched firmware event is below 32, the counter of a request
  with \<open>SKIP_MATCH\<close> and the counter to read are below 48, and a hardware event cleared with
  \<open>SKIP_MATCH\<close> names a counter that has a register.
\<close>

theorem pmu_requests_safe:
  assumes "pmu_inv p" "pmu_request_ok funcid a"
  shows "\<exists>ret v p' c'. sbi_ecall_pmu_handler xlate hf funcid a out_val (p, c) = Inr (ret, v, p', c') \<and> pmu_inv p'"
proof -
  note cfg = cfg_match_safe [OF assms(1), of "a ! 0" "a ! 2" "a ! 3" xlate hf "a ! 1" "a ! 4" c]
  note safe = pmu_ctr_start_safe [OF assms(1), of hf "a ! 0" "a ! 1" "a ! 2" "a ! 3" c]
    pmu_ctr_stop_safe [OF assms(1), of hf "a ! 0" "a ! 1" "a ! 2" c]
  note read = ctr_read_safe [OF assms(1), of "unat (ucast (a ! 0) :: u32)" out_val c]
  consider "funcid = 2" | "funcid = 3" | "funcid = 4" | "funcid = 5" | "funcid \<notin> {2, 3, 4, 5}" by blast
  then show ?thesis
  proof cases
    case 1
    then obtain ret p' c' where "sbi_pmu_ctr_cfg_match xlate hf (a ! 0) (a ! 1) (a ! 2) (a ! 3) (a ! 4) (p, c) = Inr (ret, p', c')"
      "pmu_inv p'" using cfg assms(2) by (auto simp: pmu_request_ok_def)
    then show ?thesis using 1 by (cases "ret \<ge> 0") (simp_all add: sbi_ecall_pmu_handler_def)
  next
    case 5
    then show ?thesis using assms(1) by (auto simp: sbi_ecall_pmu_handler_def split: prod.splits)
  qed (use assms safe read in \<open>auto simp: sbi_ecall_pmu_handler_def pmu_request_ok_def\<close>)
qed

theorem pmu_requests_safe_witness:
  "\<exists>ret v p' c'. sbi_ecall_pmu_handler (\<lambda>i d. d) pmu_demo_hf 2 [0, 0xFFFF, 6, 0xF0003, 0] 0 (pmu_demo, \<lambda>_. 0)
     = Inr (ret, v, p', c') \<and> pmu_inv p'"
proof (rule pmu_requests_safe)
  show "pmu_request_ok 2 [0, 0xFFFF, 6, 0xF0003, 0]"
    by (simp add: pmu_request_ok_def cfg_request_ok_def fw_event_ok_def get_cidx_code_def pmu_consts)
qed (rule pmu_demo_inv)

text \<open>
  C23: A firmware counter counts its event. When a match request for the firmware event \<open>k\<close>
  with \<open>CLEAR_VALUE\<close> and \<open>AUTO_START\<close> has returned counter \<open>i\<close>, then after any sequence of
  firmware events a read of counter \<open>i\<close> yields how often \<open>k\<close> has occurred in it, modulo
  \<open>2^64\<close>.
\<close>

theorem fw_counter_counts:
  assumes "pmu_inv p" "get_cidx_type e = 0xf" "unat (get_cidx_code e) < SBI_PMU_FW_MAX"
    and "flags AND 1 = 0" "flags AND 2 \<noteq> 0" "flags AND 4 \<noteq> 0"
    and "sbi_pmu_ctr_cfg_match xlate hf b m flags e data (p, c) = Inr (i, p', c')" "0 \<le> i"
  shows "sbi_pmu_ctr_read (nat i) v (incr_all ids p') d = Inr (0, of_nat (count_list ids (unat (get_cidx_code e))))"
proof -
  let ?k = "unat (get_cidx_code e)"
  have k: "?k < 22" "?k < 32" using assms(3) by (simp_all add: pmu_consts)
  note inv = pmu_invD [OF assms(1)]
  from cfg_fw_result [OF assms(7,8,1,2) k(2) assms(4-6)]
  have i: "nat i < total_ctrs p" and p': "p' = p\<lparr>active_events := (active_events p)[nat i := ucast e],
    fw_event_map := (fw_event_map p)[?k := \<lparr>curr_count = 0, bStarted = True\<rparr>]\<rparr>" by auto
  let ?q = "incr_all ids p'"
  have q: "curr_count (fw_event_map ?q ! ?k) = of_nat (count_list ids ?k)" "active_events ?q = active_events p'"
    "total_ctrs ?q = total_ctrs p" "length (fw_event_map ?q) = 32"
    using incr_all_count [of p' ?k 0 ids] k inv(2) by (simp_all add: p')
  have a: "active_events ?q ! nat i = ucast e" "nat i < length (active_events ?q)"
    unfolding q(2) using i inv(1,8) by (simp_all add: p')
  have "pmu_ctr_validate ?q (nat i) = Inr (15, get_cidx_code (ucast e))"
    using a i q(3) fw_event_valid(1,2) [OF assms(2) k(2)] type_less [of "ucast e"]
    by (simp add: pmu_ctr_validate_def Let_def)
  then show ?thesis
    using q fw_event_valid(3) [OF assms(2) k(2)] k
    by (simp add: sbi_pmu_ctr_read_def pmu_ctr_read_fw_def pmu_consts)
qed

theorem fw_counter_counts_witness:
  "\<exists>i p' c'. sbi_pmu_ctr_cfg_match (\<lambda>i d. d) pmu_demo_hf 0 0xFFFF 6 0xF0003 0 (pmu_demo, \<lambda>_. 0) = Inr (i, p', c') \<and>
     sbi_pmu_ctr_read (nat i) 7 (incr_all [3, 5, 3] p') (\<lambda>_. 0) = Inr (0, 2)"
proof -
  have "case sbi_pmu_ctr_cfg_match (\<lambda>i d. d) pmu_demo_hf 0 0xFFFF 6 0xF0003 0 (pmu_demo, \<lambda>_. 0) of
      Inl _ \<Rightarrow> False | Inr (i, _, _) \<Rightarrow> 0 \<le> i"
    by code_simp
  then obtain i p' c' where r: "sbi_pmu_ctr_cfg_match (\<lambda>i d. d) pmu_demo_hf 0 0xFFFF 6 0xF0003 0 (pmu_demo, \<lambda>_. 0) = Inr (i, p', c')"
    "0 \<le> i" by (auto split: sum.splits)
  have "sbi_pmu_ctr_read (nat i) 7 (incr_all [3, 5, 3] p') (\<lambda>_. 0) =
      Inr (0, of_nat (count_list [3, 5, 3] (unat (get_cidx_code (0xF0003 :: u64)))))"
    by (rule fw_counter_counts [OF pmu_demo_inv _ _ _ _ _ r]) (simp_all add: get_cidx_type_def get_cidx_code_def pmu_consts)
  with r(1) show ?thesis by (auto simp: get_cidx_code_def)
qed

text \<open>
  C40: A match request with a firmware event code of 32 or more, for which a firmware counter is
  free, writes outside the event table: the code comes from the supervisor and is not checked.
\<close>

theorem pmu_cfg_match_overruns:
  assumes "pmu_inv p" "get_cidx_type e = 0xf" "unat (get_cidx_code e) \<ge> SBI_PMU_FW_EVENT_MAX"
    and "flags AND 1 = 0" "flags AND 6 \<noteq> 0" "sbi_fls (sll m b) < total_ctrs p"
    and "pmu_ctr_find_fw b m p = Inr i" "0 \<le> i"
  shows "sbi_pmu_ctr_cfg_match xlate hf b m flags e data (p, c) = Inl Oob"
  using assms pmu_invD(1,2,8) [OF assms(1)] find_fw_found(1) [OF assms(7,8)]
  by (simp add: sbi_pmu_ctr_cfg_match_def cfg_skip_match_def Let_def pmu_consts)

theorem pmu_cfg_match_overruns_witness:
  "sbi_pmu_ctr_cfg_match (\<lambda>i d. d) pmu_demo_hf 0 0xFFFF 4 0xF0020 0 (pmu_demo, \<lambda>_. 0) = Inl Oob"
proof (rule pmu_cfg_match_overruns [OF pmu_demo_inv, where i = 5])
  show "pmu_ctr_find_fw 0 0xFFFF pmu_demo = Inr 5" by code_simp
  show "sbi_fls (sll 0xFFFF 0) < total_ctrs pmu_demo" by code_simp
qed (simp_all add: get_cidx_type_def get_cidx_code_def pmu_consts)

text \<open>
  A request to skip the match and clear a hardware event on a counter of 32 or above, which the
  code does not refuse either, panics on the unknown counter register.
\<close>

lemma pmu_clear_panics:
  assumes "pmu_inv p" "get_cidx_type e = 0" "flags AND 1 \<noteq> 0" "flags AND 2 \<noteq> 0" "sbi_fls (sll m b) < total_ctrs p"
    and "32 \<le> unat b" "unat b < 48" "active_events p ! unat b \<noteq> SBI_PMU_EVENT_IDX_INVALID"
  shows "sbi_pmu_ctr_cfg_match xlate hf b m flags e data (p, c) = Inl Bug"
  using assms pmu_invD(1) [OF assms(1)]
  by (simp add: sbi_pmu_ctr_cfg_match_def cfg_skip_match_def Let_def pmu_consts pmu_ctr_write_hw_def
      csr_write_num_def csr_counter_known)

text \<open>
  The reset of a hart's counters leaves the firmware events 16 to 31 as they are: the loop
  over the events runs to the number of firmware counters, which is 16.
\<close>

theorem pmu_exit_keeps_events:
  assumes "pmu_inv p" "SBI_PMU_FW_CTR_MAX \<le> k" "k < SBI_PMU_FW_EVENT_MAX"
  shows "fw_event_map (fst (sbi_pmu_exit hf (p, c))) ! k = fw_event_map p ! k"
  using assms pmu_invD(2) [OF assms(1)]
  by (simp add: sbi_pmu_exit_def pmu_reset_event_map_def nth_fold_update pmu_consts Let_def)

theorem pmu_exit_keeps_events_witness:
  "fw_event_map (fst (sbi_pmu_exit pmu_demo_hf (pmu_demo\<lparr>fw_event_map := (fw_event_map pmu_demo)[18 := \<lparr>curr_count = 9, bStarted = True\<rparr>]\<rparr>, \<lambda>_. 0))) ! 18
     = \<lparr>curr_count = 9, bStarted = True\<rparr>"
proof -
  let ?p = "pmu_demo\<lparr>fw_event_map := (fw_event_map pmu_demo)[18 := \<lparr>curr_count = 9, bStarted = True\<rparr>]\<rparr>"
  have "fw_event_map ?p ! 18 = \<lparr>curr_count = 9, bStarted = True\<rparr>"
    using pmu_invD(2) [OF pmu_demo_inv] by simp
  then show ?thesis
    using pmu_exit_keeps_events [of ?p 18] pmu_demo_inv by (simp add: pmu_consts)
qed

end
