(* ===== verification/Sbi_Misaligned.thy ===== *)
theory Sbi_Misaligned
  imports Sbi_Trap Sbi_Pmu
begin

text \<open>
  Emulation of misaligned loads and stores: the unprivileged accesses of
  \<open>arch/riscv/sbi/riscv_unpriv.c\<close> (\<open>load_u8\<close>, \<open>store_u8\<close>, \<open>get_insn\<close>) and the two handlers
  of \<open>arch/riscv/sbi/sbi_misaligned_ldst.c\<close>, for a 64-bit hart with compressed
  instructions and without floating point (\<open>CONFIG_SBI_RISCV_C\<close>). The memory is the one
  the interrupted code sees; whether the processor faults on an access to it is the parameter
  \<open>fault\<close>, which yields the cause and the trap value. An access that faults traps into
  the firmware itself; \<open>None\<close> is a hart that \<open>sbi_trap_error\<close> stops. The CSRs the
  processor sets on the nested trap are not tracked: the handlers have read theirs before.
\<close>

unbundle bit_operations_syntax

section \<open>Model\<close>

definition EXC_LOAD_ACCESS :: u64 where "EXC_LOAD_ACCESS = 5"
definition EXC_STORE_ACCESS :: u64 where "EXC_STORE_ACCESS = 7"
definition EXC_LOAD_PAGE_FAULT :: u64 where "EXC_LOAD_PAGE_FAULT = 13"
definition EXC_STORE_PAGE_FAULT :: u64 where "EXC_STORE_PAGE_FAULT = 15"


record hart =
  regs :: pt_regs
  hcsr :: csrs
  umem :: "u64 \<Rightarrow> u8"
  hpmu :: pmu

text \<open>\<open>Fetch\<close> is a load with \<open>MXR\<close> set.\<close>

datatype access = Load | Fetch | Store

type_synonym fault_fn = "access \<Rightarrow> u64 \<Rightarrow> (u64 \<times> u64) option"

record unpriv_trap =
  ilen :: u64
  t_cause :: u64
  t_tval :: u64

subsection \<open>Unprivileged access\<close>

text \<open>
  The branch of \<open>sbi_trap_handler\<close> that a fault of an unprivileged access takes: the trap
  information is stored and the access is skipped. Any other cause is redirected, which fails
  for a trap from machine mode, and stops the hart.
\<close>

definition unpriv_fault :: "u64 \<Rightarrow> u64 \<Rightarrow> unpriv_trap \<Rightarrow> pmu \<Rightarrow> (unpriv_trap \<times> pmu) option" where
  "unpriv_fault mcause mtval t p =
     (let t' = t\<lparr>t_cause := mcause, t_tval := mtval\<rparr>
      in if mcause = EXC_LOAD_ACCESS \<or> mcause = EXC_STORE_ACCESS
         then Some (t', snd (sbi_pmu_ctr_incr_fw (if mcause = EXC_LOAD_ACCESS then 2 else 3) p))
         else if mcause = EXC_LOAD_PAGE_FAULT \<or> mcause = EXC_STORE_PAGE_FAULT then Some (t', p)
         else None)"

text \<open>On a fault the loaded value is whatever the register held, here 0; no caller uses it.\<close>

definition load_u8 :: "fault_fn \<Rightarrow> u64 \<Rightarrow> (u64 \<Rightarrow> u8) \<Rightarrow> pmu \<Rightarrow> (u8 \<times> unpriv_trap \<times> pmu) option" where
  "load_u8 fault addr m p =
     (let trap = \<lparr>ilen = 4, t_cause = 0, t_tval = 0\<rparr>
      in case fault Load addr of
           None \<Rightarrow> Some (m addr, trap, p)
         | Some (mcause, mtval) \<Rightarrow> map_option (\<lambda>(trap, p). (0, trap, p)) (unpriv_fault mcause mtval trap p))"

definition store_u8 :: "fault_fn \<Rightarrow> u64 \<Rightarrow> u8 \<Rightarrow> (u64 \<Rightarrow> u8) \<Rightarrow> pmu \<Rightarrow> ((u64 \<Rightarrow> u8) \<times> unpriv_trap \<times> pmu) option" where
  "store_u8 fault addr v m p =
     (let trap = \<lparr>ilen = 4, t_cause = 0, t_tval = 0\<rparr>
      in case fault Store addr of
           None \<Rightarrow> Some (m(addr := v), trap, p)
         | Some (mcause, mtval) \<Rightarrow> map_option (\<lambda>(trap, p). (m, trap, p)) (unpriv_fault mcause mtval trap p))"

text \<open>
  \<open>get_insn\<close> fetches without trap information, so that a fault stops the hart. \<open>lhu\<close> and
  \<open>lwu\<close> read little-endian; the accesses are aligned and fault as a whole.
\<close>

definition lhu :: "(u64 \<Rightarrow> u8) \<Rightarrow> u64 \<Rightarrow> u64" where
  "lhu m a = ucast (m a) OR push_bit 8 (ucast (m (a + 1)))"

definition lwu :: "(u64 \<Rightarrow> u8) \<Rightarrow> u64 \<Rightarrow> u64" where
  "lwu m a = lhu m a OR push_bit 16 (lhu m (a + 2))"

definition get_insn :: "fault_fn \<Rightarrow> u64 \<Rightarrow> (u64 \<Rightarrow> u8) \<Rightarrow> u64 option" where
  "get_insn fault mepc m =
     (if mepc AND 2 = 0
      then if fault Fetch mepc \<noteq> None then None
           else let insn = lwu m mepc
                in if insn AND 3 = 3 then Some insn else Some (drop_bit 48 (push_bit 48 insn))
      else if fault Fetch mepc \<noteq> None then None
           else let insn = lhu m mepc
                in if insn AND 3 \<noteq> 3 then Some insn
                   else if fault Fetch (mepc + 2) \<noteq> None then None
                   else Some (insn + push_bit 16 (lhu m (mepc + 2))))"

subsection \<open>Loads\<close>

definition INSN_PSEUDO_VS_LOAD :: u64 where "INSN_PSEUDO_VS_LOAD = 0x3000"
definition INSN_PSEUDO_VS_STORE :: u64 where "INSN_PSEUDO_VS_STORE = 0x3020"

definition sbi_misaligned_tinst_fixup :: "u64 \<Rightarrow> u64 \<Rightarrow> u64 \<Rightarrow> u64" where
  "sbi_misaligned_tinst_fixup orig_tinst new_tinst addr_offset =
     (if new_tinst = INSN_PSEUDO_VS_LOAD \<or> new_tinst = INSN_PSEUDO_VS_STORE then new_tinst
      else if orig_tinst = 0 then 0
      else orig_tinst OR push_bit SH_RS1 addr_offset)"

text \<open>
  The decoding cascade of the load handler: the number of bytes, the shift and the instruction
  word the register is taken from; \<open>None\<close> is the final \<open>else\<close>.
\<close>

definition decode_load :: "u64 \<Rightarrow> (nat \<times> nat \<times> u64) option" where
  "decode_load insn =
     (if insn AND 0x707f = 0x2003 then Some (4, 8 * (8 - 4), insn)
      else if insn AND 0x707f = 0x3003 then Some (8, 8 * (8 - 8), insn)
      else if insn AND 0x707f = 0x6003 then Some (4, 0, insn)
      else if insn AND 0x707f = 0x1003 then Some (2, 8 * (8 - 2), insn)
      else if insn AND 0x707f = 0x5003 then Some (2, 0, insn)
      else if insn AND 0xe003 = 0x6000 then Some (8, 8 * (8 - 8), push_bit SH_RD (RVC_RS2S insn))
      else if insn AND 0xe003 = 0x6002 \<and> drop_bit SH_RD insn AND 0x1f \<noteq> 0 then Some (8, 8 * (8 - 8), insn)
      else if insn AND 0xe003 = 0x4000 then Some (4, 8 * (8 - 4), push_bit SH_RD (RVC_RS2S insn))
      else if insn AND 0xe003 = 0x4002 \<and> drop_bit SH_RD insn AND 0x1f \<noteq> 0 then Some (4, 8 * (8 - 4), insn)
      else None)"

text \<open>The union \<open>reg_data\<close> is its bytes; \<open>data_ulong\<close> is their little-endian value.\<close>

definition data_ulong :: "u8 list \<Rightarrow> u64" where
  "data_ulong bs = foldr (\<lambda>b v. ucast b OR push_bit 8 v) bs 0"

definition data_bytes :: "u64 \<Rightarrow> nat \<Rightarrow> u8" where
  "data_bytes v i = ucast (drop_bit (8 * i) v)"

fun load_loop ::
  "fault_fn \<Rightarrow> u64 \<Rightarrow> (u64 \<Rightarrow> u8) \<Rightarrow> nat list \<Rightarrow> u8 list \<Rightarrow> pmu \<Rightarrow> ((nat \<times> unpriv_trap) option \<times> u8 list \<times> pmu) option" where
  "load_loop fault addr m [] val p = Some (None, val, p)"
| "load_loop fault addr m (i # is) val p =
     (case load_u8 fault (addr + of_nat i) m p of
        None \<Rightarrow> None
      | Some (b, uptrap, p) \<Rightarrow>
          if t_cause uptrap \<noteq> 0 then Some (Some (i, uptrap), val[i := b], p)
          else load_loop fault addr m is (val[i := b]) p)"

text \<open>
  \<open>junk\<close> is the content of the local \<open>uptrap\<close>, which the \<open>else\<close> branch reads although
  nothing has been stored in it.
\<close>

definition misaligned_unknown :: "u64 \<times> u64 \<Rightarrow> u64 \<Rightarrow> u64 \<Rightarrow> u64 \<Rightarrow> pt_regs \<Rightarrow> csrs \<Rightarrow> int \<times> pt_regs \<times> csrs" where
  "misaligned_unknown junk addr mtval2 mtinst r c =
     (let r = r\<lparr>r_tval := addr, r_tval2 := mtval2, r_tinst := mtinst, r_gva := sbi_regs_gva r\<rparr>
      in sbi_trap_redirect r (r_epc r) (fst junk) (snd junk) c)"

definition misaligned_fault :: "u64 \<Rightarrow> nat \<Rightarrow> unpriv_trap \<Rightarrow> pt_regs \<Rightarrow> csrs \<Rightarrow> pt_regs \<times> csrs" where
  "misaligned_fault mtinst i uptrap r c =
     (let r = r\<lparr>r_tinst := sbi_misaligned_tinst_fixup mtinst (r_tinst r) (of_nat i)\<rparr>
      in snd (sbi_trap_redirect r (r_epc r) (t_cause uptrap) (t_tval uptrap) c))"

definition sbi_misaligned_load_handler :: "fault_fn \<Rightarrow> u64 \<times> u64 \<Rightarrow> hart \<Rightarrow> (int \<times> hart) option" where
  "sbi_misaligned_load_handler fault junk h =
     (case get_insn fault (r_epc (regs h)) (umem h) of
        None \<Rightarrow> None
      | Some insn \<Rightarrow>
          let c = hcsr h; r = regs h;
              addr = c CSR_MTVAL;
              mtval2 = (if misa_extension CHR ''H'' c then c CSR_MTVAL2 else 0);
              mtinst = (if misa_extension CHR ''H'' c then c CSR_MTINST else 0);
              p = snd (sbi_pmu_ctr_incr_fw 0 (hpmu h))
          in case decode_load insn of
               None \<Rightarrow>
                 (case misaligned_unknown junk addr mtval2 mtinst r c of
                    (ret, r, c) \<Rightarrow> Some (ret, h\<lparr>regs := r, hcsr := c, hpmu := p\<rparr>))
             | Some (len, shift, insn) \<Rightarrow>
                 (case load_loop fault addr (umem h) [0..<len] (replicate 8 0) p of
                    None \<Rightarrow> None
                  | Some (Some (i, uptrap), val, p) \<Rightarrow>
                      (case misaligned_fault mtinst i uptrap r c of
                         (r, c) \<Rightarrow> Some (0, h\<lparr>regs := r, hcsr := c, hpmu := p\<rparr>))
                  | Some (None, val, p) \<Rightarrow>
                      let r = SET_RD insn (drop_bit shift (push_bit shift (data_ulong val))) r;
                          r = r\<lparr>r_epc := r_epc r + INSN_LEN insn\<rparr>
                      in Some (0, h\<lparr>regs := r, hpmu := p\<rparr>)))"

subsection \<open>Stores\<close>

definition decode_store :: "u64 \<Rightarrow> pt_regs \<Rightarrow> (nat \<times> u64) option" where
  "decode_store insn r =
     (if insn AND 0x707f = 0x2023 then Some (4, GET_RS2 insn r)
      else if insn AND 0x707f = 0x3023 then Some (8, GET_RS2 insn r)
      else if insn AND 0x707f = 0x1023 then Some (2, GET_RS2 insn r)
      else if insn AND 0xe003 = 0xe000 then Some (8, GET_RS2S insn r)
      else if insn AND 0xe003 = 0xe002 \<and> drop_bit SH_RD insn AND 0x1f \<noteq> 0 then Some (8, GET_RS2C insn r)
      else if insn AND 0xe003 = 0xc000 then Some (4, GET_RS2S insn r)
      else if insn AND 0xe003 = 0xc002 \<and> drop_bit SH_RD insn AND 0x1f \<noteq> 0 then Some (4, GET_RS2C insn r)
      else None)"

fun store_loop ::
  "fault_fn \<Rightarrow> u64 \<Rightarrow> u64 \<Rightarrow> nat list \<Rightarrow> (u64 \<Rightarrow> u8) \<Rightarrow> pmu \<Rightarrow> ((nat \<times> unpriv_trap) option \<times> (u64 \<Rightarrow> u8) \<times> pmu) option" where
  "store_loop fault addr v [] m p = Some (None, m, p)"
| "store_loop fault addr v (i # is) m p =
     (case store_u8 fault (addr + of_nat i) (data_bytes v i) m p of
        None \<Rightarrow> None
      | Some (m, uptrap, p) \<Rightarrow>
          if t_cause uptrap \<noteq> 0 then Some (Some (i, uptrap), m, p)
          else store_loop fault addr v is m p)"

text \<open>
  The \<open>else\<close> branch of the store handler does not return: with \<open>len = 0\<close> the loop is skipped
  and the program counter, by then the supervisor's trap vector, is advanced.
\<close>

definition sbi_misaligned_store_handler :: "fault_fn \<Rightarrow> u64 \<times> u64 \<Rightarrow> hart \<Rightarrow> (int \<times> hart) option" where
  "sbi_misaligned_store_handler fault junk h =
     (case get_insn fault (r_epc (regs h)) (umem h) of
        None \<Rightarrow> None
      | Some insn \<Rightarrow>
          let c = hcsr h; r = regs h;
              addr = c CSR_MTVAL;
              mtval2 = (if misa_extension CHR ''H'' c then c CSR_MTVAL2 else 0);
              mtinst = (if misa_extension CHR ''H'' c then c CSR_MTINST else 0);
              p = snd (sbi_pmu_ctr_incr_fw 1 (hpmu h));
              (len, v, r, c) = (case decode_store insn r of
                 Some (len, v) \<Rightarrow> (len, v, r, c)
               | None \<Rightarrow> (case misaligned_unknown junk addr mtval2 mtinst r c of
                            (ret, r, c) \<Rightarrow> (0, GET_RS2 insn (regs h), r, c)))
          in case store_loop fault addr v [0..<len] (umem h) p of
               None \<Rightarrow> None
             | Some (Some (i, uptrap), m, p) \<Rightarrow>
                 (case misaligned_fault mtinst i uptrap r c of
                    (r, c) \<Rightarrow> Some (0, h\<lparr>regs := r, hcsr := c, umem := m, hpmu := p\<rparr>))
             | Some (None, m, p) \<Rightarrow>
                 Some (0, h\<lparr>regs := r\<lparr>r_epc := r_epc r + INSN_LEN insn\<rparr>, hcsr := c, umem := m, hpmu := p\<rparr>))"

section \<open>Reference: the instructions\<close>

text \<open>
  The instruction at an address, from the instruction encoding: 16 bits, or 32 when the lowest
  two are set. \<open>load_kind\<close> and \<open>store_kind\<close> decode it by its fields: the number of bytes,
  for a load whether the value is sign-extended, and the register.
\<close>

definition insn_at :: "(u64 \<Rightarrow> u8) \<Rightarrow> u64 \<Rightarrow> u64" where
  "insn_at m a = (if lhu m a AND 3 = 3 then lhu m a OR push_bit 16 (lhu m (a + 2)) else lhu m a)"

definition fld :: "u64 \<Rightarrow> nat \<Rightarrow> nat \<Rightarrow> nat" where
  "fld insn pos n = unat (take_bit n (drop_bit pos insn))"

definition load_kind :: "u64 \<Rightarrow> (nat \<times> bool \<times> nat) option" where
  "load_kind insn =
     (if fld insn 0 7 = 3
      then (if fld insn 12 3 = 1 then Some (2, True, fld insn 7 5)
            else if fld insn 12 3 = 2 then Some (4, True, fld insn 7 5)
            else if fld insn 12 3 = 3 then Some (8, True, fld insn 7 5)
            else if fld insn 12 3 = 5 then Some (2, False, fld insn 7 5)
            else if fld insn 12 3 = 6 then Some (4, False, fld insn 7 5)
            else None)
      else if fld insn 0 2 = 0
      then (if fld insn 13 3 = 2 then Some (4, True, 8 + fld insn 2 3)
            else if fld insn 13 3 = 3 then Some (8, True, 8 + fld insn 2 3)
            else None)
      else if fld insn 0 2 = 2 \<and> fld insn 7 5 \<noteq> 0
      then (if fld insn 13 3 = 2 then Some (4, True, fld insn 7 5)
            else if fld insn 13 3 = 3 then Some (8, True, fld insn 7 5)
            else None)
      else None)"

definition store_kind :: "u64 \<Rightarrow> (nat \<times> nat) option" where
  "store_kind insn =
     (if fld insn 0 7 = 0x23
      then (if fld insn 12 3 = 1 then Some (2, fld insn 20 5)
            else if fld insn 12 3 = 2 then Some (4, fld insn 20 5)
            else if fld insn 12 3 = 3 then Some (8, fld insn 20 5)
            else None)
      else if fld insn 0 2 = 0
      then (if fld insn 13 3 = 6 then Some (4, 8 + fld insn 2 3)
            else if fld insn 13 3 = 7 then Some (8, 8 + fld insn 2 3)
            else None)
      else if fld insn 0 2 = 2
      then (if fld insn 13 3 = 6 then Some (4, fld insn 2 5)
            else if fld insn 13 3 = 7 then Some (8, fld insn 2 5)
            else None)
      else None)"

definition insn_bytes :: "u64 \<Rightarrow> u64" where
  "insn_bytes insn = (if fld insn 0 2 = 3 then 4 else 2)"

text \<open>The bytes a load reads, their value, and the value the instruction puts into the register.\<close>

definition bytes_at :: "(u64 \<Rightarrow> u8) \<Rightarrow> u64 \<Rightarrow> nat \<Rightarrow> u8 list" where
  "bytes_at m a n = map (\<lambda>i. m (a + of_nat i)) [0..<n]"

definition arch_load :: "bool \<Rightarrow> u8 list \<Rightarrow> u64" where
  "arch_load sx bs =
     (if sx then signed_take_bit (8 * length bs - 1) (data_ulong bs) else data_ulong bs)"

section \<open>Lemmas\<close>

lemma mask_707f: "insn AND 0x707f = push_bit 12 (take_bit 3 (drop_bit 12 insn)) OR take_bit 7 insn" for insn :: u64
proof -
  have m: "(0x707f :: u64) = push_bit 12 (mask 3) OR mask 7" by (simp add: mask_numeral)
  show ?thesis unfolding m by (rule bit_word_eqI) (auto simp: bit_simps)
qed

lemma mask_e003: "insn AND 0xe003 = push_bit 13 (take_bit 3 (drop_bit 13 insn)) OR take_bit 2 insn" for insn :: u64
proof -
  have m: "(0xe003 :: u64) = push_bit 13 (mask 3) OR mask 2" by (simp add: mask_numeral)
  show ?thesis unfolding m by (rule bit_word_eqI) (auto simp: bit_simps)
qed

lemma mult_add_unique: "b < m \<Longrightarrow> j < m \<Longrightarrow> (m * a + b = m * k + j) = (a = k \<and> b = j)" for a b k j m :: nat
  by (metis div_mult_self4 mod_mult_self4 div_less mod_less add.right_neutral not_less_zero)

lemma test_707f:
  "insn AND 0x707f = of_nat (2 ^ 12 * k + j) \<longleftrightarrow> fld insn 12 3 = k \<and> fld insn 0 7 = j"
  if "k < 8" "j < 128" for insn :: u64
proof -
  let ?h = "take_bit 3 (drop_bit 12 insn)" and ?l = "take_bit 7 insn"
  have h: "unat ?h < 8" "unat ?l < 128"
    using take_bit_nat_less_exp [of 3] take_bit_nat_less_exp [of 7] by (simp_all add: unsigned_take_bit_eq)
  have "push_bit 12 ?h OR ?l = push_bit 12 ?h + ?l"
    by (rule disjunctive_add_eq_or [symmetric]) (rule bit_word_eqI, auto simp: bit_simps)
  then have e: "unat (insn AND 0x707f) = 2 ^ 12 * unat ?h + unat ?l"
    using h by (simp add: mask_707f unat_word_ariths push_bit_eq_mult)
  have "2 ^ 12 * k + j < 2 ^ LENGTH(64)" using that by simp
  then have e': "unat (of_nat (2 ^ 12 * k + j) :: u64) = 2 ^ 12 * k + j" by (simp only: unat_of_nat mod_less)
  show ?thesis unfolding word_unat_eq_iff e e' fld_def drop_bit_0 id_apply
    using h that by (intro mult_add_unique) simp_all
qed

lemma test_e003:
  "insn AND 0xe003 = of_nat (2 ^ 13 * k + j) \<longleftrightarrow> fld insn 13 3 = k \<and> fld insn 0 2 = j"
  if "k < 8" "j < 4" for insn :: u64
proof -
  let ?h = "take_bit 3 (drop_bit 13 insn)" and ?l = "take_bit 2 insn"
  have h: "unat ?h < 8" "unat ?l < 4"
    using take_bit_nat_less_exp [of 3] take_bit_nat_less_exp [of 2] by (simp_all add: unsigned_take_bit_eq)
  have "push_bit 13 ?h OR ?l = push_bit 13 ?h + ?l"
    by (rule disjunctive_add_eq_or [symmetric]) (rule bit_word_eqI, auto simp: bit_simps)
  then have e: "unat (insn AND 0xe003) = 2 ^ 13 * unat ?h + unat ?l"
    using h by (simp add: mask_e003 unat_word_ariths push_bit_eq_mult)
  have "2 ^ 13 * k + j < 2 ^ LENGTH(64)" using that by simp
  then have e': "unat (of_nat (2 ^ 13 * k + j) :: u64) = 2 ^ 13 * k + j" by (simp only: unat_of_nat mod_less)
  show ?thesis unfolding word_unat_eq_iff e e' fld_def drop_bit_0 id_apply
    using h that by (intro mult_add_unique) simp_all
qed

lemma insn_tests:
  "insn AND 0x707f = 0x1003 \<longleftrightarrow> fld insn 12 3 = 1 \<and> fld insn 0 7 = 3"
  "insn AND 0x707f = 0x2003 \<longleftrightarrow> fld insn 12 3 = 2 \<and> fld insn 0 7 = 3"
  "insn AND 0x707f = 0x3003 \<longleftrightarrow> fld insn 12 3 = 3 \<and> fld insn 0 7 = 3"
  "insn AND 0x707f = 0x5003 \<longleftrightarrow> fld insn 12 3 = 5 \<and> fld insn 0 7 = 3"
  "insn AND 0x707f = 0x6003 \<longleftrightarrow> fld insn 12 3 = 6 \<and> fld insn 0 7 = 3"
  "insn AND 0x707f = 0x1023 \<longleftrightarrow> fld insn 12 3 = 1 \<and> fld insn 0 7 = 35"
  "insn AND 0x707f = 0x2023 \<longleftrightarrow> fld insn 12 3 = 2 \<and> fld insn 0 7 = 35"
  "insn AND 0x707f = 0x3023 \<longleftrightarrow> fld insn 12 3 = 3 \<and> fld insn 0 7 = 35"
  "insn AND 0xe003 = 0x4000 \<longleftrightarrow> fld insn 13 3 = 2 \<and> fld insn 0 2 = 0"
  "insn AND 0xe003 = 0x6000 \<longleftrightarrow> fld insn 13 3 = 3 \<and> fld insn 0 2 = 0"
  "insn AND 0xe003 = 0xc000 \<longleftrightarrow> fld insn 13 3 = 6 \<and> fld insn 0 2 = 0"
  "insn AND 0xe003 = 0xe000 \<longleftrightarrow> fld insn 13 3 = 7 \<and> fld insn 0 2 = 0"
  "insn AND 0xe003 = 0x4002 \<longleftrightarrow> fld insn 13 3 = 2 \<and> fld insn 0 2 = 2"
  "insn AND 0xe003 = 0x6002 \<longleftrightarrow> fld insn 13 3 = 3 \<and> fld insn 0 2 = 2"
  "insn AND 0xe003 = 0xc002 \<longleftrightarrow> fld insn 13 3 = 6 \<and> fld insn 0 2 = 2"
  "insn AND 0xe003 = 0xe002 \<longleftrightarrow> fld insn 13 3 = 7 \<and> fld insn 0 2 = 2"
  using test_707f [of 1 3 insn] test_707f [of 2 3 insn] test_707f [of 3 3 insn] test_707f [of 5 3 insn]
    test_707f [of 6 3 insn] test_707f [of 1 35 insn] test_707f [of 2 35 insn] test_707f [of 3 35 insn]
    test_e003 [of 2 0 insn] test_e003 [of 3 0 insn] test_e003 [of 6 0 insn] test_e003 [of 7 0 insn]
    test_e003 [of 2 2 insn] test_e003 [of 3 2 insn] test_e003 [of 6 2 insn] test_e003 [of 7 2 insn]
  by simp_all

lemma fld_low2: "fld insn 0 7 = j \<Longrightarrow> fld insn 0 2 = j mod 4"
proof -
  have "take_bit 2 (take_bit 7 insn) = take_bit 2 insn" by (simp add: take_bit_take_bit min_def)
  then have "fld insn 0 2 = take_bit 2 (fld insn 0 7)"
    by (simp add: fld_def unsigned_take_bit_eq)
  then show "fld insn 0 7 = j \<Longrightarrow> fld insn 0 2 = j mod 4" by (simp add: take_bit_eq_mod)
qed

lemma field5_fld: "field5 insn pos = fld insn pos 5"
  by (simp add: field5_def fld_def mask_numerals take_bit_eq_mask)

lemma field5_zero: "drop_bit SH_RD insn AND 0x1f \<noteq> 0 \<longleftrightarrow> fld insn 7 5 \<noteq> 0"
  by (simp add: fld_def mask_numerals take_bit_eq_mask SH_RD_def unat_eq_zero)

lemma INSN_LEN_bytes: "INSN_LEN insn = insn_bytes insn"
proof -
  have "unat (insn AND 3) = fld insn 0 2" "fld insn 0 2 < 4"
    using take_bit_nat_less_exp [of 2 "unat insn"]
    by (simp_all add: fld_def mask_numerals unsigned_take_bit_eq flip: take_bit_eq_mask)
  then show ?thesis by (simp add: INSN_LEN_def insn_bytes_def word_less_nat_alt)
qed

lemma rvc_rs2s:
  "unat (RVC_RS2S insn) = 8 + fld insn 2 3" "8 + fld insn 2 3 < 16"
proof -
  show l: "8 + fld insn 2 3 < 16"
    using take_bit_nat_less_exp [of 3 "unat (drop_bit 2 insn)"] by (simp add: fld_def unsigned_take_bit_eq)
  have "unat (RV_X insn SH_RS2C 3) = fld insn 2 3"
    by (simp add: RV_X_def SH_RS2C_def fld_def take_bit_eq_mask)
  then show "unat (RVC_RS2S insn) = 8 + fld insn 2 3" using l by (simp add: RVC_RS2S_def unat_word_ariths)
qed

lemma reg_rvc:
  "reg_at (push_bit SH_RD (RVC_RS2S insn)) SH_RD = 8 + fld insn 2 3"
  "INSN_LEN (push_bit SH_RD (RVC_RS2S insn)) = 2"
  "reg_at (RVC_RS2S insn) 0 = 8 + fld insn 2 3"
proof -
  let ?w = "RVC_RS2S insn"
  have small: "take_bit 5 ?w = ?w"
    using rvc_rs2s [of insn] by (simp add: word_unat_eq_iff unsigned_take_bit_eq take_bit_nat_eq_self)
  have "take_bit 5 (drop_bit 7 (push_bit 7 ?w)) = take_bit 5 ?w"
    by (rule bit_word_eqI) (auto simp: bit_simps)
  then show "reg_at (push_bit SH_RD ?w) SH_RD = 8 + fld insn 2 3"
    using small rvc_rs2s [of insn] by (simp add: reg_at_field field5_fld fld_def SH_RD_def)
  show "reg_at ?w 0 = 8 + fld insn 2 3"
    using small rvc_rs2s [of insn] by (simp add: reg_at_field field5_fld fld_def)
  have "push_bit SH_RD ?w AND 3 = take_bit 2 (push_bit 7 ?w)"
    by (simp only: mask_numerals(2) take_bit_eq_mask SH_RD_def)
  also have "\<dots> = 0" by (simp only: take_bit_push_bit) simp
  finally have "push_bit SH_RD ?w AND 3 = 0" .
  then show "INSN_LEN (push_bit SH_RD ?w) = 2" by (simp add: INSN_LEN_def)
qed

lemmas reg_rvc_fld = reg_rvc [unfolded reg_at_field field5_fld INSN_LEN_bytes SH_RD_def]

lemma decode_load_kind:
  "load_kind insn = None \<Longrightarrow> decode_load insn = None"
  "load_kind insn = Some (len, sx, rd) \<Longrightarrow> \<exists>i. decode_load insn = Some (len, if sx then 8 * (8 - len) else 0, i) \<and>
     reg_at i SH_RD = rd \<and> INSN_LEN i = insn_bytes insn \<and> len \<in> {2, 4, 8}"
  using fld_low2 [of insn 3]
  unfolding load_kind_def decode_load_def insn_tests field5_zero
  by (auto simp: reg_rvc_fld INSN_LEN_bytes insn_bytes_def [of insn] reg_at_field field5_fld SH_RD_def split: if_splits)

lemma decode_store_kind:
  "store_kind insn = Some (len, rs) \<Longrightarrow> fld insn 0 2 = 2 \<longrightarrow> fld insn 7 5 \<noteq> 0 \<Longrightarrow>
     decode_store insn r = Some (len, gpr r ! rs) \<and> len \<in> {2, 4, 8}"
  "store_kind insn = None \<or> (fld insn 0 2 = 2 \<and> fld insn 7 5 = 0) \<Longrightarrow> decode_store insn r = None"
  using fld_low2 [of insn 35]
  unfolding store_kind_def decode_store_def insn_tests field5_zero
  by (auto simp: reg_rvc_fld reg_at_field field5_fld GET_RS2_def GET_RS2S_def GET_RS2C_def sh_defs split: if_splits)

lemma lhu_bits: "bit (lhu m a) n \<longleftrightarrow> (n < 8 \<and> bit (m a) n) \<or> (8 \<le> n \<and> n < 16 \<and> bit (m (a + 1)) (n - 8))"
  by (auto simp: lhu_def bit_simps dest: bit_imp_le_length)

lemma get_insn_fetch:
  assumes "fault Fetch a = None" "fault Fetch (a + 2) = None"
  shows "get_insn fault a m = Some (insn_at m a)"
proof -
  have low: "lwu m a AND 3 = lhu m a AND 3"
    unfolding mask_numerals(2) by (rule bit_word_eqI) (auto simp: lwu_def bit_simps)
  have cut: "drop_bit 48 (push_bit 48 (lwu m a)) = lhu m a"
    by (rule bit_word_eqI) (auto simp: lwu_def bit_simps lhu_bits)
  have add: "lhu m a + push_bit 16 (lhu m (a + 2)) = lhu m a OR push_bit 16 (lhu m (a + 2))"
    by (rule disjunctive_add_eq_or) (rule bit_word_eqI, auto simp: bit_simps lhu_bits)
  show ?thesis using assms unfolding get_insn_def insn_at_def Let_def low cut add
    by (simp add: lwu_def)
qed

lemma bit_data_ulong:
  "bit (data_ulong bs) n \<longleftrightarrow> n < 64 \<and> n div 8 < length bs \<and> bit (bs ! (n div 8)) (n mod 8)"
proof (induction bs arbitrary: n)
  case (Cons b bs)
  have eq: "data_ulong (b # bs) = ucast b OR push_bit 8 (data_ulong bs)" by (simp add: data_ulong_def)
  show ?case
  proof (cases "n < 8")
    case True
    then show ?thesis by (auto simp: eq bit_simps)
  next
    case False
    then have "n div 8 = Suc ((n - 8) div 8)" "(n - 8) mod 8 = n mod 8" by (simp_all add: le_mod_geq le_div_geq)
    then show ?thesis using False bit_imp_le_length [of b n]
      by (auto simp: eq bit_simps Cons.IH)
  qed
qed (simp add: data_ulong_def)

lemma data_ulong_pad: "data_ulong (bs @ replicate k 0) = data_ulong bs"
  by (rule bit_word_eqI) (auto simp: bit_data_ulong nth_append)

lemma data_ulong_shift:
  assumes "length bs \<le> 8"
  shows "drop_bit (8 * (8 - length bs)) (push_bit (8 * (8 - length bs)) (data_ulong bs)) = data_ulong bs"
proof (rule bit_word_eqI)
  fix n
  have "n div 8 < length bs \<longleftrightarrow> 8 * (8 - length bs) + n < 64" using assms by (auto simp: div_less_iff_less_mult)
  then show "bit (drop_bit (8 * (8 - length bs)) (push_bit (8 * (8 - length bs)) (data_ulong bs))) n =
      bit (data_ulong bs) n"
    by (auto simp: bit_simps bit_data_ulong)
qed

lemma bytes_at_Suc: "bytes_at m a (Suc k) = bytes_at m a k @ [m (a + of_nat k)]"
  by (simp add: bytes_at_def)

lemma length_bytes_at [simp]: "length (bytes_at m a k) = k"
  by (simp add: bytes_at_def)

lemma load_loop_run:
  assumes "k \<le> len" "len \<le> 8" "\<And>i. i < len \<Longrightarrow> fault Load (addr + of_nat i) = None"
  shows "load_loop fault addr m [k..<len] (bytes_at m addr k @ replicate (8 - k) 0) p =
    Some (None, bytes_at m addr len @ replicate (8 - len) 0, p)"
  using assms(1)
proof (induction "len - k" arbitrary: k)
  case (Suc n)
  then have k: "k < len" by simp
  then have r: "8 - k = Suc (7 - k)" using assms(2) by simp
  have "(bytes_at m addr k @ replicate (8 - k) 0)[k := m (addr + of_nat k)] =
      bytes_at m addr (Suc k) @ replicate (8 - Suc k) 0"
    by (simp add: r bytes_at_Suc list_update_append)
  with Suc(1) [of "Suc k"] Suc(2) k assms(3) [OF k] show ?case by (simp add: upt_conv_Cons [OF k] load_u8_def)
qed simp

definition write_bytes :: "(u64 \<Rightarrow> u8) \<Rightarrow> u64 \<Rightarrow> u64 \<Rightarrow> nat \<Rightarrow> u64 \<Rightarrow> u8" where
  "write_bytes m addr v n = (\<lambda>a. if unat (a - addr) < n then data_bytes v (unat (a - addr)) else m a)"

lemma write_bytes_Suc:
  assumes "k < 8"
  shows "(write_bytes m addr v k)(addr + of_nat k := data_bytes v k) = write_bytes m addr v (Suc k)"
proof
  fix a
  have "unat (a - addr) = k \<longleftrightarrow> a - addr = of_nat k"
    using assms by (simp add: word_unat_eq_iff unat_of_nat)
  then have "unat (a - addr) = k \<longleftrightarrow> a = addr + of_nat k" by (simp add: diff_eq_eq add.commute)
  then show "((write_bytes m addr v k)(addr + of_nat k := data_bytes v k)) a = write_bytes m addr v (Suc k) a"
    by (auto simp: write_bytes_def less_Suc_eq)
qed

lemma store_loop_run:
  assumes "k \<le> len" "len \<le> 8" "\<And>i. i < len \<Longrightarrow> fault Store (addr + of_nat i) = None"
  shows "store_loop fault addr v [k..<len] (write_bytes m addr v k) p = Some (None, write_bytes m addr v len, p)"
  using assms(1)
proof (induction "len - k" arbitrary: k)
  case (Suc n)
  then have k: "k < len" by simp
  with assms(2) have "k < 8" by simp
  from write_bytes_Suc [OF this] Suc k assms(3) [OF k] show ?case
    by (simp add: upt_conv_Cons [OF k] store_u8_def)
qed simp

lemma load_handler_run:
  assumes "fault Fetch (r_epc (regs h)) = None" "fault Fetch (r_epc (regs h) + 2) = None"
    and kind: "load_kind (insn_at (umem h) (r_epc (regs h))) = Some (len, sx, rd)"
    and load: "\<And>i. i < len \<Longrightarrow> fault Load (hcsr h CSR_MTVAL + of_nat i) = None"
  shows "len \<in> {2, 4, 8}"
    "sbi_misaligned_load_handler fault junk h =
      Some (0, h\<lparr>regs := (regs h)
        \<lparr>gpr := (gpr (regs h))[rd := data_ulong (bytes_at (umem h) (hcsr h CSR_MTVAL) len)],
         r_epc := r_epc (regs h) + insn_bytes (insn_at (umem h) (r_epc (regs h)))\<rparr>,
        hpmu := snd (sbi_pmu_ctr_incr_fw 0 (hpmu h))\<rparr>)"
proof -
  let ?insn = "insn_at (umem h) (r_epc (regs h))" and ?bs = "bytes_at (umem h) (hcsr h CSR_MTVAL) len"
  from decode_load_kind(2) [OF kind] obtain i where
    i: "decode_load ?insn = Some (len, if sx then 8 * (8 - len) else 0, i)" "reg_at i SH_RD = rd"
      "INSN_LEN i = insn_bytes ?insn" and len: "len \<in> {2, 4, 8}" by blast
  from len have len8: "len \<le> 8" by auto
  have "load_loop fault (hcsr h CSR_MTVAL) (umem h) [0..<len] (replicate 8 0) p = Some (None, ?bs @ replicate (8 - len) 0, p)" for p
    using load_loop_run [OF _ len8, of 0 fault "hcsr h CSR_MTVAL"] load by (simp add: bytes_at_def)
  moreover have "drop_bit (if sx then 8 * (8 - len) else 0) (push_bit (if sx then 8 * (8 - len) else 0) (data_ulong ?bs)) = data_ulong ?bs"
    using data_ulong_shift [of ?bs] len8 by simp
  ultimately show "sbi_misaligned_load_handler fault junk h =
      Some (0, h\<lparr>regs := (regs h)\<lparr>gpr := (gpr (regs h))[rd := data_ulong ?bs],
         r_epc := r_epc (regs h) + insn_bytes ?insn\<rparr>, hpmu := snd (sbi_pmu_ctr_incr_fw 0 (hpmu h))\<rparr>)"
    using i by (simp add: sbi_misaligned_load_handler_def get_insn_fetch assms(1,2) Let_def data_ulong_pad SET_RD_def
        del: push_bit_of_0)
  show "len \<in> {2, 4, 8}" by (fact len)
qed

lemma arch_load_eq:
  assumes "length bs \<in> {2, 4, 8}"
  shows "data_ulong bs = arch_load sx bs \<longleftrightarrow> \<not> sx \<or> length bs = 8 \<or> \<not> bit (last bs) 7"
proof (cases sx)
  case True
  let ?n = "8 * length bs - 1" and ?v = "data_ulong bs"
  have n: "?n < 64" "?n div 8 = length bs - 1" "?n mod 8 = 7" "bs \<noteq> []" using assms by auto
  have top: "bit ?v ?n \<longleftrightarrow> bit (last bs) 7" using n by (simp add: bit_data_ulong last_conv_nth)
  have above: "\<not> bit ?v m" if "?n < m" for m using that by (auto simp: bit_data_ulong div_less_iff_less_mult)
  have bits: "bit (signed_take_bit ?n ?v) m \<longleftrightarrow> m < 64 \<and> bit ?v (min ?n m)" for m
    by (simp add: bit_signed_take_bit_iff possible_bit_def)
  have "?v = signed_take_bit ?n ?v \<longleftrightarrow> length bs = 8 \<or> \<not> bit ?v ?n"
  proof
    assume eq: "?v = signed_take_bit ?n ?v"
    show "length bs = 8 \<or> \<not> bit ?v ?n"
    proof (rule ccontr)
      assume "\<not> ?thesis"
      then have "?n < 63" "bit ?v ?n" using assms by auto
      then have "bit (signed_take_bit ?n ?v) 63" unfolding bits by simp
      with eq above [of 63] \<open>?n < 63\<close> show False by simp
    qed
  next
    assume "length bs = 8 \<or> \<not> bit ?v ?n"
    then show "?v = signed_take_bit ?n ?v"
    proof (intro bit_word_eqI)
      fix m assume "length bs = 8 \<or> \<not> bit ?v ?n" "m < LENGTH(64)"
      then show "bit ?v m = bit (signed_take_bit ?n ?v) m"
        unfolding bits using above [of m] by (cases "m \<le> ?n") (auto simp: min_def)
    qed
  qed
  with True top show ?thesis by (simp add: arch_load_def)
qed (simp add: arch_load_def)

lemma last_bytes_at: "0 < n \<Longrightarrow> last (bytes_at m a n) = m (a + of_nat (n - 1))"
  by (cases n) (simp_all add: bytes_at_Suc)


section \<open>Properties\<close>

text \<open>
  C13: The emulation of a misaligned load. When the instruction can be fetched, is one of the
  nine integer loads and none of its bytes faults, the handler returns 0, advances the program
  counter over the instruction, leaves memory and the other registers alone, and sets the
  destination register to the little-endian value of the bytes, extended with zeros. This is
  the value the instruction defines exactly when it does not sign-extend, is a doubleword
  load, or the top bit of the last byte is clear.
\<close>

theorem misaligned_load_exact:
  assumes "regs_ok (regs h)" "fault Fetch (r_epc (regs h)) = None" "fault Fetch (r_epc (regs h) + 2) = None"
    and "load_kind (insn_at (umem h) (r_epc (regs h))) = Some (len, sx, rd)" "rd < 32"
    and "\<And>i. i < len \<Longrightarrow> fault Load (hcsr h CSR_MTVAL + of_nat i) = None"
  shows "\<exists>h'. sbi_misaligned_load_handler fault junk h = Some (0, h') \<and>
    r_epc (regs h') = r_epc (regs h) + insn_bytes (insn_at (umem h) (r_epc (regs h))) \<and>
    umem h' = umem h \<and> hcsr h' = hcsr h \<and>
    (\<forall>x. x < 32 \<and> x \<noteq> rd \<longrightarrow> gpr (regs h') ! x = gpr (regs h) ! x) \<and>
    gpr (regs h') ! rd = data_ulong (bytes_at (umem h) (hcsr h CSR_MTVAL) len) \<and>
    (gpr (regs h') ! rd = arch_load sx (bytes_at (umem h) (hcsr h CSR_MTVAL) len) \<longleftrightarrow>
       \<not> sx \<or> len = 8 \<or> \<not> bit (umem h (hcsr h CSR_MTVAL + of_nat (len - 1))) 7)"
proof -
  note run = load_handler_run [OF assms(2-4,6)]
  from run(1) have "0 < len" by auto
  with run assms(1,5) arch_load_eq [of "bytes_at (umem h) (hcsr h CSR_MTVAL) len" sx]
  show ?thesis by (simp add: regs_ok_def last_bytes_at)
qed

definition mis_demo :: "u64 \<Rightarrow> u64 \<Rightarrow> hart" where
  "mis_demo insn x5 =
     \<lparr>regs = trap_demo\<lparr>gpr := (replicate 32 0)[5 := x5], r_epc := 0x1000\<rparr>, hcsr = (\<lambda>_. 0)(CSR_MTVAL := 0x2001, CSR_STVEC := 0x8000),
      umem = (\<lambda>a. if unat (a - 0x1000) < 4 then data_bytes insn (unat (a - 0x1000))
                  else if a = 0x2004 then 0x80 else if a = 0x2001 then 0x12 else 0),
      hpmu = pmu_demo\<rparr>"

text \<open>\<open>lw x10, 0(x11)\<close> at a misaligned address, of the bytes 12 00 00 80.\<close>

theorem misaligned_load_exact_witness:
  "\<exists>h'. sbi_misaligned_load_handler (\<lambda>_ _. None) (0, 0) (mis_demo 0x0005a503 0) = Some (0, h') \<and>
     gpr (regs h') ! 10 = 0x80000012 \<and> gpr (regs h') ! 10 \<noteq> 0xFFFFFFFF80000012"
proof -
  let ?h = "mis_demo 0x0005a503 0"
  have k: "load_kind (insn_at (umem ?h) (r_epc (regs ?h))) = Some (4, True, 10)" by code_simp
  have v: "data_ulong (bytes_at (umem ?h) (hcsr ?h CSR_MTVAL) 4) = 0x80000012" by code_simp
  have ok: "regs_ok (regs ?h)" by code_simp
  show ?thesis using misaligned_load_exact [OF ok _ _ k, of "\<lambda>_ _. None" "(0, 0)"] v by auto
qed

text \<open>
  C14: The emulation of a misaligned store writes the low bytes of the source register, and
  only these, to the bytes at the faulting address and advances the program counter over the
  instruction, when no byte faults. The stack-pointer forms of the compressed stores are
  covered only when the bits 7 to 11 of the instruction, part of the offset there, are not zero.
\<close>

theorem misaligned_store_exact:
  assumes "fault Fetch (r_epc (regs h)) = None" "fault Fetch (r_epc (regs h) + 2) = None"
    and "insn = insn_at (umem h) (r_epc (regs h))" "store_kind insn = Some (len, rs)"
    and "fld insn 0 2 = 2 \<longrightarrow> fld insn 7 5 \<noteq> 0"
    and "\<And>i. i < len \<Longrightarrow> fault Store (hcsr h CSR_MTVAL + of_nat i) = None"
  shows "sbi_misaligned_store_handler fault junk h =
    Some (0, h\<lparr>regs := (regs h)\<lparr>r_epc := r_epc (regs h) + insn_bytes insn\<rparr>,
      umem := (\<lambda>a. if unat (a - hcsr h CSR_MTVAL) < len
                   then data_bytes (gpr (regs h) ! rs) (unat (a - hcsr h CSR_MTVAL)) else umem h a),
      hpmu := snd (sbi_pmu_ctr_incr_fw 1 (hpmu h))\<rparr>)"
proof -
  from decode_store_kind(1) [OF assms(4,5), of "regs h"]
  have d: "decode_store insn (regs h) = Some (len, gpr (regs h) ! rs)" and len: "len \<le> 8" by auto
  have "write_bytes (umem h) a v 0 = umem h" for a v by (simp add: write_bytes_def)
  then have "store_loop fault (hcsr h CSR_MTVAL) v [0..<len] (umem h) p = Some (None, write_bytes (umem h) (hcsr h CSR_MTVAL) v len, p)" for v p
    using store_loop_run [of 0 len fault "hcsr h CSR_MTVAL" v "umem h" p] len assms(6) by simp
  then show ?thesis
    by (simp add: sbi_misaligned_store_handler_def get_insn_fetch assms(1,2) Let_def d [unfolded assms(3)]
        INSN_LEN_bytes write_bytes_def assms(3))
qed

text \<open>\<open>sw x5, 0(x11)\<close> at a misaligned address.\<close>

theorem misaligned_store_exact_witness:
  "\<exists>h'. sbi_misaligned_store_handler (\<lambda>_ _. None) (0, 0) (mis_demo 0x0055a023 0x11223344) = Some (0, h') \<and>
     map (\<lambda>i. umem h' (0x2001 + of_nat i)) [0..<5] = [0x44, 0x33, 0x22, 0x11, 0] \<and> r_epc (regs h') = 0x1004"
proof -
  let ?h = "mis_demo 0x0055a023 0x11223344" and ?i = "insn_at (umem (mis_demo 0x0055a023 0x11223344)) 0x1000"
  have e: "r_epc (regs ?h) = 0x1000" by code_simp
  have k: "store_kind ?i = Some (4, 5)" "fld ?i 0 2 = 2 \<longrightarrow> fld ?i 7 5 \<noteq> 0" by code_simp+
  note * = misaligned_store_exact [OF _ _ _ k, of "\<lambda>_ _. None" ?h "(0, 0)"]
  let ?m = "\<lambda>a. if unat (a - hcsr ?h CSR_MTVAL) < 4
     then data_bytes (gpr (regs ?h) ! 5) (unat (a - hcsr ?h CSR_MTVAL)) else umem ?h a"
  have v: "map (\<lambda>i. ?m (0x2001 + of_nat i)) [0..<5] = [0x44, 0x33, 0x22, 0x11, 0]" by code_simp
  have b: "insn_bytes ?i = 4" by code_simp
  show ?thesis using * v b e by simp
qed



text \<open>
  A \<open>c.swsp\<close> or \<open>c.sdsp\<close> with zero in the bits 7 to 11 is not emulated but reported to
  the supervisor, with a cause that was never assigned, and the supervisor is entered behind
  the first two bytes of its trap handler.
\<close>

theorem misaligned_store_lost:
  assumes "fault Fetch (r_epc (regs h)) = None" "fault Fetch (r_epc (regs h) + 2) = None"
    and "insn = insn_at (umem h) (r_epc (regs h))" "fld insn 0 2 = 2" "fld insn 7 5 = 0"
    and "mode_of (regs h) \<in> {PRV_S, PRV_U}" "\<not> goes_virt (regs h) (fst junk) (hcsr h)"
  shows "\<exists>h'. sbi_misaligned_store_handler fault junk h = Some (0, h') \<and> umem h' = umem h \<and>
    hcsr h' CSR_SCAUSE = fst junk \<and> r_epc (regs h') = hcsr h CSR_STVEC + 2"
proof -
  have d: "decode_store insn (regs h) = None" using decode_store_kind(2) [of insn] assms(4,5) by blast
  have b: "INSN_LEN insn = 2" using assms(4) by (simp add: INSN_LEN_bytes insn_bytes_def)
  let ?r = "\<lambda>a b d. (regs h)\<lparr>r_tval := a, r_tval2 := b, r_tinst := d, r_gva := sbi_regs_gva (regs h)\<rparr>"
  have "mode_of (?r a b d) = mode_of (regs h)" "goes_virt (?r a b d) = goes_virt (regs h)" for a b d
    by (simp_all add: mode_of_def goes_virt_def from_virt_def fun_eq_iff)
  then show ?thesis using assms(6,7)
    by (auto simp: sbi_misaligned_store_handler_def get_insn_fetch assms(1,2) Let_def d [unfolded assms(3)] b [unfolded assms(3)]
        misaligned_unknown_def redirect_cases redirect_to_hs_def csr_defs)
qed

text \<open>\<open>c.swsp x5, 0(sp)\<close>.\<close>

theorem misaligned_store_lost_witness:
  "\<exists>h'. sbi_misaligned_store_handler (\<lambda>_ _. None) (77, 0) (mis_demo 0xc016 0x11223344) = Some (0, h') \<and>
     umem h' = umem (mis_demo 0xc016 0x11223344) \<and> hcsr h' CSR_SCAUSE = 77 \<and> r_epc (regs h') = 0x8002"
proof -
  let ?h = "mis_demo 0xc016 0x11223344" and ?i = "insn_at (umem (mis_demo 0xc016 0x11223344)) (r_epc (regs (mis_demo 0xc016 0x11223344)))"
  have k: "fld ?i 0 2 = 2" "fld ?i 7 5 = 0" "mode_of (regs ?h) \<in> {PRV_S, PRV_U}"
    "\<not> goes_virt (regs ?h) (fst (77, 0 :: u64)) (hcsr ?h)" "hcsr ?h CSR_STVEC = 0x8000" by code_simp+
  show ?thesis using misaligned_store_lost [OF _ _ refl k(1-4), of "\<lambda>_ _. None"] k(5) by simp
qed

end
