(* ===== verification/Spec2Isabelle.thy ===== *)
theory Spec2Isabelle
  imports Muldiv Bitops Bh Timer Sbi_Fifo Sbi_Tlb Sbi_Hsm Sbi_Ipi Mem_Regions Mem_Alloc CString List_Head Page Ticket_Lock Qspin_Progress Vtxprintf Sbi_Misaligned
begin

text \<open>
  Verification of sdfirm, a firmware for small devices and for RISC-V application processors.
  The kernel of the firmware is a cooperative scheduler with timers and memory managers; on
  RISC-V the same image runs in machine mode below an operating system and serves its calls
  (the SBI runtime, \<open>arch/riscv/sbi\<close>). A library of integer, bit, string and print routines
  serves both. The theories follow this structure; source paths are relative to \<open>src\<close>.

  \<^bold>\<open>Library.\<close> Prelude has the machine types, the result type \<open>'a res\<close> of code that may stop the
  CPU (\<open>Bug\<close> for \<open>BUG\<close> and panics, \<open>Oob\<close> for an access outside an array, \<open>Stuck\<close> for an endless loop)
  and shared lemmas. Muldiv models \<open>lib/muldiv.c\<close>: all routines return the mathematical result.
  Digits and Bitops model \<open>lib/bitops.c\<close> and \<open>include/target/bitops.h\<close>, with the locale \<open>bitmap\<close> that
  their clients use. CString models \<open>lib/string.c\<close> over a byte store: overlapping copies,
  comparisons, and the number parsers. Vsnprintf and Vtxprintf model the two printers of
  \<open>lib/vsnprintf.c\<close>: one text per format and argument list, whatever the buffer; printed numbers
  are parsed back by CString. List_Head models \<open>include/target/list.h\<close> on a store of links,
  with assignments in the order of the macros, and shows each macro to implement an operation on
  sequences (locale \<open>node_list\<close>).

  \<^bold>\<open>Kernel.\<close> Bh models \<open>kernel/bh.c\<close> and the polling of \<open>kernel/irq.c\<close>; the registered handlers are
  an argument of the operations. Timer extends its state to \<open>kernel/timer.c\<close>: the array of armed
  timers refines a sorted queue (locale \<open>deadline_queue\<close>). Mem_Regions and Mem_Alloc model
  \<open>kernel/mem.c\<close>: a table refines a set of addresses (locale \<open>range_set\<close>), its iterators deliver
  the memory that is not reserved (locale \<open>range_iter\<close>), and an allocation fails only if there is no
  room. Page models \<open>kernel/page.c\<close>, whose free list lies in the free pages, and takes its initial
  memory from Mem_Alloc.

  \<^bold>\<open>Locks.\<close> Mutex is the contract of a lock (locale \<open>mutex\<close>). Ticket_Lock
  (\<open>arch/riscv/include/asm/spinlock.h\<close>), Qspin_Word and Qspinlock (\<open>kernel/spinlock.c\<close>) are transition
  systems of the atomic accesses of any number of CPUs and interpretations of it; Qspin_Progress
  bounds the number of accesses until all calls have ended.

  \<^bold>\<open>SBI runtime.\<close> Sbi_Fifo models \<open>sbi_fifo.c\<close> (locale \<open>bounded_queue\<close>); Sbi_Tlb models \<open>sbi_tlb.c\<close>, the
  remote fences that harts pass each other through these queues, as a step relation; Sbi_Ipi models
  \<open>sbi_ipi.c\<close>, by which the other hart is interrupted; Sbi_Hsm models \<open>sbi_hsm.c\<close>,
  \<open>sbi_ecall_hsm.c\<close> and the boot path, as a step relation of all harts. Riscv has the trap frame
  and the control registers of a hart (\<open>csr.h\<close>, \<open>irq.h\<close>, \<open>riscv_asm.c\<close>); Sbi_Trap models the
  redirection of a trap to the supervisor (\<open>sbi_trap.c\<close>) next to what the processor does itself;
  Sbi_Bitops models \<open>sbi_bitops.c\<close> and shows it to agree with \<open>lib/bitops.c\<close> (locale \<open>bit_search\<close>);
  Sbi_Pmu models \<open>sbi_pmu.c\<close> and \<open>sbi_ecall_pmu.c\<close>: calls within the tables are safe and keep the
  invariant, and firmware counters count; Sbi_Misaligned models \<open>riscv_unpriv.c\<close> and
  \<open>sbi_misaligned_ldst.c\<close>: the emulated access has the effect of the instruction, byte faults
  go to the supervisor.

  \<^bold>\<open>State and steps.\<close> A C structure is a record, with the fields of the source; a function takes
  the state and returns it updated. Machine integers are words, or natural numbers and integers
  with the reduction written out. Concurrent code is an inductive step relation, one step per atomic
  access (locks) or pass through a loop body (remote fences, harts), interleaved in any order.
  Memory is sequentially consistent. Hardware effects are logs of operations.

  \<^bold>\<open>Bounds.\<close> Loops are structural recursions, functions with a termination proof, or partial
  functions to \<open>option\<close>; where a property says that code returns, the result is \<open>Some\<close> or \<open>Inr\<close> in its
  statement. Loops over a word or a bitmap run over a list of its positions, 64 per word. The
  queued lock is modelled for fewer than \<open>2 ^ 14\<close> CPUs, which is where its code takes the byte
  accesses, the ticket lock for fewer than \<open>2 ^ 32\<close>. Addresses of the memory managers lie below
  \<open>2 ^ 64\<close>.

  \<^bold>\<open>Parameters.\<close> Handlers registered at run time, clock readings, platform operations, and whether
  the processor faults on an access, are arguments of the definitions.

  \<^bold>\<open>Defects.\<close> Several properties state what the code does where this is not what it is meant to do:
  the tickets lost by a failed try of the ticket lock, the queue cut by the fallback of the queued
  lock, and the firmware event code that leaves its table. Further lemmas at the end of the theories
  show timers that elapse twice, harts that never stop, an interrupt enable lost in a redirected trap
  and a compressed store that is not emulated.

  \<^bold>\<open>Not modelled.\<close> Device drivers, protocol stacks, firmware tables, boards and the other
  architectures are accesses to device registers, external formats, or assembly. Tasks and
  semaphores rest on context switches in assembly. The heap is an imported allocator built from
  macros over raw memory. The console, the terminal and the shell are interactive input and output.
  Floating point conversions of the library are left out, as are tables and wrappers. Of the SBI
  runtime, boot and feature detection, dispatch by extension number, and the calls that only reach
  devices are left out.
\<close>

end
